(* ===== verification/Prelude.thy ===== *)
theory Prelude
  imports Main "HOL-Library.Word"
begin

text \<open>
  Shared vocabulary of the development: Go values (bytes, errors, panics), the outcome of
  a Go call, slicing with Go's bounds checks, big-endian words, and the collections of
  lemmas the component proofs use.

  A Go function of type \<open>(T, error)\<close> returns an \<open>outcome\<close>: \<open>Ok v\<close> for a nil error,
  \<open>Err e\<close> for a non-nil one, \<open>Panic p\<close> when the goroutine panics before returning and
  \<open>Hang\<close> when a loop of the callee never ends. Go's \<^verbatim>\<open>int\<close> is 64 bits wide; indices and
  sizes are bounded by the memory of the machine, so they are modelled as \<open>int\<close> or \<open>nat\<close>;
  integers the code truncates or wraps (\<^verbatim>\<open>uint16\<close>, \<^verbatim>\<open>uint32\<close>, \<^verbatim>\<open>uint64\<close>) are words.
\<close>

unbundle bit_operations_syntax

named_theorems outcome_simps \<open>rewriting of the combinators on outcomes\<close>
named_theorems slice_simps \<open>rewriting of Go slice expressions and copies\<close>
named_theorems refine_simps \<open>what an operation does to the abstract state of its component\<close>

section \<open>Values\<close>

type_synonym byte = "8 word"
type_synonym bytes = "8 word list"
type_synonym uint16 = "16 word"
type_synonym uint32 = "32 word"
type_synonym uint64 = "64 word"

text \<open>A Go string literal is the sequence of its bytes.\<close>

definition str :: "string \<Rightarrow> bytes" where
  "str s = map (of_char :: char \<Rightarrow> byte) s"

lemma length_str [simp]: "length (str s) = length s"
  by (simp add: str_def)

text \<open>
  The error values of the program. \<open>ErrOther\<close> stands for an error made by code outside
  the repository (a user's hook, handler or codec, a network call).
\<close>

datatype go_error =
    EOF
  | ErrUnexpectedEOF
  | ErrGivenBufferNotEnough int int
  | ErrRemainNotEnough uint32 int
  | ErrWriterBufferNotEnough
  | ErrMessageNotString
  | ErrMsgSizeGreaterThanMaxLength
  | ErrChannelClosed
  | ErrChannelReaderClosed
  | ErrChannelWriterClosed
  | ErrMsg string
  | ErrPanic string
  | ErrOther nat

datatype go_panic =
    SliceBounds
  | IndexOutOfRange
  | NilDereference
  | TypeAssertion
  | NegativeCounter
  | CloseOfClosedChannel
  | InvalidArgument string
  | UserPanic nat

datatype 'a outcome = Ok 'a | Err go_error | Panic go_panic | Hang

section \<open>Combinators on outcomes\<close>

primrec is_ok :: "'a outcome \<Rightarrow> bool" where
  "is_ok (Ok _) = True"
| "is_ok (Err _) = False"
| "is_ok (Panic _) = False"
| "is_ok Hang = False"

text \<open>Sequencing of a call that returns an outcome with the code that follows it when the
  error is nil; the state component is threaded by the caller.\<close>

fun and_then :: "'a outcome \<times> 's \<Rightarrow> ('a \<Rightarrow> 's \<Rightarrow> 'b outcome \<times> 's) \<Rightarrow> 'b outcome \<times> 's" where
  "and_then (Ok a, s) f = f a s"
| "and_then (Err e, s) f = (Err e, s)"
| "and_then (Panic p, s) f = (Panic p, s)"
| "and_then (Hang, s) f = (Hang, s)"

lemma and_then_Ok_iff [outcome_simps]:
  "and_then m f = (Ok b, t) \<longleftrightarrow> (\<exists>a s. m = (Ok a, s) \<and> f a s = (Ok b, t))"
  by (cases "(m, f)" rule: and_then.cases) auto

lemma and_then_cases:
  assumes "and_then (out, s) f = (out', s')"
  obtains "s' = s" | a where "out = Ok a" and "f a s = (out', s')"
  using assms by (cases out) auto

text \<open>A call whose error is assigned to the blank identifier, \<^verbatim>\<open>_ = f()\<close>.\<close>

fun ignore_err :: "unit outcome \<times> 's \<Rightarrow> unit outcome \<times> 's" where
  "ignore_err (Err e, s) = (Ok (), s)"
| "ignore_err m = m"

section \<open>Slices of a byte sequence\<close>

text \<open>
  The Go expression \<open>b[lo:hi]\<close> on a slice whose backing array, from the slice's start, is
  \<open>xs\<close> (so that its capacity is \<open>length xs\<close>): a run-time panic unless
  \<open>0 \<le> lo \<le> hi \<le> cap b\<close>.
\<close>

definition slice_expr :: "bytes \<Rightarrow> int \<Rightarrow> int \<Rightarrow> bytes outcome" where
  "slice_expr xs lo hi =
     (if 0 \<le> lo \<and> lo \<le> hi \<and> hi \<le> int (length xs)
      then Ok (take (nat (hi - lo)) (drop (nat lo) xs))
      else Panic SliceBounds)"

text \<open>\<open>copy\<close> of \<open>bs\<close> into an array at an offset.\<close>

definition overwrite :: "nat \<Rightarrow> bytes \<Rightarrow> bytes \<Rightarrow> bytes" where
  "overwrite off bs xs = take off xs @ take (length xs - off) bs @ drop (off + length bs) xs"

lemma length_overwrite [simp]: "off \<le> length xs \<Longrightarrow> length (overwrite off bs xs) = length xs"
  by (simp add: overwrite_def)

lemma slice_expr_Ok [slice_simps]:
  "0 \<le> lo \<Longrightarrow> lo \<le> hi \<Longrightarrow> hi \<le> int (length xs) \<Longrightarrow>
   slice_expr xs lo hi = Ok (take (nat (hi - lo)) (drop (nat lo) xs))"
  by (simp add: slice_expr_def)

lemma slice_expr_Panic [slice_simps]:
  "lo < 0 \<or> hi < lo \<or> int (length xs) < hi \<Longrightarrow> slice_expr xs lo hi = Panic SliceBounds"
  by (auto simp: slice_expr_def)

lemma take_overwrite [slice_simps]:
  "k \<le> off \<Longrightarrow> off \<le> length xs \<Longrightarrow> take k (overwrite off bs xs) = take k xs"
  by (simp add: overwrite_def)

lemma overwrite_at [slice_simps]:
  "off + length bs \<le> length xs \<Longrightarrow> take (length bs) (drop off (overwrite off bs xs)) = bs"
  by (simp add: overwrite_def)

lemma take_drop_overwrite_before [slice_simps]:
  "i + k \<le> off \<Longrightarrow> off \<le> length xs \<Longrightarrow> take k (drop i (overwrite off bs xs)) = take k (drop i xs)"
  by (simp add: overwrite_def take_drop)

lemma take_after_overwrite [slice_simps]:
  "off + length bs \<le> length xs \<Longrightarrow>
   take (off + length bs) (overwrite off bs xs) = take off xs @ bs"
  by (simp add: overwrite_def)

lemma overwrite_append:
  "off + length bs + length cs \<le> length xs \<Longrightarrow>
   overwrite (off + length bs) cs (overwrite off bs xs) = overwrite off (bs @ cs) xs"
  by (simp add: overwrite_def ac_simps)

lemma drop_replicate_pad:
  assumes "drop i xs = replicate (length xs - i) z" and "length xs \<le> c"
  shows "drop i (xs @ replicate (c - length xs) z) = replicate (c - i) z"
proof (cases "i \<le> length xs")
  case True
  with assms show ?thesis by (simp add: replicate_add[symmetric])
next
  case False
  then have "c - length xs - (i - length xs) = c - i" by simp
  with False show ?thesis by simp
qed

section \<open>Words against naturals\<close>

lemma le_unat_uint: "n \<le> unat w \<Longrightarrow> int n \<le> uint w"
  using of_nat_le_iff[where 'a = int, of n "unat w"] by simp

lemma unat_lt_uint: "unat w < n \<Longrightarrow> uint w < int n"
  using of_nat_less_iff[where 'a = int, of "unat w" n] by simp

lemma unat_uint32_bound: "unat (w :: uint32) < 2 ^ 32"
  using unsigned_less[of w, where 'a = nat] by simp

lemma unat_sub_of_nat [simp]: "n \<le> unat (w :: 'a :: len word) \<Longrightarrow> unat (w - of_nat n) = unat w - n"
  by (metis le_unat_uoi unat_sub word_le_nat_alt)

section \<open>Big-endian words (encoding/binary)\<close>

definition PutUint32 :: "uint32 \<Rightarrow> bytes" where
  "PutUint32 v = [ucast (drop_bit 24 v), ucast (drop_bit 16 v), ucast (drop_bit 8 v), ucast v]"

definition PutUint16 :: "uint16 \<Rightarrow> bytes" where
  "PutUint16 v = [ucast (drop_bit 8 v), ucast v]"

text \<open>\<open>BigEndian.Uint32 b\<close> reads \<open>b[0..3]\<close> and panics when \<open>b\<close> is shorter.\<close>

fun Uint32 :: "bytes \<Rightarrow> uint32 outcome" where
  "Uint32 (a # b # c # d # _) =
     Ok (push_bit 24 (ucast a) OR push_bit 16 (ucast b) OR push_bit 8 (ucast c) OR ucast d)"
| "Uint32 _ = Panic IndexOutOfRange"

fun Uint16 :: "bytes \<Rightarrow> uint16 outcome" where
  "Uint16 (a # b # _) = Ok (push_bit 8 (ucast a) OR ucast b)"
| "Uint16 _ = Panic IndexOutOfRange"

lemma length_PutUint32 [simp]: "length (PutUint32 v) = 4"
  by (simp add: PutUint32_def)

lemma length_PutUint16 [simp]: "length (PutUint16 v) = 2"
  by (simp add: PutUint16_def)

lemma Uint32_PutUint32 [simp]: "Uint32 (PutUint32 v @ rest) = Ok v"
proof -
  have "push_bit 24 (ucast (ucast (drop_bit 24 v) :: byte) :: uint32) OR
      push_bit 16 (ucast (ucast (drop_bit 16 v) :: byte)) OR
      push_bit 8 (ucast (ucast (drop_bit 8 v) :: byte)) OR ucast (ucast v :: byte) = v"
    (is "?w = v")
  proof (rule bit_word_eqI)
    fix n assume "n < LENGTH(32)"
    then consider "n < 8" | "8 \<le> n" "n < 16" | "16 \<le> n" "n < 24" | "24 \<le> n" "n < 32"
      by fastforce
    then show "bit ?w n = bit v n"
      by cases (simp_all add: bit_simps less_diff_conv2)
  qed
  then show ?thesis
    by (simp add: PutUint32_def)
qed

text \<open>Four bytes and a 32-bit word determine each other.\<close>

lemma bit_byte_lt: "bit (x :: byte) n \<Longrightarrow> n < 8"
  using bit_imp_le_length[of x n] by simp

lemma PutUint32_Uint32:
  fixes a b c d :: byte
  shows "PutUint32 (push_bit 24 (ucast a) OR push_bit 16 (ucast b) OR push_bit 8 (ucast c) OR ucast d)
    = [a, b, c, d]"
  by (auto simp: PutUint32_def bit_simps intro!: bit_word_eqI) (drule bit_byte_lt, simp)+

lemma Uint32_iff: "length bs = 4 \<Longrightarrow> Uint32 bs = Ok v \<longleftrightarrow> bs = PutUint32 v"
proof
  assume "length bs = 4" and v: "Uint32 bs = Ok v"
  then obtain a b c d where "bs = [a, b, c, d]"
    by (auto simp: numeral_eq_Suc length_Suc_conv)
  with v show "bs = PutUint32 v" using PutUint32_Uint32[of a b c d] by auto
next
  assume "bs = PutUint32 v"
  then show "Uint32 bs = Ok v" using Uint32_PutUint32[of v "[]"] by simp
qed

lemma Uint16_PutUint16 [simp]: "Uint16 (PutUint16 v @ rest) = Ok v"
  by (auto simp: PutUint16_def bit_simps intro!: bit_word_eqI)

end
