(* ===== verification/Heap.thy ===== *)
theory Heap
  imports Prelude
begin

text \<open>
  Go slices that share memory. A heap holds byte arrays; a slice points into one of them.
  The writers need it: \<open>Malloc\<close> hands out a slice of the writer's buffer which the codecs
  fill in later, possibly after the writer has moved to a larger array.
\<close>

record heap =
  arr :: "nat \<Rightarrow> bytes"
  brk :: nat

record slice =
  s_arr :: nat
  s_off :: nat
  s_len :: nat
  s_cap :: nat

definition nil_slice :: slice where
  "nil_slice = \<lparr>s_arr = 0, s_off = 0, s_len = 0, s_cap = 0\<rparr>"

text \<open>\<^verbatim>\<open>make([]byte, n)\<close>: a fresh array of zeros.\<close>

definition make_slice :: "nat \<Rightarrow> 'z heap_scheme \<Rightarrow> slice \<times> 'z heap_scheme" where
  "make_slice n h =
     (\<lparr>s_arr = brk h, s_off = 0, s_len = n, s_cap = n\<rparr>,
      h\<lparr>arr := (arr h)(brk h := replicate n 0), brk := Suc (brk h)\<rparr>)"

text \<open>\<^verbatim>\<open>s[lo:hi]\<close>, which panics unless \<open>0 \<le> lo \<le> hi \<le> cap(s)\<close>.\<close>

definition reslice :: "slice \<Rightarrow> int \<Rightarrow> int \<Rightarrow> slice outcome" where
  "reslice s lo hi =
     (if 0 \<le> lo \<and> lo \<le> hi \<and> hi \<le> int (s_cap s)
      then Ok \<lparr>s_arr = s_arr s, s_off = s_off s + nat lo, s_len = nat (hi - lo),
               s_cap = s_cap s - nat lo\<rparr>
      else Panic SliceBounds)"

definition slice_get :: "'z heap_scheme \<Rightarrow> slice \<Rightarrow> bytes" where
  "slice_get h s = take (s_len s) (drop (s_off s) (arr h (s_arr s)))"

text \<open>\<^verbatim>\<open>copy(s, bs)\<close>.\<close>

definition slice_put :: "slice \<Rightarrow> bytes \<Rightarrow> 'z heap_scheme \<Rightarrow> 'z heap_scheme" where
  "slice_put s bs h =
     h\<lparr>arr := (arr h)(s_arr s := overwrite (s_off s) (take (s_len s) bs) (arr h (s_arr s)))\<rparr>"

text \<open>\<^verbatim>\<open>binary.BigEndian.PutUint\<close>\<open>N\<close>: panics when the destination is too short.\<close>

definition put_word :: "slice \<Rightarrow> bytes \<Rightarrow> 'z heap_scheme \<Rightarrow> unit outcome \<times> 'z heap_scheme" where
  "put_word s bs h =
     (if length bs \<le> s_len s then (Ok (), slice_put s bs h) else (Panic IndexOutOfRange, h))"

definition slice_valid :: "'z heap_scheme \<Rightarrow> slice \<Rightarrow> bool" where
  "slice_valid h s \<longleftrightarrow> s_arr s < brk h \<and> s_len s \<le> s_cap s \<and>
     s_off s + s_cap s \<le> length (arr h (s_arr s))"

lemma length_slice_get [simp]: "slice_valid h s \<Longrightarrow> length (slice_get h s) = s_len s"
  by (auto simp: slice_valid_def slice_get_def)

lemma slice_put_more [simp]: "brk (slice_put s bs h) = brk h"
  by (simp add: slice_put_def)

lemma slice_get_put:
  assumes "slice_valid h s" and "length bs \<le> s_len s"
  shows "slice_get (slice_put s bs h) s = bs @ drop (length bs) (slice_get h s)"
proof -
  have "s_len s \<le> length (arr h (s_arr s)) - s_off s"
    using assms(1) by (auto simp: slice_valid_def)
  with assms show ?thesis
    by (simp add: slice_get_def slice_put_def overwrite_def drop_take min_def add.commute) auto
qed

lemma slice_get_make: "slice_get (snd (make_slice n h)) (fst (make_slice n h)) = replicate n 0"
  by (simp add: make_slice_def slice_get_def)

lemma slice_valid_make [simp]: "slice_valid (snd (make_slice n h)) (fst (make_slice n h))"
  by (simp add: make_slice_def slice_valid_def)

lemma slice_valid_put [simp]:
  "slice_valid h s \<Longrightarrow> slice_valid (slice_put s bs h) t \<longleftrightarrow> slice_valid h t"
  by (auto simp: slice_valid_def slice_put_def)

lemma slice_get_put_other:
  "s_arr s \<noteq> s_arr t \<Longrightarrow> slice_get (slice_put s bs h) t = slice_get h t"
  by (simp add: slice_get_def slice_put_def)

text \<open>Writing through a sub-slice \<open>b[i:i+k]\<close> is seen through \<open>b\<close>.\<close>

definition subslice :: "slice \<Rightarrow> nat \<Rightarrow> nat \<Rightarrow> slice" where
  "subslice b i k = \<lparr>s_arr = s_arr b, s_off = s_off b + i, s_len = k, s_cap = s_cap b - i\<rparr>"

lemma reslice_Ok:
  "int i + int k \<le> int (s_cap b) \<Longrightarrow> reslice b (int i) (int i + int k) = Ok (subslice b i k)"
  by (simp add: reslice_def subslice_def)

lemma slice_valid_subslice [simp]:
  "slice_valid h b \<Longrightarrow> i + k \<le> s_cap b \<Longrightarrow> slice_valid h (subslice b i k)"
  by (auto simp: slice_valid_def subslice_def)

lemma slice_get_subslice:
  "i + k \<le> s_len b \<Longrightarrow> slice_get h (subslice b i k) = take k (drop i (slice_get h b))"
  by (simp add: slice_get_def subslice_def drop_take min_def add.commute)

lemma slice_get_put_sub:
  assumes "slice_valid h b" and "i + length bs \<le> s_len b" and "length bs \<le> k"
  shows "slice_get (slice_put (subslice b i k) bs h) b
    = take i (slice_get h b) @ bs @ drop (i + length bs) (slice_get h b)"
proof -
  let ?a = "arr h (s_arr b)" and ?o = "s_off b" and ?n = "length bs"
  have le: "?o + s_len b \<le> length ?a" using assms(1) by (auto simp: slice_valid_def)
  have li: "length (take i (drop ?o ?a)) = i" using le assms(2) by simp
  have "overwrite (?o + i) bs ?a = take (?o + i) ?a @ bs @ drop (?o + i + ?n) ?a"
    using le assms(2) by (simp add: overwrite_def)
  also have "drop ?o \<dots> = take i (drop ?o ?a) @ bs @ drop (?o + i + ?n) ?a"
    using le assms(2) by (simp add: drop_take)
  also have "take (s_len b) \<dots>
      = take i (drop ?o ?a) @ bs @ take (s_len b - (i + ?n)) (drop (?o + i + ?n) ?a)"
    using assms(2) by (simp only: take_append li) (simp add: diff_diff_left)
  also have "take (s_len b - (i + ?n)) (drop (?o + i + ?n) ?a)
      = drop (i + ?n) (take (s_len b) (drop ?o ?a))"
    by (simp only: drop_take drop_drop) (simp add: add.commute add.left_commute)
  also have "take i (drop ?o ?a) = take i (take (s_len b) (drop ?o ?a))"
    using assms(2) by simp
  finally show ?thesis
    using assms(3) by (simp add: slice_get_def slice_put_def subslice_def)
qed

text \<open>Consecutive writes through sub-slices are one write.\<close>

lemma slice_put_append:
  assumes "slice_valid h b" and "length bs + length cs \<le> s_len b" and "length cs \<le> k"
  shows "slice_put (subslice b (length bs) k) cs (slice_put b bs h) = slice_put b (bs @ cs) h"
proof -
  have "s_off b + length bs + length cs \<le> length (arr h (s_arr b))"
    using assms(1,2) by (auto simp: slice_valid_def)
  with assms(2,3) show ?thesis
    by (simp add: slice_put_def subslice_def overwrite_append)
qed

lemma slice_put_nil: "slice_valid h b \<Longrightarrow> slice_put b [] h = h"
  by (simp add: slice_put_def overwrite_def)

end
