(* ===== verification/Reader.thy ===== *)
theory Reader
  imports Prelude
begin

text \<open>
  The readers of \<^verbatim>\<open>pkg/io/reader\<close>: \<open>bufferReader\<close> (\<^verbatim>\<open>buffer.go\<close>), which fills a growing
  buffer from a connection, and \<open>limitReader\<close> (\<^verbatim>\<open>limit.go\<close>), which hands out at most a
  fixed number of bytes of another reader. A reader is abstracted to the bytes it still
  has to deliver; the interface \<open>byte_reader\<close> states what every operation does to them.
\<close>

section \<open>The source of the bytes\<close>

text \<open>
  What the code uses of \<^verbatim>\<open>net.Conn\<close> and \<^verbatim>\<open>io.Reader\<close>. The peer's bytes arrive in chunks, one
  or more \<open>Read\<close> calls per chunk; when they are used up, \<open>Read\<close> reports \<open>fin\<close>.
\<close>

record source =
  chunks :: "bytes list"
  fin :: go_error

abbreviation flat :: "source \<Rightarrow> bytes" where
  "flat s \<equiv> concat (chunks s)"

definition source_Read :: "source \<Rightarrow> nat \<Rightarrow> (bytes \<times> go_error option) \<times> source" where
  "source_Read s n =
     (if n = 0 then (([], None), s)
      else case chunks s of
        [] \<Rightarrow> (([], Some (fin s)), s)
      | c # cs \<Rightarrow> ((take n c, None), s\<lparr>chunks := if length c \<le> n then cs else drop n c # cs\<rparr>))"

text \<open>\<^verbatim>\<open>io.ReadFull\<close>: read until the destination is full or the source reports an error.\<close>

function ReadFull_loop :: "source \<Rightarrow> nat \<Rightarrow> bytes \<Rightarrow> bytes \<times> go_error option \<times> source" where
  "ReadFull_loop s n got =
     (if n \<le> length got then (got, None, s)
      else case source_Read s (n - length got) of
        ((bs, None), s') \<Rightarrow> ReadFull_loop s' n (got @ bs)
      | ((bs, Some e), s') \<Rightarrow> (got @ bs, Some e, s'))"
  by pat_completeness auto
termination
  by (relation "measure (\<lambda>(s, n, got). sum_list (map (Suc \<circ> length) (chunks s)))")
    (auto simp: source_Read_def split: if_splits list.splits)

declare ReadFull_loop.simps [simp del]

definition ReadFull :: "source \<Rightarrow> nat \<Rightarrow> bytes \<times> go_error option \<times> source" where
  "ReadFull s n =
     (case ReadFull_loop s n [] of
        (got, None, s') \<Rightarrow> (got, None, s')
      | (got, Some e, s') \<Rightarrow>
          (got, Some (if got \<noteq> [] \<and> e = EOF then ErrUnexpectedEOF else e), s'))"

definition short_error :: "source \<Rightarrow> go_error" where
  "short_error s = (if flat s \<noteq> [] \<and> fin s = EOF then ErrUnexpectedEOF else fin s)"

lemma ReadFull_loop_enough:
  "n - length got \<le> length (flat s) \<Longrightarrow>
   \<exists>s'. ReadFull_loop s n got = (got @ take (n - length got) (flat s), None, s')
     \<and> flat s' = drop (n - length got) (flat s) \<and> fin s' = fin s"
proof (induction s n got rule: ReadFull_loop.induct)
  case (1 s n got)
  show ?case
  proof (cases "n \<le> length got")
    case True
    then show ?thesis by (simp add: ReadFull_loop.simps)
  next
    case False
    with "1.prems" obtain c cs where ch: "chunks s = c # cs"
      by (cases "chunks s") auto
    define m where "m = n - length got"
    define s' where "s' = s\<lparr>chunks := if length c \<le> m then cs else drop m c # cs\<rparr>"
    have rd: "source_Read s m = ((take m c, None), s')"
      using False ch by (simp add: source_Read_def s'_def m_def)
    have fl: "flat s' = drop (length (take m c)) (flat s)" "fin s' = fin s"
      by (simp_all add: s'_def ch)
    have "n - length (got @ take m c) \<le> length (flat s')"
      using "1.prems" False ch by (simp add: fl m_def)
    from "1.IH"[OF False, of "(take m c, None)" s' "take m c" None] this rd
    have "\<exists>s''. ReadFull_loop s' n (got @ take m c)
        = (got @ take m (flat s), None, s'') \<and> flat s'' = drop m (flat s) \<and> fin s'' = fin s"
      using False fl ch by (fastforce simp: m_def min_def split: if_splits)
    with False rd show ?thesis
      by (simp add: ReadFull_loop.simps[of s n got] m_def)
  qed
qed

lemma ReadFull_loop_short:
  "length (flat s) < n - length got \<Longrightarrow>
   ReadFull_loop s n got = (got @ flat s, Some (fin s), s\<lparr>chunks := []\<rparr>)"
proof (induction s n got rule: ReadFull_loop.induct)
  case (1 s n got)
  then have lt: "\<not> n \<le> length got" by simp
  show ?case
  proof (cases "chunks s")
    case Nil
    then have "s\<lparr>chunks := []\<rparr> = s" by (cases s) simp
    with Nil lt show ?thesis
      by (simp add: ReadFull_loop.simps[of s n got] source_Read_def)
  next
    case (Cons c cs)
    define s' where "s' = s\<lparr>chunks := cs\<rparr>"
    have rd: "source_Read s (n - length got) = ((c, None), s')"
      using "1.prems" Cons lt by (simp add: source_Read_def s'_def)
    have "length (flat s') < n - length (got @ c)"
      using "1.prems" Cons by (simp add: s'_def)
    with "1.IH"[OF lt, of "(c, None)" s' c None] rd
    have "ReadFull_loop s' n (got @ c) = ((got @ c) @ flat s', Some (fin s'), s'\<lparr>chunks := []\<rparr>)"
      by simp
    with lt rd Cons show ?thesis
      by (simp add: ReadFull_loop.simps[of s n got] s'_def)
  qed
qed

lemma ReadFull_enough:
  assumes "n \<le> length (flat s)"
  obtains s' where "ReadFull s n = (take n (flat s), None, s')"
    and "flat s' = drop n (flat s)" and "fin s' = fin s"
  using ReadFull_loop_enough[of n "[]" s] assms by (auto simp: ReadFull_def)

lemma ReadFull_short:
  "length (flat s) < n \<Longrightarrow>
   ReadFull s n = (flat s, Some (short_error s), s\<lparr>chunks := []\<rparr>)"
  using ReadFull_loop_short[of s n "[]"] by (auto simp: ReadFull_def short_error_def)

section \<open>Growing a buffer by doubling\<close>

text \<open>
  The loop \<^verbatim>\<open>for capacity < min { capacity <<= 1 }\<close> of \<^verbatim>\<open>growth\<close> and \<^verbatim>\<open>checkWriteable\<close>. It does not
  end when the capacity is 0, which is the value \<open>None\<close>.
\<close>

partial_function (option) double_until :: "int \<Rightarrow> int \<Rightarrow> int option" where
  "double_until capacity mn =
     (if capacity < mn then double_until (2 * capacity) mn else Some capacity)"

lemma double_until_done: "m \<le> c \<Longrightarrow> double_until c m = Some c"
  by (simp add: double_until.simps)

lemma double_until_Some:
  assumes "0 < c"
  shows "\<exists>c'. double_until c m = Some c' \<and> m \<le> c' \<and> c \<le> c' \<and> (c' = c \<or> c' < 2 * m)"
  using assms
proof (induction "nat (m - c)" arbitrary: c rule: less_induct)
  case less
  show ?case
  proof (cases "c < m")
    case True
    with less.prems have "nat (m - 2 * c) < nat (m - c)" by simp
    from less.hyps[OF this] less.prems obtain c' where
      "double_until (2 * c) m = Some c'" "m \<le> c'" "2 * c \<le> c'" "c' = 2 * c \<or> c' < 2 * m"
      by auto
    with True less.prems show ?thesis
      by (auto simp: double_until.simps[of c m])
  next
    case False
    then show ?thesis by (simp add: double_until_done)
  qed
qed

lemma double_until_hang: "0 < m \<Longrightarrow> double_until 0 m = None"
proof (rule ccontr)
  assume m: "0 < m" and "double_until 0 m \<noteq> None"
  then obtain r where ret: "double_until 0 m = Some r" by blast
  have "0 = (0::int) \<longrightarrow> \<not> 0 < m"
  proof (rule double_until.raw_induct [where P = "\<lambda>c m r. c = 0 \<longrightarrow> \<not> 0 < m", OF _ ret])
    fix f :: "int \<Rightarrow> int \<Rightarrow> int option" and c m r :: int
    assume IH: "\<And>c m r. f c m = Some r \<Longrightarrow> c = 0 \<longrightarrow> \<not> 0 < m"
      and eq: "(if c < m then f (2 * c) m else Some c) = Some r"
    show "c = 0 \<longrightarrow> \<not> 0 < m"
      using IH[of "2 * c" m r] eq by (auto split: if_splits)
  qed
  with m show False by simp
qed

section \<open>bufferReader (buffer.go)\<close>

text \<open>
  \<open>r_buff\<close> is the backing array of \<^verbatim>\<open>r.buff\<close> from the slice's start, so \<open>cap(r.buff)\<close> is its
  length; \<open>r_len\<close> is \<open>len(r.buff)\<close>. The slices that \<open>Next\<close> and \<open>Peek\<close> return are never
  written again (later reads fill the buffer behind \<open>writeIndex\<close> or a new array), so the
  model returns their contents.
\<close>

record bufferReader =
  r_decorator :: "source option"
  r_timeout :: int
  r_buff :: bytes
  r_len :: nat
  r_growable :: bool
  readIndex :: int
  writeIndex :: int

text \<open>What \<^verbatim>\<open>bufferReaderPool.New\<close> makes: the zero value.\<close>

definition bufferReaderPool_New :: bufferReader where
  "bufferReaderPool_New =
     \<lparr>r_decorator = None, r_timeout = 0, r_buff = [], r_len = 0, r_growable = False,
      readIndex = 0, writeIndex = 0\<rparr>"

text \<open>The constructors take the object that the pool hands out.\<close>

definition NewBufferReader :: "bufferReader \<Rightarrow> source \<Rightarrow> bufferReader" where
  "NewBufferReader r decorator =
     r\<lparr>r_decorator := Some decorator, r_buff := replicate 256 0, r_len := 256, r_growable := True\<rparr>"

definition NewBufferReaderWithBuf :: "bufferReader \<Rightarrow> source \<Rightarrow> bytes \<Rightarrow> bufferReader" where
  "NewBufferReaderWithBuf r decorator buf =
     r\<lparr>r_decorator := Some decorator, r_buff := buf, r_len := length buf, r_growable := False\<rparr>"

definition bufferReader_growth :: "bufferReader \<Rightarrow> int \<Rightarrow> unit outcome \<times> bufferReader" where
  "bufferReader_growth r want =
     (let l = int (r_len r);
          r1 = (if want \<le> int (length (r_buff r)) - l then r\<lparr>r_len := nat (l + want)\<rparr> else r);
          mn = writeIndex r1 + want
      in if want \<le> int (length (r_buff r)) - l \<and> l + want < 0 then (Panic SliceBounds, r)
         else case double_until (int (length (r_buff r1))) mn of
           None \<Rightarrow> (Hang, r1)
         | Some capacity \<Rightarrow>
             (Ok (), r1\<lparr>r_buff := overwrite 0 (take (r_len r1) (r_buff r1)) (replicate (nat capacity) 0),
                        r_len := nat capacity\<rparr>))"

text \<open>
  \<open>ensureReadable n buff\<close>: \<open>into\<close> says whether the destination \<^verbatim>\<open>buff\<close> is given; the result
  is what it holds afterwards. \<open>Read\<close> passes \<open>n = len(buff)\<close>.
\<close>

definition bufferReader_fill :: "bufferReader \<Rightarrow> int \<Rightarrow> bool \<Rightarrow> bytes outcome \<times> bufferReader" where
  "bufferReader_fill r want into =
     (let readable = writeIndex r - readIndex r
      in if into then
           and_then ((if 0 < readable
                      then slice_expr (r_buff r) (readIndex r) (readIndex r + readable) else Ok []), r)
             (\<lambda>front r. if readable < 0 then (Panic SliceBounds, r)
               else case r_decorator r of
                 None \<Rightarrow> (Panic NilDereference, r)
               | Some src \<Rightarrow>
                   (case ReadFull src (nat want) of
                      (bs, None, src') \<Rightarrow>
                        (Ok (front @ bs), r\<lparr>r_decorator := Some src', writeIndex := writeIndex r + want\<rparr>)
                    | (bs, Some e, src') \<Rightarrow> (Err e, r\<lparr>r_decorator := Some src'\<rparr>)))
         else
           and_then (slice_expr (r_buff r) (writeIndex r) (writeIndex r + want), r)
             (\<lambda>_ r. case r_decorator r of
                 None \<Rightarrow> (Panic NilDereference, r)
               | Some src \<Rightarrow>
                   (case ReadFull src (nat want) of
                      (bs, None, src') \<Rightarrow>
                        (Ok [], r\<lparr>r_decorator := Some src',
                                  r_buff := overwrite (nat (writeIndex r)) bs (r_buff r),
                                  writeIndex := writeIndex r + want\<rparr>)
                    | (bs, Some e, src') \<Rightarrow>
                        (Err e, r\<lparr>r_decorator := Some src',
                                  r_buff := overwrite (nat (writeIndex r)) bs (r_buff r)\<rparr>))))"

definition bufferReader_ensureReadable ::
    "bufferReader \<Rightarrow> int \<Rightarrow> bool \<Rightarrow> bytes outcome \<times> bufferReader" where
  "bufferReader_ensureReadable r n into =
     (let readable = writeIndex r - readIndex r
      in if n \<le> readable then
           ((if into then slice_expr (r_buff r) (readIndex r) (readIndex r + n) else Ok []), r)
         else
           let want = n - readable;
               remain = int (r_len r) - writeIndex r
           in if \<not> r_growable r \<and> remain < want
              then (Err (ErrGivenBufferNotEnough remain want), r)
              else and_then
                (if remain < want
                 then bufferReader_growth r (want + writeIndex r - int (r_len r)) else (Ok (), r))
                (\<lambda>_ r. bufferReader_fill r want into))"

definition bufferReader_Read :: "bufferReader \<Rightarrow> nat \<Rightarrow> bytes outcome \<times> bufferReader" where
  "bufferReader_Read r n =
     (if readIndex r = writeIndex r then
        (case r_decorator r of
           None \<Rightarrow> (Panic NilDereference, r)
         | Some src \<Rightarrow>
             (case source_Read src n of
                ((bs, None), src') \<Rightarrow>
                  (Ok bs, r\<lparr>r_decorator := Some src', readIndex := readIndex r + int (length bs),
                            writeIndex := writeIndex r + int (length bs)\<rparr>)
              | ((bs, Some e), src') \<Rightarrow> (Err e, r\<lparr>r_decorator := Some src'\<rparr>)))
      else and_then (bufferReader_ensureReadable r (int n) True)
             (\<lambda>bs r. (Ok bs, r\<lparr>readIndex := readIndex r + int n\<rparr>)))"

definition bufferReader_Peek :: "bufferReader \<Rightarrow> int \<Rightarrow> bytes outcome \<times> bufferReader" where
  "bufferReader_Peek r n =
     (if n \<le> 0 then (Ok [], r)
      else and_then (bufferReader_ensureReadable r n False)
             (\<lambda>_ r. (slice_expr (r_buff r) (readIndex r) (readIndex r + n), r)))"

definition bufferReader_Next :: "bufferReader \<Rightarrow> int \<Rightarrow> bytes outcome \<times> bufferReader" where
  "bufferReader_Next r n =
     and_then (bufferReader_Peek r n) (\<lambda>buf r. (Ok buf, r\<lparr>readIndex := readIndex r + n\<rparr>))"

definition bufferReader_Skip :: "bufferReader \<Rightarrow> int \<Rightarrow> unit outcome \<times> bufferReader" where
  "bufferReader_Skip r n =
     and_then (bufferReader_Peek r n) (\<lambda>_ r. (Ok (), r\<lparr>readIndex := readIndex r + n\<rparr>))"

definition bufferReader_Length :: "bufferReader \<Rightarrow> int" where
  "bufferReader_Length r = writeIndex r"

text \<open>\<open>Release\<close> clears the reader and puts it back into the pool.\<close>

definition bufferReader_Release :: "bufferReader \<Rightarrow> bufferReader" where
  "bufferReader_Release r =
     r\<lparr>r_decorator := None, r_buff := [], r_len := 0, readIndex := 0, writeIndex := 0\<rparr>"

subsection \<open>Invariant and abstraction\<close>

text \<open>
  The indices are ordered, the buffer is exactly its backing array, and unread buffered
  bytes lie inside it. (\<open>Read\<close> on an empty buffer moves both indices past data it never
  stores, so \<open>writeIndex\<close> may exceed the buffer when the two indices are equal.)
\<close>

definition bufferReader_inv :: "bufferReader \<Rightarrow> bool" where
  "bufferReader_inv r \<longleftrightarrow>
     r_decorator r \<noteq> None \<and> 0 \<le> readIndex r \<and> readIndex r \<le> writeIndex r \<and>
     r_len r = length (r_buff r) \<and> (r_growable r \<longrightarrow> 0 < r_len r) \<and>
     (readIndex r = writeIndex r \<or> writeIndex r \<le> int (r_len r))"

definition buffered :: "bufferReader \<Rightarrow> bytes" where
  "buffered r = take (nat (writeIndex r - readIndex r)) (drop (nat (readIndex r)) (r_buff r))"

definition source_bytes :: "bufferReader \<Rightarrow> bytes" where
  "source_bytes r = (case r_decorator r of None \<Rightarrow> [] | Some s \<Rightarrow> flat s)"

definition bufferReader_pend :: "bufferReader \<Rightarrow> bytes" where
  "bufferReader_pend r = buffered r @ source_bytes r"

text \<open>\<open>n\<close> more bytes fit behind \<open>readIndex\<close> in the buffer as it is.\<close>

definition bufferReader_room :: "bufferReader \<Rightarrow> nat \<Rightarrow> bool" where
  "bufferReader_room r n \<longleftrightarrow> readIndex r + int n \<le> int (r_len r)"

text \<open>The capacity that \<open>growth\<close> gives the buffer when \<open>n\<close> bytes do not fit.\<close>

definition bufferReader_grown :: "bufferReader \<Rightarrow> nat \<Rightarrow> int option" where
  "bufferReader_grown r n =
     double_until (int (r_len r)) (writeIndex r + (readIndex r + int n - int (r_len r)))"

text \<open>\<open>n\<close> bytes fit, where necessary after \<open>growth\<close>.\<close>

definition bufferReader_fits :: "bufferReader \<Rightarrow> nat \<Rightarrow> bool" where
  "bufferReader_fits r n \<longleftrightarrow> n = 0 \<or> bufferReader_room r n \<or>
     r_growable r \<and> (case bufferReader_grown r n of
        None \<Rightarrow> False | Some c \<Rightarrow> readIndex r + int n \<le> c)"

lemma length_buffered:
  "bufferReader_inv r \<Longrightarrow> int (length (buffered r)) = writeIndex r - readIndex r"
  by (auto simp: bufferReader_inv_def buffered_def)

lemma growth_ok:
  assumes "bufferReader_inv r" and "r_growable r" and "0 < want"
    and "double_until (int (r_len r)) (writeIndex r + want) = Some c"
  defines "r' \<equiv> r\<lparr>r_buff := overwrite 0 (r_buff r) (replicate (nat c) 0), r_len := nat c\<rparr>"
  shows "bufferReader_growth r want = (Ok (), r')"
    and "bufferReader_inv r'" and "buffered r' = buffered r" and "int (r_len r) \<le> c"
proof -
  from assms(1,2) have pos: "0 < int (r_len r)" and len: "r_len r = length (r_buff r)"
    by (auto simp: bufferReader_inv_def)
  from double_until_Some[OF pos, of "writeIndex r + want"] assms(4)
  show c: "int (r_len r) \<le> c" by auto
  show "bufferReader_growth r want = (Ok (), r')"
    using assms(3,4) len by (simp add: bufferReader_growth_def r'_def)
  from c len have ow: "overwrite 0 (r_buff r) (replicate (nat c) 0)
      = r_buff r @ replicate (nat c - length (r_buff r)) 0"
    by (simp add: overwrite_def)
  show "bufferReader_inv r'" "buffered r' = buffered r"
    using assms(1) c len less_le_trans[OF pos c]
    by (auto simp: bufferReader_inv_def buffered_def r'_def ow)
qed

lemma fill_ok:
  assumes inv: "bufferReader_inv r" and want: "0 \<le> want"
    and room: "writeIndex r + want \<le> int (r_len r)"
    and src: "r_decorator r = Some src" and enough: "nat want \<le> length (flat src)"
  obtains r' where "bufferReader_fill r want False = (Ok [], r')"
    and "bufferReader_inv r'" and "bufferReader_pend r' = bufferReader_pend r"
    and "readIndex r' = readIndex r" and "writeIndex r' = writeIndex r + want"
    and "r_len r' = r_len r" and "r_growable r' = r_growable r"
proof -
  from enough obtain src' where rf: "ReadFull src (nat want) = (take (nat want) (flat src), None, src')"
      "flat src' = drop (nat want) (flat src)"
    by (rule ReadFull_enough)
  let ?bs = "take (nat want) (flat src)" and ?w = "nat (writeIndex r)"
  define r' where "r' = r\<lparr>r_decorator := Some src', r_buff := overwrite ?w ?bs (r_buff r),
      writeIndex := writeIndex r + want\<rparr>"
  from inv have ri: "0 \<le> readIndex r" "readIndex r \<le> writeIndex r" "r_len r = length (r_buff r)"
    by (simp_all add: bufferReader_inv_def)
  from ri room want have sl: "slice_expr (r_buff r) (writeIndex r) (writeIndex r + want)
      = Ok (take (nat want) (drop ?w (r_buff r)))"
    by (simp add: slice_expr_def)
  have lb: "length ?bs = nat want" using enough by simp
  have wl: "?w + length ?bs \<le> length (r_buff r)"
    using ri room want enough by simp
  have tk: "take (nat (writeIndex r + want)) (overwrite ?w ?bs (r_buff r)) = take ?w (r_buff r) @ ?bs"
    using take_after_overwrite[OF wl] ri want lb by (simp add: nat_add_distrib)
  have "take (nat (writeIndex r + want - readIndex r))
      (drop (nat (readIndex r)) (overwrite ?w ?bs (r_buff r)))
     = drop (nat (readIndex r)) (take (nat (writeIndex r + want)) (overwrite ?w ?bs (r_buff r)))"
    using ri want by (simp add: drop_take nat_diff_distrib' nat_add_distrib)
  also have "\<dots> = buffered r @ ?bs"
    using ri room want by (simp add: tk buffered_def drop_take nat_diff_distrib')
  finally have "buffered r' = buffered r @ ?bs"
    by (simp add: buffered_def r'_def)
  then have "bufferReader_pend r' = bufferReader_pend r"
    by (simp add: bufferReader_pend_def source_bytes_def src r'_def rf)
  moreover have "bufferReader_inv r'"
    using inv ri room want wl by (auto simp: bufferReader_inv_def r'_def)
  moreover have "bufferReader_fill r want False = (Ok [], r')"
    by (simp add: bufferReader_fill_def sl src rf(1) r'_def)
  ultimately show thesis
    by (auto intro!: that simp: r'_def)
qed

lemma ensureReadable_ok:
  assumes inv: "bufferReader_inv r" and pos: "0 < n" and fits: "bufferReader_fits r n"
    and enough: "n \<le> length (bufferReader_pend r)"
  obtains r' where "bufferReader_ensureReadable r (int n) False = (Ok [], r')"
    and "bufferReader_inv r'" and "bufferReader_pend r' = bufferReader_pend r"
    and "readIndex r' = readIndex r" and "r_growable r' = r_growable r"
    and "readIndex r + int n \<le> writeIndex r'"
    and "writeIndex r' = max (writeIndex r) (readIndex r + int n)"
    and "r_len r \<le> r_len r'" and "bufferReader_room r n \<Longrightarrow> r_len r' = r_len r"
proof (cases "int n \<le> writeIndex r - readIndex r")
  case True
  then show thesis
    using inv pos by (intro that[of r]) (auto simp: bufferReader_ensureReadable_def)
next
  case False
  let ?want = "int n - (writeIndex r - readIndex r)"
  from inv obtain src where src: "r_decorator r = Some src"
    by (auto simp: bufferReader_inv_def)
  from enough False length_buffered[OF inv] have en: "nat ?want \<le> length (flat src)"
    by (simp add: bufferReader_pend_def source_bytes_def src)
  have want: "0 \<le> ?want" using False by simp
  show thesis
  proof (cases "bufferReader_room r n")
    case True
    then have "writeIndex r + ?want \<le> int (r_len r)"
      by (simp add: bufferReader_room_def)
    from fill_ok[OF inv want this src en] obtain r'
      where "bufferReader_fill r ?want False = (Ok [], r')" "bufferReader_inv r'"
        "bufferReader_pend r' = bufferReader_pend r" "readIndex r' = readIndex r"
        "writeIndex r' = writeIndex r + ?want" "r_len r' = r_len r" "r_growable r' = r_growable r" .
    with True False show thesis
      by (intro that[of r']) (auto simp: bufferReader_ensureReadable_def bufferReader_room_def Let_def)
  next
    case no_room: False
    with fits pos obtain c where g: "r_growable r" "bufferReader_grown r n = Some c"
        "readIndex r + int n \<le> c"
      by (auto simp: bufferReader_fits_def split: option.splits)
    let ?d = "?want + writeIndex r - int (r_len r)"
    have d: "0 < ?d" using no_room by (simp add: bufferReader_room_def)
    from g(2) have du: "double_until (int (r_len r)) (writeIndex r + ?d) = Some c"
      by (simp add: bufferReader_grown_def algebra_simps)
    then obtain r1 where r1: "bufferReader_growth r ?d = (Ok (), r1)" "bufferReader_inv r1"
        "buffered r1 = buffered r" "int (r_len r) \<le> c" "r_len r1 = nat c"
        "readIndex r1 = readIndex r" "writeIndex r1 = writeIndex r" "r_decorator r1 = Some src"
        "r_growable r1 = r_growable r"
      using growth_ok[OF inv g(1) d du] src by simp
    from r1 g(3) have "writeIndex r1 + ?want \<le> int (r_len r1)"
      by simp
    from fill_ok[OF r1(2) want this r1(8) en] obtain r'
      where "bufferReader_fill r1 ?want False = (Ok [], r')"
        "bufferReader_inv r'" "bufferReader_pend r' = bufferReader_pend r1"
        "readIndex r' = readIndex r1" "writeIndex r' = writeIndex r1 + ?want" "r_len r' = r_len r1"
        "r_growable r' = r_growable r1" .
    moreover have "bufferReader_pend r1 = bufferReader_pend r"
      by (simp add: bufferReader_pend_def source_bytes_def r1 src)
    ultimately show thesis
      using no_room False r1 g(1)
      by (intro that[of r'])
        (auto simp: bufferReader_ensureReadable_def bufferReader_room_def Let_def)
  qed
qed

subsection \<open>What the operations do\<close>

lemma bufferReader_Peek_ok:
  assumes inv: "bufferReader_inv r" and fits: "bufferReader_fits r n"
    and enough: "n \<le> length (bufferReader_pend r)"
  obtains r' where "bufferReader_Peek r (int n) = (Ok (take n (bufferReader_pend r)), r')"
    and "bufferReader_inv r'" and "bufferReader_pend r' = bufferReader_pend r"
    and "readIndex r' = readIndex r" and "r_growable r' = r_growable r"
    and "readIndex r + int n \<le> writeIndex r'"
    and "writeIndex r' = max (writeIndex r) (readIndex r + int n)"
    and "r_len r \<le> r_len r'" and "bufferReader_room r n \<Longrightarrow> r_len r' = r_len r"
proof (cases "n = 0")
  case True
  with inv show thesis
    by (intro that[of r]) (auto simp: bufferReader_Peek_def bufferReader_inv_def)
next
  case False
  then obtain r' where r': "bufferReader_ensureReadable r (int n) False = (Ok [], r')"
      "bufferReader_inv r'" "bufferReader_pend r' = bufferReader_pend r"
      "readIndex r' = readIndex r" "r_growable r' = r_growable r"
      "readIndex r + int n \<le> writeIndex r'"
      "writeIndex r' = max (writeIndex r) (readIndex r + int n)"
      "r_len r \<le> r_len r'" "bufferReader_room r n \<Longrightarrow> r_len r' = r_len r"
    using ensureReadable_ok[OF inv _ fits enough] by blast
  have b: "0 \<le> readIndex r'" "writeIndex r' \<le> int (length (r_buff r'))"
    using r'(2,4,6) False by (auto simp: bufferReader_inv_def)
  then have "slice_expr (r_buff r') (readIndex r') (readIndex r' + int n)
      = Ok (take n (drop (nat (readIndex r')) (r_buff r')))"
    using r'(4,6) by (simp add: slice_expr_def)
  also have "take n (drop (nat (readIndex r')) (r_buff r')) = take n (bufferReader_pend r')"
    using r'(4,6) b by (simp add: bufferReader_pend_def buffered_def)
  finally show thesis
    using r' False by (intro that[of r']) (auto simp: bufferReader_Peek_def)
qed

text \<open>Moving \<open>readIndex\<close> over bytes that are in the buffer drops them.\<close>

lemma advance_ok:
  assumes "bufferReader_inv r" and "readIndex r + int n \<le> writeIndex r"
  defines "r' \<equiv> r\<lparr>readIndex := readIndex r + int n\<rparr>"
  shows "bufferReader_inv r'" and "bufferReader_pend r' = drop n (bufferReader_pend r)"
proof -
  show "bufferReader_inv r'"
    using assms by (auto simp: bufferReader_inv_def)
  have "nat (readIndex r + int n) = nat (readIndex r) + n"
    using assms(1) by (simp add: bufferReader_inv_def nat_add_distrib)
  then have "buffered r' = drop n (buffered r)"
    using assms by (simp add: buffered_def drop_take bufferReader_inv_def add.commute
        nat_diff_distrib' algebra_simps)
  moreover have "n \<le> length (buffered r)"
    using assms(2) length_buffered[OF assms(1)] by simp
  ultimately show "bufferReader_pend r' = drop n (bufferReader_pend r)"
    by (simp add: bufferReader_pend_def source_bytes_def r'_def)
qed

lemma bufferReader_Next_ok:
  assumes inv: "bufferReader_inv r" and fits: "bufferReader_fits r n"
    and enough: "n \<le> length (bufferReader_pend r)"
  obtains r' where "bufferReader_Next r (int n) = (Ok (take n (bufferReader_pend r)), r')"
    and "bufferReader_Skip r (int n) = (Ok (), r')"
    and "bufferReader_inv r'" and "bufferReader_pend r' = drop n (bufferReader_pend r)"
    and "readIndex r' = readIndex r + int n" and "r_growable r' = r_growable r"
    and "writeIndex r' = max (writeIndex r) (readIndex r + int n)"
    and "r_len r \<le> r_len r'" and "bufferReader_room r n \<Longrightarrow> r_len r' = r_len r"
proof -
  obtain r1 where r1: "bufferReader_Peek r (int n) = (Ok (take n (bufferReader_pend r)), r1)"
      "bufferReader_inv r1" "bufferReader_pend r1 = bufferReader_pend r"
      "readIndex r1 = readIndex r" "r_growable r1 = r_growable r"
      "readIndex r + int n \<le> writeIndex r1"
      "writeIndex r1 = max (writeIndex r) (readIndex r + int n)"
      "r_len r \<le> r_len r1" "bufferReader_room r n \<Longrightarrow> r_len r1 = r_len r"
    using bufferReader_Peek_ok[OF inv fits enough] by blast
  then have "readIndex r1 + int n \<le> writeIndex r1" by simp
  from advance_ok[OF r1(2) this] r1 show thesis
    by (intro that[of "r1\<lparr>readIndex := readIndex r1 + int n\<rparr>"])
      (auto simp: bufferReader_Next_def bufferReader_Skip_def)
qed

text \<open>When the source ends early, the error of the source comes back.\<close>

lemma fill_short:
  assumes "r_decorator r = Some src" and "length (flat src) < nat want"
    and "0 \<le> writeIndex r" and "writeIndex r + want \<le> int (length (r_buff r))"
  shows "\<exists>r'. bufferReader_fill r want False = (Err (short_error src), r')"
  using assms by (simp add: bufferReader_fill_def slice_expr_def ReadFull_short)

lemma bufferReader_Peek_short:
  assumes inv: "bufferReader_inv r" and fits: "bufferReader_fits r n"
    and short: "length (bufferReader_pend r) < n" and src: "r_decorator r = Some src"
  shows "\<exists>r'. bufferReader_Peek r (int n) = (Err (short_error src), r')"
proof -
  let ?want = "int n - (writeIndex r - readIndex r)"
  have lt: "\<not> int n \<le> writeIndex r - readIndex r"
    using short length_buffered[OF inv] by (simp add: bufferReader_pend_def)
  have sh: "length (flat src) < nat ?want"
    using short length_buffered[OF inv] by (simp add: bufferReader_pend_def source_bytes_def src)
  have idx: "0 \<le> writeIndex r" "r_len r = length (r_buff r)" "0 < n"
    using inv short by (auto simp: bufferReader_inv_def)
  show ?thesis
  proof (cases "bufferReader_room r n")
    case True
    with fill_short[OF src sh idx(1)] idx lt show ?thesis
      by (auto simp: bufferReader_Peek_def bufferReader_ensureReadable_def bufferReader_room_def Let_def)
  next
    case False
    with fits idx obtain c where g: "r_growable r" "bufferReader_grown r n = Some c"
        "readIndex r + int n \<le> c"
      by (auto simp: bufferReader_fits_def split: option.splits)
    let ?d = "?want + writeIndex r - int (r_len r)"
    have d: "0 < ?d" using False by (simp add: bufferReader_room_def)
    from g(2) have du: "double_until (int (r_len r)) (writeIndex r + ?d) = Some c"
      by (simp add: bufferReader_grown_def algebra_simps)
    note gr = growth_ok[OF inv g(1) d du]
    let ?r1 = "r\<lparr>r_buff := overwrite 0 (r_buff r) (replicate (nat c) 0), r_len := nat c\<rparr>"
    have "\<exists>r'. bufferReader_fill ?r1 ?want False = (Err (short_error src), r')"
      using idx g(3) gr(4) src sh by (intro fill_short) auto
    with gr(1) False g(1) lt idx show ?thesis
      by (auto simp: bufferReader_Peek_def bufferReader_ensureReadable_def bufferReader_room_def Let_def)
  qed
qed

text \<open>When \<open>growth\<close> leaves the buffer too small, slicing it panics.\<close>

lemma bufferReader_Peek_panic:
  assumes inv: "bufferReader_inv r" and grow: "r_growable r" and no: "\<not> bufferReader_fits r n"
  shows "\<exists>r'. bufferReader_Peek r (int n) = (Panic SliceBounds, r') \<and> bufferReader_inv r' \<and>
    r_growable r' \<and> r_decorator r' = r_decorator r"
proof -
  let ?want = "int n - (writeIndex r - readIndex r)"
  let ?d = "?want + writeIndex r - int (r_len r)"
  from inv grow have pos: "0 < int (r_len r)" and len: "r_len r = length (r_buff r)"
    by (auto simp: bufferReader_inv_def)
  from no grow have room: "\<not> bufferReader_room r n" and n: "0 < n"
    by (auto simp: bufferReader_fits_def)
  have lt: "\<not> int n \<le> writeIndex r - readIndex r"
    using room n inv by (auto simp: bufferReader_room_def bufferReader_inv_def)
  obtain c where c: "bufferReader_grown r n = Some c"
    using double_until_Some[OF pos] unfolding bufferReader_grown_def by blast
  with no grow n have small: "c < readIndex r + int n"
    by (auto simp: bufferReader_fits_def)
  have d: "0 < ?d" using room by (simp add: bufferReader_room_def)
  from c have du: "double_until (int (r_len r)) (writeIndex r + ?d) = Some c"
    by (simp add: bufferReader_grown_def algebra_simps)
  note gr = growth_ok[OF inv grow d du]
  let ?r1 = "r\<lparr>r_buff := overwrite 0 (r_buff r) (replicate (nat c) 0), r_len := nat c\<rparr>"
  have "bufferReader_fill ?r1 ?want False = (Panic SliceBounds, ?r1)"
    using small gr(4) pos by (simp add: bufferReader_fill_def slice_expr_def)
  with gr(1,2) room grow lt n show ?thesis
    by (auto simp: bufferReader_Peek_def bufferReader_ensureReadable_def bufferReader_room_def Let_def)
qed

lemma bufferReader_Next_panic:
  assumes "bufferReader_inv r" and "r_growable r" and "\<not> bufferReader_fits r n"
  shows "\<exists>r'. bufferReader_Next r (int n) = (Panic SliceBounds, r') \<and> bufferReader_inv r' \<and> r_growable r'"
  using bufferReader_Peek_panic[OF assms] by (auto simp: bufferReader_Next_def)

text \<open>A growing reader never hangs, and its only panic is the slice expression.\<close>

lemma bufferReader_Skip_cases:
  assumes "bufferReader_inv r" and "r_growable r"
  shows "\<exists>out r'. bufferReader_Skip r (int n) = (out, r') \<and>
    (out = Ok () \<or> (\<exists>e. out = Err e) \<or> out = Panic SliceBounds)"
proof (cases "bufferReader_fits r n")
  case fits: True
  from assms(1) obtain src where src: "r_decorator r = Some src" by (auto simp: bufferReader_inv_def)
  show ?thesis
  proof (cases "n \<le> length (bufferReader_pend r)")
    case True
    show ?thesis by (rule bufferReader_Next_ok[OF assms(1) fits True]) auto
  next
    case False
    with bufferReader_Peek_short[OF assms(1) fits _ src] show ?thesis
      by (auto simp: bufferReader_Skip_def)
  qed
next
  case False
  from bufferReader_Peek_panic[OF assms False] show ?thesis by (auto simp: bufferReader_Skip_def)
qed

section \<open>limitReader (limit.go) and the Reader interface\<close>

text \<open>
  A value of the interface \<^verbatim>\<open>io.Reader\<close> of \<^verbatim>\<open>pkg/io\<close> is one of the two implementations. A
  \<open>limitReader\<close> holds \<open>remain\<close>, \<open>total\<close> and its \<open>decorator\<close>, which is nil after \<open>Release\<close>.
  Its operations act on the decorated reader in place, so the model returns that reader
  inside the limit reader.
\<close>

datatype reader =
    BufR bufferReader
  | LimR (lr_remain: uint32) (lr_total: int) (lr_decorator: "reader option")

definition NewLimitReader :: "reader \<Rightarrow> uint32 \<Rightarrow> reader" where
  "NewLimitReader decorator limit = LimR limit (uint limit) (Some decorator)"

fun reader_Read :: "reader \<Rightarrow> nat \<Rightarrow> bytes outcome \<times> reader" where
  "reader_Read (BufR r) n = map_prod id BufR (bufferReader_Read r n)"
| "reader_Read (LimR remain tot None) n =
     ((if uint remain - int n < 0 then Err (ErrRemainNotEnough remain (int n)) else Panic NilDereference),
      LimR remain tot None)"
| "reader_Read (LimR remain tot (Some d)) n =
     (if uint remain - int n < 0
      then (Err (ErrRemainNotEnough remain (int n)), LimR remain tot (Some d))
      else case reader_Read d n of
        (Ok bs, d') \<Rightarrow> (Ok bs, LimR (remain - of_nat (length bs)) tot (Some d'))
      | (out, d') \<Rightarrow> (out, LimR remain tot (Some d')))"

fun reader_Peek :: "reader \<Rightarrow> int \<Rightarrow> bytes outcome \<times> reader" where
  "reader_Peek (BufR r) n = map_prod id BufR (bufferReader_Peek r n)"
| "reader_Peek (LimR remain tot None) n =
     ((if uint remain - n < 0 then Err (ErrRemainNotEnough remain n) else Panic NilDereference),
      LimR remain tot None)"
| "reader_Peek (LimR remain tot (Some d)) n =
     (if uint remain - n < 0
      then (Err (ErrRemainNotEnough remain n), LimR remain tot (Some d))
      else case reader_Peek d n of (out, d') \<Rightarrow> (out, LimR remain tot (Some d')))"

fun reader_Next :: "reader \<Rightarrow> int \<Rightarrow> bytes outcome \<times> reader" where
  "reader_Next (BufR r) n = map_prod id BufR (bufferReader_Next r n)"
| "reader_Next (LimR remain tot None) n =
     ((if uint remain - n < 0 then Err (ErrRemainNotEnough remain n) else Panic NilDereference),
      LimR remain tot None)"
| "reader_Next (LimR remain tot (Some d)) n =
     (if uint remain - n < 0
      then (Err (ErrRemainNotEnough remain n), LimR remain tot (Some d))
      else case reader_Next d n of
        (Ok bs, d') \<Rightarrow> (Ok bs, LimR (remain - of_int n) tot (Some d'))
      | (out, d') \<Rightarrow> (out, LimR remain tot (Some d')))"

fun reader_Skip :: "reader \<Rightarrow> int \<Rightarrow> unit outcome \<times> reader" where
  "reader_Skip (BufR r) n = map_prod id BufR (bufferReader_Skip r n)"
| "reader_Skip (LimR remain tot None) n =
     ((if uint remain - n < 0 then Err (ErrRemainNotEnough remain n) else Panic NilDereference),
      LimR remain tot None)"
| "reader_Skip (LimR remain tot (Some d)) n =
     (if uint remain - n < 0
      then (Err (ErrRemainNotEnough remain n), LimR remain tot (Some d))
      else case reader_Skip d n of
        (Ok u, d') \<Rightarrow> (Ok u, LimR (remain - of_int n) tot (Some d'))
      | (out, d') \<Rightarrow> (out, LimR remain tot (Some d')))"

fun reader_Length :: "reader \<Rightarrow> int" where
  "reader_Length (BufR r) = bufferReader_Length r"
| "reader_Length (LimR remain tot d) = tot"

text \<open>
  \<open>Release\<close> returns the released reader and, for a limit reader, the reader it decorated.
  The error of \<open>Skip\<close> is discarded, a panic is not.
\<close>

fun reader_Release :: "reader \<Rightarrow> unit outcome \<times> reader \<times> reader option" where
  "reader_Release (BufR r) = (Ok (), BufR (bufferReader_Release r), None)"
| "reader_Release (LimR remain tot None) =
     (if remain \<noteq> 0 then (Panic NilDereference, LimR remain tot None, None)
      else (Ok (), LimR 0 tot None, None))"
| "reader_Release (LimR remain tot (Some d)) =
     (if remain \<noteq> 0 then
        (case reader_Skip d (uint remain) of
           (Panic p, d') \<Rightarrow> (Panic p, LimR remain tot (Some d'), Some d')
         | (Hang, d') \<Rightarrow> (Hang, LimR remain tot (Some d'), Some d')
         | (_, d') \<Rightarrow> (Ok (), LimR 0 tot None, Some d'))
      else (Ok (), LimR 0 tot None, Some d))"

section \<open>The contract of a reader\<close>

text \<open>
  \<open>pend\<close> is what the reader still delivers, \<open>fits\<close> when its buffer can hold the bytes of
  one request, \<open>room\<close> when it can hold them as it is, so that a request leaves room for
  the next one.
\<close>

locale byte_reader =
  fixes peek :: "'r \<Rightarrow> int \<Rightarrow> bytes outcome \<times> 'r"
    and "next" :: "'r \<Rightarrow> int \<Rightarrow> bytes outcome \<times> 'r"
    and skip :: "'r \<Rightarrow> int \<Rightarrow> unit outcome \<times> 'r"
    and inv :: "'r \<Rightarrow> bool"
    and pend :: "'r \<Rightarrow> bytes"
    and fits :: "'r \<Rightarrow> nat \<Rightarrow> bool"
    and room :: "'r \<Rightarrow> nat \<Rightarrow> bool"
  assumes room_fits: "room r n \<Longrightarrow> fits r n"
    and room_mono: "room r n \<Longrightarrow> m \<le> n \<Longrightarrow> room r m"
    and peek_law: "inv r \<Longrightarrow> fits r n \<Longrightarrow> n \<le> length (pend r) \<Longrightarrow>
      \<exists>r'. peek r (int n) = (Ok (take n (pend r)), r') \<and> inv r' \<and> pend r' = pend r \<and>
        (\<forall>m. room r m \<longrightarrow> room r' m)"
    and next_law: "inv r \<Longrightarrow> fits r n \<Longrightarrow> n \<le> length (pend r) \<Longrightarrow>
      \<exists>r'. next r (int n) = (Ok (take n (pend r)), r') \<and> skip r (int n) = (Ok (), r') \<and>
        inv r' \<and> pend r' = drop n (pend r) \<and> (\<forall>m. room r (n + m) \<longrightarrow> room r' m)"
begin

lemma nextE:
  assumes "inv r" and "room r (n + m)" and "n \<le> length (pend r)"
  obtains r' where "next r (int n) = (Ok (take n (pend r)), r')"
    and "skip r (int n) = (Ok (), r')"
    and "inv r'" and "pend r' = drop n (pend r)" and "room r' m"
  using next_law[of r n] assms room_fits room_mono[OF assms(2), of n] by auto

lemma peekE:
  assumes "inv r" and "room r m" and "n \<le> m" and "n \<le> length (pend r)"
  obtains r' where "peek r (int n) = (Ok (take n (pend r)), r')"
    and "inv r'" and "pend r' = pend r" and "room r' m"
  using peek_law[of r n] assms room_fits room_mono[OF assms(2,3)] by auto

text \<open>A peek does not disturb a later read, and two reads in a row deliver consecutive bytes.\<close>

lemma peek_next:
  assumes "inv r" and "room r n" and "n \<le> length (pend r)"
  obtains r' r'' where "peek r (int n) = (Ok (take n (pend r)), r')"
    and "next r' (int n) = (Ok (take n (pend r)), r'')" and "pend r'' = drop n (pend r)"
proof -
  obtain r' where 1: "peek r (int n) = (Ok (take n (pend r)), r')" "inv r'" "pend r' = pend r"
      "room r' n"
    using assms by (auto elim: peekE)
  with assms(3) next_law[OF 1(2) room_fits[OF 1(4)]] obtain r'' where "next r' (int n) = (Ok (take n (pend r')), r'')" "pend r'' = drop n (pend r')"
    by auto
  with 1 show thesis by (auto intro: that)
qed

lemma next_next:
  assumes "inv r" and "room r (n + m)" and "n + m \<le> length (pend r)"
  obtains bs cs r' r'' where "next r (int n) = (Ok bs, r')" and "next r' (int m) = (Ok cs, r'')"
    and "bs @ cs = take (n + m) (pend r)" and "pend r'' = drop (n + m) (pend r)" and "inv r''"
proof -
  obtain r' where 1: "next r (int n) = (Ok (take n (pend r)), r')" "inv r'"
      "pend r' = drop n (pend r)" "room r' m"
    using assms by (auto elim: nextE)
  moreover have "m \<le> length (pend r')" using assms(3) 1(3) by simp
  ultimately obtain r'' where "next r' (int m) = (Ok (take m (pend r')), r'')"
      "pend r'' = drop m (pend r')" "inv r''"
    using next_law[OF 1(2) room_fits[OF 1(4)]] by auto
  with 1 show thesis
    by (intro that[of _ r' _ r'']) (simp_all add: take_add add.commute[of m n])
qed

end

fun reader_inv :: "reader \<Rightarrow> bool" where
  "reader_inv (BufR r) = bufferReader_inv r"
| "reader_inv (LimR remain tot None) = False"
| "reader_inv (LimR remain tot (Some d)) = reader_inv d"

fun reader_pend :: "reader \<Rightarrow> bytes" where
  "reader_pend (BufR r) = bufferReader_pend r"
| "reader_pend (LimR remain tot None) = []"
| "reader_pend (LimR remain tot (Some d)) = take (unat remain) (reader_pend d)"

fun reader_fits :: "reader \<Rightarrow> nat \<Rightarrow> bool" where
  "reader_fits (BufR r) n = bufferReader_fits r n"
| "reader_fits (LimR remain tot None) n = False"
| "reader_fits (LimR remain tot (Some d)) n = reader_fits d n"

fun reader_room :: "reader \<Rightarrow> nat \<Rightarrow> bool" where
  "reader_room (BufR r) n = bufferReader_room r n"
| "reader_room (LimR remain tot None) n = False"
| "reader_room (LimR remain tot (Some d)) n = reader_room d n"

lemma reader_room_fits: "reader_room r n \<Longrightarrow> reader_fits r n"
  by (induction r n rule: reader_room.induct) (auto simp: bufferReader_fits_def)

lemma reader_room_mono: "reader_room r n \<Longrightarrow> m \<le> n \<Longrightarrow> reader_room r m"
  by (induction r n rule: reader_room.induct) (auto simp: bufferReader_room_def)

lemma reader_Peek_law:
  "reader_inv r \<Longrightarrow> reader_fits r n \<Longrightarrow> n \<le> length (reader_pend r) \<Longrightarrow>
   \<exists>r'. reader_Peek r (int n) = (Ok (take n (reader_pend r)), r') \<and> reader_inv r' \<and>
     reader_pend r' = reader_pend r \<and> (\<forall>m. reader_room r m \<longrightarrow> reader_room r' m)"
proof (induction r rule: reader_inv.induct)
  case (1 r)
  then have "bufferReader_inv r" "bufferReader_fits r n" "n \<le> length (bufferReader_pend r)"
    by simp_all
  then obtain r' where "bufferReader_Peek r (int n) = (Ok (take n (bufferReader_pend r)), r')"
      "bufferReader_inv r'" "bufferReader_pend r' = bufferReader_pend r"
      "readIndex r' = readIndex r" "r_len r \<le> r_len r'"
    by (rule bufferReader_Peek_ok)
  then show ?case by (auto simp: bufferReader_room_def)
next
  case (3 remain tot d)
  then have le: "n \<le> unat remain" by simp
  from 3 obtain d' where "reader_Peek d (int n) = (Ok (take n (reader_pend d)), d')" "reader_inv d'"
      "reader_pend d' = reader_pend d" "\<forall>m. reader_room d m \<longrightarrow> reader_room d' m"
    by auto
  with le_unat_uint[OF le] le show ?case by simp
qed simp

lemma reader_Next_law:
  "reader_inv r \<Longrightarrow> reader_fits r n \<Longrightarrow> n \<le> length (reader_pend r) \<Longrightarrow>
   \<exists>r'. reader_Next r (int n) = (Ok (take n (reader_pend r)), r') \<and>
     reader_Skip r (int n) = (Ok (), r') \<and> reader_inv r' \<and>
     reader_pend r' = drop n (reader_pend r) \<and> (\<forall>m. reader_room r (n + m) \<longrightarrow> reader_room r' m)"
proof (induction r rule: reader_inv.induct)
  case (1 r)
  then have "bufferReader_inv r" "bufferReader_fits r n" "n \<le> length (bufferReader_pend r)"
    by simp_all
  then obtain r' where "bufferReader_Next r (int n) = (Ok (take n (bufferReader_pend r)), r')"
      "bufferReader_Skip r (int n) = (Ok (), r')"
      "bufferReader_inv r'" "bufferReader_pend r' = drop n (bufferReader_pend r)"
      "readIndex r' = readIndex r + int n" "r_len r \<le> r_len r'"
    by (rule bufferReader_Next_ok)
  then show ?case by (auto simp: bufferReader_room_def)
next
  case (3 remain tot d)
  then have le: "n \<le> unat remain" by simp
  from 3 obtain d' where "reader_Next d (int n) = (Ok (take n (reader_pend d)), d')"
      "reader_Skip d (int n) = (Ok (), d')" "reader_inv d'" "reader_pend d' = drop n (reader_pend d)"
      "\<forall>m. reader_room d (n + m) \<longrightarrow> reader_room d' m"
    by auto
  with le_unat_uint[OF le] le show ?case
    by (simp add: drop_take)
qed simp

text \<open>Both readers of the repository keep the contract.\<close>

interpretation rd: byte_reader reader_Peek reader_Next reader_Skip reader_inv reader_pend
  reader_fits reader_room
  by unfold_locales (blast intro: reader_room_fits reader_room_mono reader_Peek_law reader_Next_law)+

text \<open>Releasing a limit reader consumes what its limit still covers of the decorated reader.\<close>

lemma reader_Release_limit:
  assumes "reader_inv d" and "reader_fits d (unat remain)" and "unat remain \<le> length (reader_pend d)"
  obtains d' where "reader_Release (LimR remain tot (Some d)) = (Ok (), LimR 0 tot None, Some d')"
    and "reader_inv d'" and "reader_pend d' = drop (unat remain) (reader_pend d)"
    and "\<And>m. reader_room d (unat remain + m) \<Longrightarrow> reader_room d' m"
proof (cases "remain = 0")
  case True
  with assms show thesis by (intro that[of d]) simp_all
next
  case False
  from rd.next_law[OF assms] obtain d' where "reader_Skip d (int (unat remain)) = (Ok (), d')"
      "reader_inv d'" "reader_pend d' = drop (unat remain) (reader_pend d)"
      "\<forall>m. reader_room d (unat remain + m) \<longrightarrow> reader_room d' m"
    by blast
  with False show thesis by (intro that[of d']) simp_all
qed

end
