(* ===== verification/Writer.thy ===== *)
theory Writer
  imports Heap Reader
begin

text \<open>
  The writer of \<^verbatim>\<open>pkg/io/writer/buffer.go\<close>: buffered in a growing slice and written to the
  connection by \<open>Flush\<close>, fixed to a given slice, or passed on directly to another writer.
\<close>

section \<open>State\<close>

text \<open>
  The world of the writers: the arrays, the bytes the connection has taken, and how its
  next \<open>Write\<close> calls end (\<open>Some (k, e)\<close>: after \<open>k\<close> bytes with error \<open>e\<close>).
\<close>

record world = heap +
  sent :: bytes
  faults :: "(nat \<times> go_error) option list"

definition conn_Write :: "bytes \<Rightarrow> world \<Rightarrow> nat outcome \<times> world" where
  "conn_Write bs h =
     (case faults h of
        Some (k, e) # fs \<Rightarrow> (Err e, h\<lparr>sent := sent h @ take k bs, faults := fs\<rparr>)
      | _ \<Rightarrow> (Ok (length bs), h\<lparr>sent := sent h @ bs, faults := tl (faults h)\<rparr>))"

lemma slice_put_world [simp]:
  "sent (slice_put s bs h) = sent h" "faults (slice_put s bs h) = faults h"
  by (simp_all add: slice_put_def)

record wfields =
  w_buff :: slice
  writeDirectly :: bool
  preWriteIndex :: int
  w_index :: int
  w_growable :: bool

text \<open>The \<open>decorator\<close> is nil, the connection, or another writer of this package.\<close>

datatype writer = Writer (w_fields: wfields) (w_decorator: decorator)
  and decorator = NilW | ConnW | LessW (the_writer: writer)

definition defaultBufferSize :: nat where
  "defaultBufferSize = 256"

definition WrapBufferWriter :: "writer \<Rightarrow> writer" where
  "WrapBufferWriter w =
     Writer \<lparr>w_buff = nil_slice, writeDirectly = True, preWriteIndex = 0, w_index = 0,
             w_growable = False\<rparr> (LessW w)"

definition NewBufferWriter :: "decorator \<Rightarrow> world \<Rightarrow> writer \<times> world" where
  "NewBufferWriter d h =
     (let (b, h') = make_slice defaultBufferSize h
      in (Writer \<lparr>w_buff = b, writeDirectly = False, preWriteIndex = 0, w_index = 0,
                  w_growable = True\<rparr> d, h'))"

definition NewBufferWriterWithBuff :: "slice \<Rightarrow> writer" where
  "NewBufferWriterWithBuff buf =
     Writer \<lparr>w_buff = buf, writeDirectly = False, preWriteIndex = 0, w_index = 0,
             w_growable = False\<rparr> NilW"

section \<open>Operations\<close>

definition writer_checkWriteable ::
    "int \<Rightarrow> wfields \<times> world \<Rightarrow> bool outcome \<times> wfields \<times> world" where
  "writer_checkWriteable n = (\<lambda>(f, h).
     let l = int (s_len (w_buff f)); c = int (s_cap (w_buff f))
     in if n \<le> l - w_index f then (Ok True, f, h)
        else if \<not> w_growable f then (Ok False, f, h)
        else if n \<le> c - l then
          (case reslice (w_buff f) 0 (l + n) of
             Ok b \<Rightarrow> (Ok True, f\<lparr>w_buff := b\<rparr>, h)
           | _ \<Rightarrow> (Panic SliceBounds, f, h))
        else case double_until c (w_index f + n) of
            None \<Rightarrow> (Hang, f, h)
          | Some capacity \<Rightarrow>
              (let (buf, h1) = make_slice (nat capacity) h;
                   h2 = slice_put buf (slice_get h1 (w_buff f)) h1
               in (Ok True, f\<lparr>w_buff := buf\<rparr>, h2)))"

text \<open>\<open>Write\<close> and \<open>Malloc\<close> into the writer's own buffer.\<close>

definition writer_store :: "bytes \<Rightarrow> wfields \<times> world \<Rightarrow> nat outcome \<times> wfields \<times> world" where
  "writer_store buf fh =
     and_then (writer_checkWriteable (int (length buf)) fh)
       (\<lambda>ok (f, h). if \<not> ok then (Err ErrWriterBufferNotEnough, f, h)
          else case reslice (w_buff f) (w_index f) (w_index f + int (length buf)) of
            Ok s \<Rightarrow> (Ok (length buf), f\<lparr>w_index := w_index f + int (length buf)\<rparr>, slice_put s buf h)
          | _ \<Rightarrow> (Panic SliceBounds, f, h))"

definition writer_reserve :: "int \<Rightarrow> wfields \<times> world \<Rightarrow> slice outcome \<times> wfields \<times> world" where
  "writer_reserve n fh =
     and_then (writer_checkWriteable n fh)
       (\<lambda>ok (f, h). if \<not> ok then (Err ErrWriterBufferNotEnough, f, h)
          else case reslice (w_buff f) (w_index f) (w_index f + n) of
            Ok s \<Rightarrow> (Ok s, f\<lparr>w_index := w_index f + n\<rparr>, h)
          | _ \<Rightarrow> (Panic SliceBounds, f, h))"

fun writer_Write :: "bytes \<Rightarrow> writer \<times> world \<Rightarrow> nat outcome \<times> writer \<times> world" where
  "writer_Write buf (Writer f (LessW w), h) =
     (if writeDirectly f then
        (case writer_Write buf (w, h) of
           (Ok n, w', h') \<Rightarrow> (Ok n, Writer (f\<lparr>w_index := w_index f + int n\<rparr>) (LessW w'), h')
         | (out, w', h') \<Rightarrow> (out, Writer f (LessW w'), h'))
      else case writer_store buf (f, h) of (out, f', h') \<Rightarrow> (out, Writer f' (LessW w), h'))"
| "writer_Write buf (Writer f d, h) =
     (if writeDirectly f then (Panic TypeAssertion, Writer f d, h)
      else case writer_store buf (f, h) of (out, f', h') \<Rightarrow> (out, Writer f' d, h'))"

fun writer_Malloc :: "int \<Rightarrow> writer \<times> world \<Rightarrow> slice outcome \<times> writer \<times> world" where
  "writer_Malloc n (Writer f (LessW w), h) =
     (if writeDirectly f then
        (case writer_Malloc n (w, h) of
           (out, w', h') \<Rightarrow> (out, Writer (f\<lparr>w_index := w_index f + n\<rparr>) (LessW w'), h'))
      else case writer_reserve n (f, h) of (out, f', h') \<Rightarrow> (out, Writer f' (LessW w), h'))"
| "writer_Malloc n (Writer f d, h) =
     (if writeDirectly f
      then (Panic TypeAssertion, Writer (f\<lparr>w_index := w_index f + n\<rparr>) d, h)
      else case writer_reserve n (f, h) of (out, f', h') \<Rightarrow> (out, Writer f' d, h'))"

definition writer_MallocLength :: "writer \<Rightarrow> int" where
  "writer_MallocLength w = w_index (w_fields w)"

text \<open>The part of \<open>Flush\<close> after the decorator has taken the bytes.\<close>

definition writer_cut :: "wfields \<Rightarrow> unit outcome \<times> wfields" where
  "writer_cut f =
     (case reslice (w_buff f) (w_index f) (int (s_len (w_buff f))) of
        Ok b \<Rightarrow> (Ok (), f\<lparr>w_buff := b, preWriteIndex := w_index f\<rparr>)
      | _ \<Rightarrow> (Panic SliceBounds, f))"

text \<open>A chain of writers keeps its length, so \<open>Flush\<close> down the chain ends.\<close>

primrec writer_depth :: "writer \<Rightarrow> nat" and decorator_depth :: "decorator \<Rightarrow> nat" where
  "writer_depth (Writer f d) = Suc (decorator_depth d)"
| "decorator_depth NilW = 0"
| "decorator_depth ConnW = 0"
| "decorator_depth (LessW w) = writer_depth w"

lemma writer_Write_depth:
  "writer_Write buf (w, h) = (out, w', h') \<Longrightarrow> writer_depth w' = writer_depth w"
  by (induction buf "(w, h)" arbitrary: w h out w' h' rule: writer_Write.induct)
    (auto split: if_splits outcome.splits prod.splits)

function writer_Flush :: "writer \<times> world \<Rightarrow> unit outcome \<times> writer \<times> world" where
  "writer_Flush (Writer f d, h) =
     (if writeDirectly f then
        (case d of
           LessW w \<Rightarrow> (case writer_Flush (w, h) of
             (out, w', h') \<Rightarrow> (out, Writer (f\<lparr>preWriteIndex := w_index f\<rparr>) (LessW w'), h'))
         | _ \<Rightarrow> (Ok (), Writer (f\<lparr>preWriteIndex := w_index f\<rparr>) d, h))
      else if \<not> w_growable f then (Ok (), Writer f d, h)
      else if w_index f \<le> 0 \<or> preWriteIndex f = w_index f then (Ok (), Writer f d, h)
      else case reslice (w_buff f) (preWriteIndex f) (w_index f) of
        Ok s \<Rightarrow>
          (case d of
             NilW \<Rightarrow> (Panic NilDereference, Writer f d, h)
           | ConnW \<Rightarrow>
               (case conn_Write (slice_get h s) h of
                  (Ok _, h') \<Rightarrow> (case writer_cut f of (out, f') \<Rightarrow> (out, Writer f' ConnW, h'))
                | (Err e, h') \<Rightarrow> (Err e, Writer f ConnW, h')
                | (Panic p, h') \<Rightarrow> (Panic p, Writer f ConnW, h')
                | (Hang, h') \<Rightarrow> (Hang, Writer f ConnW, h'))
           | LessW w \<Rightarrow>
               (case writer_Write (slice_get h s) (w, h) of
                  (Ok _, w', h') \<Rightarrow>
                    (case writer_cut f of
                       (Ok _, f') \<Rightarrow> (case writer_Flush (w', h') of
                          (out, w'', h'') \<Rightarrow> (out, Writer f' (LessW w''), h''))
                     | (_, f') \<Rightarrow> (Panic SliceBounds, Writer f' (LessW w'), h'))
                | (Err e, w', h') \<Rightarrow> (Err e, Writer f (LessW w'), h')
                | (Panic p, w', h') \<Rightarrow> (Panic p, Writer f (LessW w'), h')
                | (Hang, w', h') \<Rightarrow> (Hang, Writer f (LessW w'), h')))
      | _ \<Rightarrow> (Panic SliceBounds, Writer f d, h))"
  by pat_completeness auto
termination
  by (relation "measure (writer_depth \<circ> fst)") (auto dest: writer_Write_depth[OF sym])

declare writer_Flush.simps [simp del]

definition writer_Release :: "writer \<Rightarrow> writer" where
  "writer_Release w =
     Writer ((w_fields w)\<lparr>w_buff := nil_slice, writeDirectly := False, preWriteIndex := 0,
                          w_index := 0\<rparr>) NilW"

section \<open>Invariant and abstraction of the buffered writer\<close>

text \<open>
  The buffer is its whole capacity, the indices are ordered, staged bytes lie inside the
  buffer and everything behind \<open>writeIndex\<close> is still zero. (After \<open>Flush\<close> the buffer is cut
  but \<open>writeIndex\<close> is not reset, so it may lie behind the buffer while nothing is staged.)
\<close>

definition wf_inv :: "wfields \<Rightarrow> world \<Rightarrow> bool" where
  "wf_inv f h \<longleftrightarrow>
     slice_valid h (w_buff f) \<and> s_len (w_buff f) = s_cap (w_buff f) \<and>
     0 \<le> preWriteIndex f \<and> preWriteIndex f \<le> w_index f \<and>
     (preWriteIndex f = w_index f \<or> w_index f \<le> int (s_len (w_buff f))) \<and>
     drop (nat (w_index f)) (slice_get h (w_buff f))
       = replicate (s_len (w_buff f) - nat (w_index f)) 0"

text \<open>The bytes written but not yet flushed.\<close>

definition staged :: "wfields \<Rightarrow> world \<Rightarrow> bytes" where
  "staged f h =
     take (nat (w_index f - preWriteIndex f)) (drop (nat (preWriteIndex f)) (slice_get h (w_buff f)))"

text \<open>\<open>n\<close> bytes fit into the buffer, as it is or after growing.\<close>

definition wf_room :: "wfields \<Rightarrow> nat \<Rightarrow> bool" where
  "wf_room f n \<longleftrightarrow> w_index f + int n \<le> int (s_len (w_buff f))"

definition wf_fits :: "wfields \<Rightarrow> nat \<Rightarrow> bool" where
  "wf_fits f n \<longleftrightarrow> wf_room f n \<or> w_growable f \<and> 0 < s_cap (w_buff f) \<and> 0 < n"

lemma check_room: "wf_room f n \<Longrightarrow> writer_checkWriteable (int n) (f, h) = (Ok True, f, h)"
  by (simp add: writer_checkWriteable_def wf_room_def)

lemma check_grow:
  assumes inv: "wf_inv f h" and grow: "w_growable f" "0 < s_cap (w_buff f)"
    and no: "\<not> wf_room f n" and n: "0 < n"
  obtains b h' where "writer_checkWriteable (int n) (f, h) = (Ok True, f\<lparr>w_buff := b\<rparr>, h')"
    and "wf_inv (f\<lparr>w_buff := b\<rparr>) h'" and "staged (f\<lparr>w_buff := b\<rparr>) h' = staged f h"
    and "wf_room (f\<lparr>w_buff := b\<rparr>) n" and "s_arr b = brk h" and "sent h' = sent h"
    and "faults h' = faults h"
    and "slice_get h' b = slice_get h (w_buff f) @ replicate (s_len b - s_len (w_buff f)) 0"
proof -
  let ?o = "w_buff f" and ?g = "slice_get h (w_buff f)"
  have len: "s_len ?o = s_cap ?o" "slice_valid h ?o" using inv by (simp_all add: wf_inv_def)
  obtain c where c: "double_until (int (s_cap ?o)) (w_index f + int n) = Some c"
      "w_index f + int n \<le> c" "int (s_cap ?o) \<le> c"
    using double_until_Some[of "int (s_cap ?o)"] grow(2) by fastforce
  define b h1 where "b = fst (make_slice (nat c) h)" and "h1 = snd (make_slice (nat c) h)"
  have mk: "make_slice (nat c) h = (b, h1)" by (simp add: b_def h1_def)
  have b: "s_len b = nat c" "s_cap b = nat c" "s_arr b = brk h" "slice_valid h1 b"
      "sent h1 = sent h" "faults h1 = faults h"
    by (simp_all add: b_def h1_def make_slice_def slice_valid_def)
  have "s_arr ?o \<noteq> brk h" using len(2) by (simp add: slice_valid_def)
  then have old: "slice_get h1 ?o = ?g"
    by (simp add: h1_def make_slice_def slice_get_def)
  define h' where "h' = slice_put b ?g h1"
  have new: "slice_get h' b = ?g @ replicate (s_len b - s_len ?o) 0"
  proof -
    have "slice_get h' b = ?g @ drop (length ?g) (slice_get h1 b)"
      unfolding h'_def using b len c(3) by (intro slice_get_put) auto
    then show ?thesis
      using len b(1) slice_get_make[of "nat c" h] by (simp flip: h1_def b_def)
  qed
  have chk: "writer_checkWriteable (int n) (f, h) = (Ok True, f\<lparr>w_buff := b\<rparr>, h')"
    using no grow n len c(1) old
    by (simp add: writer_checkWriteable_def wf_room_def Let_def h'_def mk)
  have wi: "nat (w_index f) \<le> nat c" "length ?g = s_len ?o" "s_cap ?o \<le> nat c"
    using c len by simp_all
  have "drop (nat (w_index f)) (slice_get h' b) = replicate (s_len b - nat (w_index f)) 0"
    using drop_replicate_pad[of "nat (w_index f)" ?g 0 "s_len b"] inv wi b by (simp add: new wf_inv_def)
  moreover have "slice_valid h' b" by (simp add: h'_def b)
  ultimately have "wf_inv (f\<lparr>w_buff := b\<rparr>) h'"
    using inv b wi len c(3) unfolding wf_inv_def by auto
  moreover have "staged (f\<lparr>w_buff := b\<rparr>) h' = staged f h"
    using inv len by (auto simp: staged_def new wf_inv_def)
  moreover have "wf_room (f\<lparr>w_buff := b\<rparr>) n" using c(2) b by (simp add: wf_room_def)
  ultimately show thesis
    using chk new b by (intro that[of b h']) (simp_all add: h'_def)
qed

text \<open>Whatever makes the space, the writer then has room and its staged bytes are kept.\<close>

lemma check_ok:
  assumes "wf_inv f h" and "wf_fits f n"
  obtains b h' where "writer_checkWriteable (int n) (f, h) = (Ok True, f\<lparr>w_buff := b\<rparr>, h')"
    and "wf_inv (f\<lparr>w_buff := b\<rparr>) h'" and "staged (f\<lparr>w_buff := b\<rparr>) h' = staged f h"
    and "wf_room (f\<lparr>w_buff := b\<rparr>) n" and "sent h' = sent h" and "faults h' = faults h"
    and "wf_room f n \<longrightarrow> b = w_buff f \<and> h' = h"
    and "\<not> wf_room f n \<longrightarrow> s_arr b = brk h \<and>
      slice_get h' b = slice_get h (w_buff f) @ replicate (s_len b - s_len (w_buff f)) 0"
proof (cases "wf_room f n")
  case True
  then show thesis
    using assms by (intro that[of "w_buff f" h]) (auto simp: check_room)
next
  case False
  with assms have g: "w_growable f" "0 < s_cap (w_buff f)" "0 < n"
    by (auto simp: wf_fits_def)
  show thesis
    by (rule check_grow[OF assms(1) g(1,2) False g(3)]) (use False in \<open>auto intro: that\<close>)
qed

text \<open>Writing behind \<open>writeIndex\<close> appends to the staged bytes.\<close>

lemma append_ok:
  assumes inv: "wf_inv f h" and room: "wf_room f (length buf)"
  defines "i \<equiv> nat (w_index f)"
  defines "f' \<equiv> f\<lparr>w_index := w_index f + int (length buf)\<rparr>"
  defines "h' \<equiv> slice_put (subslice (w_buff f) i (length buf)) buf h"
  shows "wf_inv f' h'" and "staged f' h' = staged f h @ buf"
    and "reslice (w_buff f) (w_index f) (w_index f + int (length buf))
      = Ok (subslice (w_buff f) i (length buf))"
proof -
  let ?b = "w_buff f" and ?k = "length buf" and ?g = "slice_get h (w_buff f)"
  have b: "slice_valid h ?b" "s_len ?b = s_cap ?b" "0 \<le> preWriteIndex f"
      "preWriteIndex f \<le> w_index f"
    using inv by (simp_all add: wf_inv_def)
  have ik: "i + ?k \<le> s_len ?b" "w_index f = int i"
    using room b unfolding wf_room_def i_def by linarith+
  then show "reslice ?b (w_index f) (w_index f + int ?k) = Ok (subslice ?b i ?k)"
    using b by (simp add: reslice_Ok)
  have g: "slice_get h' ?b = take i ?g @ buf @ drop (i + ?k) ?g"
    unfolding h'_def using b ik by (intro slice_get_put_sub) auto
  have lg: "length ?g = s_len ?b" using b by simp
  have "drop (i + ?k) ?g = drop ?k (drop i ?g)" by (simp add: add.commute)
  also have "\<dots> = replicate (s_len ?b - (i + ?k)) 0"
    using inv ik by (simp add: wf_inv_def)
  finally have z: "drop (i + ?k) ?g = replicate (s_len ?b - (i + ?k)) 0" .
  have "slice_valid h' ?b"
    unfolding h'_def using b ik by (subst slice_valid_put) auto
  moreover have "nat (w_index f + int ?k) = i + ?k" using ik by simp
  ultimately show "wf_inv f' h'"
    using inv ik lg by (auto simp: wf_inv_def f'_def g z)
  define p where "p = nat (preWriteIndex f)"
  have p: "preWriteIndex f = int p" "p \<le> i" using b ik by (simp_all add: p_def)
  have "staged f' h' = take (i + ?k - p) (drop p (take i ?g @ buf @ drop (i + ?k) ?g))"
    using p ik by (simp add: staged_def f'_def g nat_diff_distrib' nat_add_distrib)
  also have "\<dots> = drop p (take (i + ?k) (take i ?g @ buf @ drop (i + ?k) ?g))"
    by (simp only: drop_take)
  also have "\<dots> = drop p (take i ?g) @ buf" using ik lg p by simp
  also have "drop p (take i ?g) = staged f h"
    using p ik by (simp add: staged_def drop_take nat_diff_distrib')
  finally show "staged f' h' = staged f h @ buf" .
qed

lemma writer_store_ok:
  assumes "wf_inv f h" and "wf_fits f (length buf)"
  obtains b h' where "writer_store buf (f, h)
      = (Ok (length buf), f\<lparr>w_buff := b, w_index := w_index f + int (length buf)\<rparr>, h')"
    and "wf_inv (f\<lparr>w_buff := b, w_index := w_index f + int (length buf)\<rparr>) h'"
    and "staged (f\<lparr>w_buff := b, w_index := w_index f + int (length buf)\<rparr>) h' = staged f h @ buf"
    and "sent h' = sent h" and "faults h' = faults h"
    and "w_index f + int (length buf) \<le> int (s_len b)" and "0 < s_cap (w_buff f) \<longrightarrow> 0 < s_cap b"
    and "\<not> wf_room f (length buf) \<longrightarrow> s_arr b = brk h"
    and "wf_room f (length buf) \<longrightarrow> b = w_buff f"
proof -
  from assms obtain b h1 where c:
      "writer_checkWriteable (int (length buf)) (f, h) = (Ok True, f\<lparr>w_buff := b\<rparr>, h1)"
      "wf_inv (f\<lparr>w_buff := b\<rparr>) h1" "staged (f\<lparr>w_buff := b\<rparr>) h1 = staged f h"
      "wf_room (f\<lparr>w_buff := b\<rparr>) (length buf)" "sent h1 = sent h" "faults h1 = faults h"
      "wf_room f (length buf) \<longrightarrow> b = w_buff f \<and> h1 = h"
      "\<not> wf_room f (length buf) \<longrightarrow> s_arr b = brk h \<and>
        slice_get h1 b = slice_get h (w_buff f) @ replicate (s_len b - s_len (w_buff f)) 0"
    by (rule check_ok)
  note a = append_ok[OF c(2,4)]
  have v: "slice_valid h1 b" "s_len b = s_cap b" "slice_valid h (w_buff f)"
      "s_len (w_buff f) = s_cap (w_buff f)"
    using c(2) assms(1) by (simp_all add: wf_inv_def)
  have "0 < s_cap (w_buff f) \<longrightarrow> 0 < s_cap b"
  proof (cases "wf_room f (length buf)")
    case False
    with c(8) have "length (slice_get h1 b) \<ge> length (slice_get h (w_buff f))" by simp
    with v show ?thesis by simp
  qed (use c(7) in auto)
  with a c show thesis
    by (intro that[of b "slice_put (subslice b (nat (w_index f)) (length buf)) buf h1"])
      (auto simp: writer_store_def wf_room_def)
qed

lemma writer_reserve_ok:
  assumes "wf_inv f h" and "wf_fits f n"
  obtains b h' where "writer_reserve (int n) (f, h)
      = (Ok (subslice b (nat (w_index f)) n), f\<lparr>w_buff := b, w_index := w_index f + int n\<rparr>, h')"
    and "wf_inv (f\<lparr>w_buff := b, w_index := w_index f + int n\<rparr>) h'"
    and "staged (f\<lparr>w_buff := b, w_index := w_index f + int n\<rparr>) h' = staged f h @ replicate n 0"
    and "sent h' = sent h" and "faults h' = faults h"
    and "w_index f + int n \<le> int (s_len b)"
    and "wf_room f n \<longrightarrow> b = w_buff f \<and> h' = h"
    and "\<not> wf_room f n \<longrightarrow> s_arr b = brk h"
proof -
  from assms obtain b h1 where c:
      "writer_checkWriteable (int n) (f, h) = (Ok True, f\<lparr>w_buff := b\<rparr>, h1)"
      "wf_inv (f\<lparr>w_buff := b\<rparr>) h1" "staged (f\<lparr>w_buff := b\<rparr>) h1 = staged f h"
      "wf_room (f\<lparr>w_buff := b\<rparr>) n" "sent h1 = sent h" "faults h1 = faults h"
      "wf_room f n \<longrightarrow> b = w_buff f \<and> h1 = h"
      "\<not> wf_room f n \<longrightarrow> s_arr b = brk h \<and>
        slice_get h1 b = slice_get h (w_buff f) @ replicate (s_len b - s_len (w_buff f)) 0"
    by (rule check_ok)
  define i where "i = nat (w_index f)"
  have i: "w_index f = int i" "i + n \<le> s_len b" "s_len b = s_cap b" "slice_valid h1 b"
    using c(2,4) by (auto simp: wf_inv_def wf_room_def i_def)
  let ?g = "slice_get h1 b"
  have z: "drop i ?g = replicate (s_len b - i) 0" using c(2) by (simp add: wf_inv_def i_def)
  have p: "0 \<le> preWriteIndex f" "preWriteIndex f \<le> int i" using c(2) i by (auto simp: wf_inv_def)
  define q where "q = nat (preWriteIndex f)"
  have q: "preWriteIndex f = int q" "q \<le> i" using p by (simp_all add: q_def)
  have tk: "take (i + n) ?g = take i ?g @ replicate n 0"
    using z i by (simp add: take_add)
  have "staged (f\<lparr>w_buff := b, w_index := w_index f + int n\<rparr>) h1 = drop q (take (i + n) ?g)"
    using q i by (simp add: staged_def drop_take nat_diff_distrib' nat_add_distrib)
  also have "\<dots> = drop q (take i ?g) @ replicate n 0" using tk i q by simp
  also have "drop q (take i ?g) = staged f h"
    unfolding c(3)[symmetric] using q i by (simp add: staged_def drop_take nat_diff_distrib')
  finally have st: "staged (f\<lparr>w_buff := b, w_index := w_index f + int n\<rparr>) h1 = staged f h @ replicate n 0" .
  have "drop (i + n) ?g = replicate (s_len b - (i + n)) 0"
    using z by (metis add.commute diff_diff_left drop_drop drop_replicate)
  then have "wf_inv (f\<lparr>w_buff := b, w_index := w_index f + int n\<rparr>) h1"
    using c(2) i p by (auto simp: wf_inv_def nat_add_distrib)
  moreover have "reslice b (w_index f) (w_index f + int n) = Ok (subslice b i n)"
    using i by (simp add: reslice_Ok)
  ultimately show thesis
    using c st i by (intro that[of b h1]) (auto simp: writer_reserve_def)
qed

text \<open>Filling in a reserved slice of the current buffer changes the staged bytes in place.\<close>

lemma put_word_ok:
  assumes inv: "wf_inv f h" and "int i + int k \<le> w_index f" and "preWriteIndex f = int q" and "q \<le> i"
    and "length bs \<le> k" and ne: "0 < k"
  defines "h' \<equiv> slice_put (subslice (w_buff f) i k) bs h"
  shows "put_word (subslice (w_buff f) i k) bs h = (Ok (), h')" and "wf_inv f h'"
    and "staged f h' = take (i - q) (staged f h) @ bs @ drop (i - q + length bs) (staged f h)"
proof -
  define m where "m = nat (w_index f)"
  let ?g = "slice_get h (w_buff f)" and ?m = m
  have b: "slice_valid h (w_buff f)" "s_len (w_buff f) = s_cap (w_buff f)"
      "w_index f \<le> int (s_len (w_buff f))" "w_index f = int ?m"
    using inv assms(2,3,4) ne by (auto simp: wf_inv_def m_def)
  have ik: "i + k \<le> ?m" "i + length bs \<le> ?m" "?m \<le> s_len (w_buff f)" using assms b by linarith+
  show "put_word (subslice (w_buff f) i k) bs h = (Ok (), h')"
    using assms(5) by (simp add: put_word_def h'_def subslice_def)
  have g: "slice_get h' (w_buff f) = take i ?g @ bs @ drop (i + length bs) ?g"
    unfolding h'_def using b ik assms(5) by (intro slice_get_put_sub) auto
  have lg: "length ?g = s_len (w_buff f)" using b by simp
  have dm: "drop ?m (slice_get h' (w_buff f)) = drop ?m ?g"
    using ik lg by (simp add: g)
  moreover have "slice_valid h' (w_buff f)"
    unfolding h'_def using b ik by (subst slice_valid_put) auto
  ultimately show "wf_inv f h'" using inv by (auto simp: wf_inv_def m_def)
  have s0: "staged f h = drop q (take ?m ?g)"
    using assms(3,4) b ik by (simp add: staged_def drop_take nat_diff_distrib')
  have "staged f h' = drop q (take ?m (take i ?g @ bs @ drop (i + length bs) ?g))"
    using assms(3,4) b ik by (simp add: staged_def g drop_take nat_diff_distrib')
  also have "take ?m (take i ?g @ bs @ drop (i + length bs) ?g)
      = take i ?g @ bs @ take (?m - (i + length bs)) (drop (i + length bs) ?g)"
  proof -
    have "length (take i ?g) = i" using ik lg by simp
    with ik show ?thesis by (simp only: take_append) simp
  qed
  also have "drop q \<dots> = drop q (take i ?g) @ bs @ take (?m - (i + length bs)) (drop (i + length bs) ?g)"
    using ik lg assms(4) by simp
  finally show "staged f h' = take (i - q) (staged f h) @ bs @ drop (i - q + length bs) (staged f h)"
    unfolding s0 using ik lg assms(4) by (simp add: drop_take min_def add.commute)
qed

text \<open>\<open>Flush\<close> hands the staged bytes to the connection and leaves nothing staged.\<close>

definition accepts :: "world \<Rightarrow> bool" where
  "accepts h \<longleftrightarrow> (case faults h of Some _ # _ \<Rightarrow> False | _ \<Rightarrow> True)"

lemma conn_Write_ok:
  "accepts h \<Longrightarrow> conn_Write bs h = (Ok (length bs), h\<lparr>sent := sent h @ bs, faults := tl (faults h)\<rparr>)"
  by (auto simp: conn_Write_def accepts_def split: list.splits option.splits)

lemma staged_reslice:
  assumes "wf_inv f h" and "preWriteIndex f \<noteq> w_index f"
  obtains s where "reslice (w_buff f) (preWriteIndex f) (w_index f) = Ok s"
    and "slice_get h s = staged f h"
proof -
  define q m where "q = nat (preWriteIndex f)" and "m = nat (w_index f)"
  have qm: "preWriteIndex f = int q" "w_index f = int m" "q \<le> m" "m \<le> s_len (w_buff f)"
      "s_len (w_buff f) = s_cap (w_buff f)"
    using assms by (auto simp: wf_inv_def q_def m_def)
  from qm have "reslice (w_buff f) (preWriteIndex f) (w_index f) = Ok (subslice (w_buff f) q (m - q))"
    by (simp add: reslice_def subslice_def nat_diff_distrib')
  moreover have "slice_get h (subslice (w_buff f) q (m - q)) = staged f h"
    using qm slice_get_subslice[of q "m - q" "w_buff f" h]
    by (simp add: staged_def nat_diff_distrib')
  ultimately show thesis by (rule that)
qed

lemma writer_cut_ok:
  assumes inv: "wf_inv f h" and ne: "preWriteIndex f \<noteq> w_index f"
    and same: "arr h' = arr h" "brk h' = brk h"
  obtains f' where "writer_cut f = (Ok (), f')" and "wf_inv f' h'" and "staged f' h' = []"
    and "writeDirectly f' = writeDirectly f" and "w_growable f' = w_growable f"
    and "w_index f' = w_index f" and "s_len (w_buff f') = s_len (w_buff f) - nat (w_index f)"
proof -
  define m where "m = nat (w_index f)"
  let ?b = "w_buff f" and ?c = "subslice (w_buff f) m (s_len (w_buff f) - m)"
  have m: "w_index f = int m" "m \<le> s_len ?b" "s_len ?b = s_cap ?b" "slice_valid h ?b"
    using inv ne by (auto simp: wf_inv_def m_def)
  define f' where "f' = f\<lparr>w_buff := ?c, preWriteIndex := w_index f\<rparr>"
  have cut: "writer_cut f = (Ok (), f')"
    using m by (simp add: writer_cut_def reslice_def f'_def subslice_def)
  have g: "slice_get h' t = slice_get h t" "slice_valid h' t = slice_valid h t" for t
    using same by (simp_all add: slice_get_def slice_valid_def)
  have "slice_get h' ?c = replicate (s_len ?b - m) 0"
    using m inv slice_get_subslice[of m "s_len ?b - m" ?b h] by (simp add: g wf_inv_def)
  moreover have "slice_valid h' ?c" using m by (simp add: g)
  ultimately have "wf_inv f' h'"
    using m by (simp add: wf_inv_def f'_def) (simp add: subslice_def)
  with cut show thesis
    by (intro that[of f']) (simp_all add: f'_def staged_def m_def subslice_def)
qed

lemma writer_Flush_conn_ok:
  assumes inv: "wf_inv f h" and grow: "w_growable f" and dir: "\<not> writeDirectly f" and acc: "accepts h"
  obtains f' h' where "writer_Flush (Writer f ConnW, h) = (Ok (), Writer f' ConnW, h')"
    and "wf_inv f' h'" and "staged f' h' = []" and "sent h' = sent h @ staged f h"
    and "writeDirectly f' = writeDirectly f" and "w_growable f' = w_growable f"
proof (cases "preWriteIndex f = w_index f")
  case True
  then show thesis
    using assms by (intro that[of f h]) (simp_all add: writer_Flush.simps staged_def)
next
  case False
  with inv have pos: "\<not> w_index f \<le> 0" by (auto simp: wf_inv_def)
  obtain s where s: "reslice (w_buff f) (preWriteIndex f) (w_index f) = Ok s"
      "slice_get h s = staged f h"
    using staged_reslice[OF inv False] .
  define h' where "h' = h\<lparr>sent := sent h @ staged f h, faults := tl (faults h)\<rparr>"
  have same: "arr h' = arr h" "brk h' = brk h" by (simp_all add: h'_def)
  obtain f' where f': "writer_cut f = (Ok (), f')" "wf_inv f' h'" "staged f' h' = []"
      "writeDirectly f' = writeDirectly f" "w_growable f' = w_growable f"
    using writer_cut_ok[OF inv False same] .
  have "writer_Flush (Writer f ConnW, h) = (Ok (), Writer f' ConnW, h')"
    using dir grow pos False s f'(1) conn_Write_ok[OF acc]
    by (simp add: writer_Flush.simps h'_def)
  with f' show thesis by (intro that[of f' h']) (simp_all add: h'_def)
qed

section \<open>The contract of a writer\<close>

text \<open>A connection that has no fault ahead gets none from a write or a flush.\<close>

lemma writer_store_faults: "writer_store buf (f, h) = (out, f', h') \<Longrightarrow> faults h' = faults h"
  by (auto simp: writer_store_def writer_checkWriteable_def Let_def make_slice_def
      split: if_splits outcome.splits prod.splits option.splits)

lemma writer_Write_faults: "writer_Write buf (w, h) = (out, w', h') \<Longrightarrow> faults h' = faults h"
  by (induction buf "(w, h)" arbitrary: w h out w' h' rule: writer_Write.induct)
    (auto split: if_splits outcome.splits prod.splits dest: writer_store_faults)

lemma conn_Write_no_faults: "faults h = [] \<Longrightarrow> conn_Write bs h = (Ok (length bs), h\<lparr>sent := sent h @ bs\<rparr>)"
  by (cases h) (simp add: conn_Write_def)

lemma writer_Flush_no_faults: "faults (snd s) = [] \<Longrightarrow> faults (snd (snd (writer_Flush s))) = []"
proof (induction s rule: writer_Flush.induct)
  case (1 f d h)
  let ?r = "reslice (w_buff f) (preWriteIndex f) (w_index f)"
  have fl: "faults h = []" using "1.prems" by simp
  consider "writeDirectly f" | "\<not> writeDirectly f" "\<not> w_growable f \<or> w_index f \<le> 0 \<or> preWriteIndex f = w_index f \<or> (\<forall>s. ?r \<noteq> Ok s)"
    | s where "\<not> writeDirectly f" "w_growable f" "\<not> (w_index f \<le> 0 \<or> preWriteIndex f = w_index f)" "?r = Ok s"
    by blast
  then show ?case
  proof cases
    case 1
    then show ?thesis using "1.IH"(1)[OF 1] fl by (cases d) (auto simp: writer_Flush.simps[of f] split: prod.split)
  next
    case 2
    then show ?thesis using fl by (cases ?r) (auto simp: writer_Flush.simps[of f])
  next
    case (3 b)
    show ?thesis
    proof (cases d)
      case NilW
      then show ?thesis using 3 fl by (simp add: writer_Flush.simps[of f])
    next
      case ConnW
      then show ?thesis using 3 fl by (simp add: writer_Flush.simps[of f] conn_Write_no_faults split: prod.split)
    next
      case (LessW w)
      obtain o1 w1 h1 where w1: "writer_Write (slice_get h b) (w, h) = (o1, w1, h1)" by (cases "writer_Write (slice_get h b) (w, h)")
      then have f1: "faults h1 = []" using writer_Write_faults fl by metis
      obtain o2 f2 where c: "writer_cut f = (o2, f2)" by fastforce
      have ih: "faults (snd (snd (writer_Flush (w1, h1)))) = []" if "o1 = Ok u" "o2 = Ok v" for u v
        using "1.IH"(2)[OF 3(1) _ 3(3) 3(4) LessW] 3(2) w1 c that f1 by auto
      show ?thesis
      proof (cases o1)
        case (Ok u)
        then show ?thesis
          using 3 LessW w1 c ih[OF Ok] f1 by (cases o2) (auto simp: writer_Flush.simps[of f] split: prod.split)
      qed (use 3 LessW w1 f1 in \<open>simp_all add: writer_Flush.simps[of f]\<close>)
    qed
  qed
qed

text \<open>
  \<open>stg\<close> is what has been written and not flushed, \<open>out\<close> what the connection has taken. A
  \<open>live\<close> writer accepts any number of further bytes.
\<close>

locale byte_writer =
  fixes append_bytes :: "bytes \<Rightarrow> 's \<Rightarrow> nat outcome \<times> 's"
    and flush :: "'s \<Rightarrow> unit outcome \<times> 's"
    and inv :: "'s \<Rightarrow> bool"
    and live :: "'s \<Rightarrow> bool"
    and acc :: "'s \<Rightarrow> bool"
    and stg :: "'s \<Rightarrow> bytes"
    and out :: "'s \<Rightarrow> bytes"
  assumes write_law: "inv s \<Longrightarrow> live s \<Longrightarrow>
      \<exists>s'. append_bytes bs s = (Ok (length bs), s') \<and> inv s' \<and> live s' \<and> stg s' = stg s @ bs \<and>
        out s' = out s \<and> acc s' = acc s"
    and flush_law: "inv s \<Longrightarrow> acc s \<Longrightarrow>
      \<exists>s'. flush s = (Ok (), s') \<and> inv s' \<and> stg s' = [] \<and> out s' = out s @ stg s"
begin

lemma writeE:
  assumes "inv s" and "live s"
  obtains s' where "append_bytes bs s = (Ok (length bs), s')" and "inv s'" and "live s'"
    and "stg s' = stg s @ bs" and "out s' = out s" and "acc s' = acc s"
  using write_law[OF assms, of bs] by blast

lemma flushE:
  assumes "inv s" and "acc s"
  obtains s' where "flush s = (Ok (), s')" and "inv s'" and "stg s' = []" and "out s' = out s @ stg s"
  using flush_law[OF assms] by blast

lemma write_flush:
  assumes "inv s" and "live s" and "acc s"
  obtains s' s'' where "append_bytes bs s = (Ok (length bs), s')" and "flush s' = (Ok (), s'')"
    and "out s'' = out s @ stg s @ bs" and "stg s'' = []"
proof -
  obtain s' where 1: "append_bytes bs s = (Ok (length bs), s')" "inv s'" "stg s' = stg s @ bs"
      "out s' = out s" "acc s' = acc s"
    using assms(1,2) by (rule writeE)
  with assms(3) obtain s'' where "flush s' = (Ok (), s'')" "stg s'' = []" "out s'' = out s' @ stg s'"
    by (metis flushE)
  with 1 show thesis by (intro that[of s' s'']) simp_all
qed

end

fun writer_inv :: "writer \<times> world \<Rightarrow> bool" where
  "writer_inv (Writer f ConnW, h) \<longleftrightarrow> wf_inv f h \<and> \<not> writeDirectly f \<and> w_growable f"
| "writer_inv (Writer f (LessW w), h) \<longleftrightarrow> writeDirectly f \<and> writer_inv (w, h)"
| "writer_inv (Writer f NilW, h) \<longleftrightarrow> False"

fun writer_live :: "writer \<times> world \<Rightarrow> bool" where
  "writer_live (Writer f (LessW w), h) = writer_live (w, h)"
| "writer_live (Writer f d, h) \<longleftrightarrow>
     0 < s_cap (w_buff f) \<and> w_index f \<le> int (s_len (w_buff f))"

fun writer_staged :: "writer \<times> world \<Rightarrow> bytes" where
  "writer_staged (Writer f (LessW w), h) = writer_staged (w, h)"
| "writer_staged (Writer f d, h) = staged f h"

text \<open>The buffered writer at the end of a chain.\<close>

fun writer_base :: "writer \<Rightarrow> wfields" where
  "writer_base (Writer f (LessW w)) = writer_base w"
| "writer_base (Writer f d) = f"

fun chain_ok :: "writer \<Rightarrow> bool" where
  "chain_ok (Writer f ConnW) \<longleftrightarrow> \<not> writeDirectly f \<and> w_growable f"
| "chain_ok (Writer f (LessW w)) \<longleftrightarrow> writeDirectly f \<and> chain_ok w"
| "chain_ok (Writer f NilW) \<longleftrightarrow> False"

lemma writer_inv_base: "writer_inv (w, h) \<longleftrightarrow> chain_ok w \<and> wf_inv (writer_base w) h"
  by (induction w rule: chain_ok.induct) auto

lemma writer_staged_base: "writer_staged (w, h) = staged (writer_base w) h"
  by (induction w rule: writer_base.induct) auto

lemma writer_live_base: "writer_live (w, h) \<longleftrightarrow>
    0 < s_cap (w_buff (writer_base w)) \<and>
    w_index (writer_base w) \<le> int (s_len (w_buff (writer_base w)))"
  by (induction w rule: writer_base.induct) auto

lemma writer_Write_law:
  "writer_inv s \<Longrightarrow> writer_live s \<Longrightarrow>
   \<exists>s'. writer_Write bs s = (Ok (length bs), s') \<and> writer_inv s' \<and> writer_live s' \<and>
     writer_staged s' = writer_staged s @ bs \<and> sent (snd s') = sent (snd s) \<and>
     faults (snd s') = faults (snd s) \<and>
     writer_MallocLength (fst s') = writer_MallocLength (fst s) + int (length bs) \<and>
     w_index (writer_base (fst s')) = w_index (writer_base (fst s)) + int (length bs) \<and>
     preWriteIndex (writer_base (fst s')) = preWriteIndex (writer_base (fst s)) \<and>
     (wf_room (writer_base (fst s)) (length bs) \<longrightarrow>
       w_buff (writer_base (fst s')) = w_buff (writer_base (fst s))) \<and>
     (\<not> wf_room (writer_base (fst s)) (length bs) \<longrightarrow>
       s_arr (w_buff (writer_base (fst s'))) = brk (snd s))"
proof (induction s rule: writer_inv.induct)
  case (1 f h)
  then have "wf_inv f h" "wf_fits f (length bs)"
    by (auto simp: wf_fits_def wf_room_def)
  then obtain b h' where "writer_store bs (f, h)
        = (Ok (length bs), f\<lparr>w_buff := b, w_index := w_index f + int (length bs)\<rparr>, h')"
      "wf_inv (f\<lparr>w_buff := b, w_index := w_index f + int (length bs)\<rparr>) h'"
      "staged (f\<lparr>w_buff := b, w_index := w_index f + int (length bs)\<rparr>) h' = staged f h @ bs"
      "sent h' = sent h" "faults h' = faults h" "w_index f + int (length bs) \<le> int (s_len b)"
      "0 < s_cap (w_buff f) \<longrightarrow> 0 < s_cap b"
      "\<not> wf_room f (length bs) \<longrightarrow> s_arr b = brk h" "wf_room f (length bs) \<longrightarrow> b = w_buff f"
    by (rule writer_store_ok)
  with 1 show ?case by (simp add: writer_MallocLength_def)
next
  case (2 f w h)
  then obtain w' h' where "writer_Write bs (w, h) = (Ok (length bs), w', h')" "writer_inv (w', h')"
      "writer_live (w', h')" "writer_staged (w', h') = writer_staged (w, h) @ bs"
      "sent h' = sent h" "faults h' = faults h"
      "w_index (writer_base w') = w_index (writer_base w) + int (length bs)"
      "preWriteIndex (writer_base w') = preWriteIndex (writer_base w)"
      "wf_room (writer_base w) (length bs) \<longrightarrow> w_buff (writer_base w') = w_buff (writer_base w)"
      "\<not> wf_room (writer_base w) (length bs) \<longrightarrow> s_arr (w_buff (writer_base w')) = brk h"
    by auto
  with 2 show ?case by (simp add: writer_MallocLength_def)
qed simp

text \<open>\<open>Malloc\<close> appends zeros and returns the slice of the buffer that holds them.\<close>

lemma writer_Malloc_law:
  "writer_inv s \<Longrightarrow> writer_live s \<Longrightarrow>
   \<exists>s'. writer_Malloc (int n) s
       = (Ok (subslice (w_buff (writer_base (fst s'))) (nat (w_index (writer_base (fst s)))) n), s') \<and>
     writer_inv s' \<and> writer_live s' \<and>
     writer_staged s' = writer_staged s @ replicate n 0 \<and> sent (snd s') = sent (snd s) \<and>
     faults (snd s') = faults (snd s) \<and>
     writer_MallocLength (fst s') = writer_MallocLength (fst s) + int n \<and>
     w_index (writer_base (fst s')) = w_index (writer_base (fst s)) + int n \<and>
     preWriteIndex (writer_base (fst s')) = preWriteIndex (writer_base (fst s)) \<and>
     (wf_room (writer_base (fst s)) n \<longrightarrow>
       w_buff (writer_base (fst s')) = w_buff (writer_base (fst s))) \<and>
     (\<not> wf_room (writer_base (fst s)) n \<longrightarrow>
       s_arr (w_buff (writer_base (fst s'))) = brk (snd s))"
proof (induction s rule: writer_inv.induct)
  case (1 f h)
  then have "wf_inv f h" "wf_fits f n"
    by (auto simp: wf_fits_def wf_room_def)
  then obtain b h' where r: "writer_reserve (int n) (f, h)
        = (Ok (subslice b (nat (w_index f)) n), f\<lparr>w_buff := b, w_index := w_index f + int n\<rparr>, h')"
      "wf_inv (f\<lparr>w_buff := b, w_index := w_index f + int n\<rparr>) h'"
      "staged (f\<lparr>w_buff := b, w_index := w_index f + int n\<rparr>) h' = staged f h @ replicate n 0"
      "sent h' = sent h" "faults h' = faults h" "w_index f + int n \<le> int (s_len b)"
      "wf_room f n \<longrightarrow> b = w_buff f \<and> h' = h" "\<not> wf_room f n \<longrightarrow> s_arr b = brk h"
    by (rule writer_reserve_ok)
  have "0 < s_cap b"
  proof (cases "wf_room f n")
    case False
    then have "0 < n" using 1 by (auto simp: wf_room_def)
    then show ?thesis using r(2,6) 1 by (auto simp: wf_inv_def)
  qed (use r(7) 1 in auto)
  with r 1 show ?case by (simp add: writer_MallocLength_def)
next
  case (2 f w h)
  then obtain s' where "writer_Malloc (int n) (w, h) =
        (Ok (subslice (w_buff (writer_base (fst s'))) (nat (w_index (writer_base w))) n), s')"
      "writer_inv s'" "writer_live s'"
      "writer_staged s' = writer_staged (w, h) @ replicate n 0" "sent (snd s') = sent h"
      "faults (snd s') = faults h"
      "w_index (writer_base (fst s')) = w_index (writer_base w) + int n"
      "preWriteIndex (writer_base (fst s')) = preWriteIndex (writer_base w)"
      "wf_room (writer_base w) n \<longrightarrow> w_buff (writer_base (fst s')) = w_buff (writer_base w)"
      "\<not> wf_room (writer_base w) n \<longrightarrow> s_arr (w_buff (writer_base (fst s'))) = brk h"
    by auto
  with 2 show ?case by (cases s') (simp add: writer_MallocLength_def)
qed simp

text \<open>Arrays are only ever added.\<close>

lemma check_brk: "brk h \<le> brk (snd (snd (writer_checkWriteable n (f, h))))"
  by (simp add: writer_checkWriteable_def make_slice_def Let_def split: outcome.splits option.splits)

lemma writer_store_brk: "brk h \<le> brk (snd (snd (writer_store bs (f, h))))"
  using check_brk[of h "int (length bs)" f]
  by (cases "writer_checkWriteable (int (length bs)) (f, h)" rule: prod_cases3, rename_tac out f' h',
      case_tac out) (auto simp: writer_store_def split: outcome.splits)

lemma writer_reserve_brk: "brk h \<le> brk (snd (snd (writer_reserve n (f, h))))"
  using check_brk[of h n f]
  by (cases "writer_checkWriteable n (f, h)" rule: prod_cases3, rename_tac out f' h',
      case_tac out) (auto simp: writer_reserve_def split: outcome.splits)

lemma writer_Write_brk: "writer_Write bs (w, h) = (out, w', h') \<Longrightarrow> brk h \<le> brk h'"
proof (induction bs "(w, h)" arbitrary: w h out w' h' rule: writer_Write.induct)
  case (1 buf f w h)
  then show ?case using writer_store_brk[of h buf f]
    by (auto split: if_splits outcome.splits prod.splits)
qed (use writer_store_brk in \<open>auto split: if_splits prod.splits simp: prod_eq_iff\<close>)

lemma writer_Malloc_brk: "writer_Malloc n (w, h) = (out, w', h') \<Longrightarrow> brk h \<le> brk h'"
proof (induction n "(w, h)" arbitrary: w h out w' h' rule: writer_Malloc.induct)
  case (1 n f w h)
  then show ?case using writer_reserve_brk[of h n f]
    by (auto split: if_splits outcome.splits prod.splits)
qed (use writer_reserve_brk in \<open>auto split: if_splits prod.splits simp: prod_eq_iff\<close>)

lemma writer_Flush_law:
  "writer_inv s \<Longrightarrow> accepts (snd s) \<Longrightarrow>
   \<exists>s'. writer_Flush s = (Ok (), s') \<and> writer_inv s' \<and> writer_staged s' = [] \<and>
     sent (snd s') = sent (snd s) @ writer_staged s"
proof (induction s rule: writer_inv.induct)
  case (1 f h)
  then have "wf_inv f h" "w_growable f" "\<not> writeDirectly f" "accepts h" by auto
  then obtain f' h' where "writer_Flush (Writer f ConnW, h) = (Ok (), Writer f' ConnW, h')"
      "wf_inv f' h'" "staged f' h' = []" "sent h' = sent h @ staged f h"
      "writeDirectly f' = writeDirectly f" "w_growable f' = w_growable f"
    by (rule writer_Flush_conn_ok)
  with 1 show ?case by simp
next
  case (2 f w h)
  then obtain w' h' where "writer_Flush (w, h) = (Ok (), w', h')" "writer_inv (w', h')"
      "writer_staged (w', h') = []" "sent h' = sent h @ writer_staged (w, h)"
    by auto
  with 2 show ?case by (simp add: writer_Flush.simps[of f])
qed simp

text \<open>A buffered writer on a connection, and a chain of wrappers around one, keep the contract.\<close>

interpretation wr: byte_writer writer_Write writer_Flush writer_inv writer_live
  "\<lambda>s. accepts (snd s)" writer_staged "\<lambda>s. sent (snd s)"
proof
  show "\<exists>s'. writer_Write bs s = (Ok (length bs), s') \<and> writer_inv s' \<and> writer_live s' \<and>
      writer_staged s' = writer_staged s @ bs \<and> sent (snd s') = sent (snd s) \<and>
      accepts (snd s') = accepts (snd s)" if "writer_inv s" "writer_live s" for s bs
    using writer_Write_law[OF that, of bs] by (auto simp: accepts_def)
qed (blast intro: writer_Flush_law)

lemma NewBufferWriter_ok:
  assumes "NewBufferWriter ConnW h = (w, h')"
  shows "writer_inv (w, h')" and "writer_live (w, h')" and "writer_staged (w, h') = []"
    and "sent h' = sent h" and "faults h' = faults h"
  using assms
  by (auto simp: NewBufferWriter_def make_slice_def defaultBufferSize_def wf_inv_def
      slice_valid_def slice_get_def staged_def Let_def)

end
