(* ===== verification/Append.thy ===== *)
theory Append
  imports Writer
begin

text \<open>
  What a writer looks like after some bytes have been appended to it, as a relation that
  composes: the codecs build a message from several \<open>Write\<close> and \<open>Malloc\<close> calls on a chain of
  writers. It also records whether the buffer is still the same array, because a slice that
  \<open>Malloc\<close> returned earlier is part of the message only as long as it is.
\<close>

abbreviation base_of :: "writer \<times> world \<Rightarrow> wfields" where
  "base_of s \<equiv> writer_base (fst s)"

text \<open>The write indices of all writers of a chain.\<close>

fun indices :: "writer \<Rightarrow> int list" where
  "indices (Writer f (LessW w)) = w_index f # indices w"
| "indices (Writer f d) = [w_index f]"

lemma hd_indices: "hd (indices w) = writer_MallocLength w"
  by (cases w rule: indices.cases) (simp_all add: writer_MallocLength_def)

lemma indices_not_Nil [simp]: "indices w \<noteq> []"
  by (cases w rule: indices.cases) simp_all

definition appends :: "bytes \<Rightarrow> writer \<times> world \<Rightarrow> writer \<times> world \<Rightarrow> bool" where
  "appends bs s s' \<longleftrightarrow>
     writer_inv s' \<and> writer_live s' \<and>
     indices (fst s') = map (\<lambda>i. i + int (length bs)) (indices (fst s)) \<and>
     writer_staged s' = writer_staged s @ bs \<and>
     sent (snd s') = sent (snd s) \<and> faults (snd s') = faults (snd s) \<and>
     w_index (base_of s') = w_index (base_of s) + int (length bs) \<and>
     preWriteIndex (base_of s') = preWriteIndex (base_of s) \<and>
     brk (snd s) \<le> brk (snd s') \<and>
     (if wf_room (base_of s) (length bs) then w_buff (base_of s') = w_buff (base_of s)
      else brk (snd s) \<le> s_arr (w_buff (base_of s')))"

lemma appendsD:
  assumes "appends bs s s'"
  shows "writer_inv s'" "writer_live s'" "writer_staged s' = writer_staged s @ bs"
    "sent (snd s') = sent (snd s)" "faults (snd s') = faults (snd s)"
    "writer_MallocLength (fst s') = writer_MallocLength (fst s) + int (length bs)"
proof -
  show "writer_MallocLength (fst s') = writer_MallocLength (fst s) + int (length bs)"
    using assms by (simp flip: hd_indices add: appends_def hd_map)
qed (use assms in \<open>simp_all add: appends_def\<close>)

lemma appends_nil: "writer_inv s \<Longrightarrow> writer_live s \<Longrightarrow> appends [] s s"
  by (simp add: appends_def wf_room_def writer_live_base[of "fst s" "snd s", simplified])

lemma writer_inv_arr: "writer_inv s \<Longrightarrow> s_arr (w_buff (base_of s)) < brk (snd s)"
  using writer_inv_base[of "fst s" "snd s"] by (simp add: wf_inv_def slice_valid_def)

lemma appends_trans:
  assumes "appends bs s t" and "appends cs t u"
  shows "appends (bs @ cs) s u"
proof -
  have room: "wf_room (base_of s) (length (bs @ cs)) \<Longrightarrow>
      wf_room (base_of s) (length bs) \<and> wf_room (base_of t) (length cs)"
    using assms(1) by (auto simp: wf_room_def appends_def)
  show ?thesis
  proof (cases "wf_room (base_of s) (length (bs @ cs))")
    case True
    with room assms show ?thesis by (simp add: appends_def)
  next
    case False
    have "brk (snd s) \<le> s_arr (w_buff (base_of u))"
    proof (cases "wf_room (base_of t) (length cs)")
      case in_place: True
      then have "\<not> wf_room (base_of s) (length bs)"
        using False assms(1) by (auto simp: wf_room_def appends_def split: if_splits)
      with in_place assms show ?thesis by (simp add: appends_def)
    qed (use assms in \<open>auto simp: appends_def\<close>)
    with False assms show ?thesis by (simp add: appends_def)
  qed
qed

lemma writer_store_index:
  "writer_store bs (f, h) = (Ok n, f', h') \<Longrightarrow> n = length bs \<and> w_index f' = w_index f + int (length bs)"
  by (auto simp: writer_store_def writer_checkWriteable_def and_then_Ok_iff Let_def
      split: if_splits outcome.splits option.splits prod.splits)

lemma writer_reserve_index:
  "writer_reserve n (f, h) = (Ok buf, f', h') \<Longrightarrow> w_index f' = w_index f + n"
  by (auto simp: writer_reserve_def writer_checkWriteable_def and_then_Ok_iff Let_def
      split: if_splits outcome.splits option.splits prod.splits)

lemma writer_Write_indices:
  "writer_Write bs (w, h) = (Ok n, w', h') \<Longrightarrow> chain_ok w \<Longrightarrow>
   n = length bs \<and> indices w' = map (\<lambda>i. i + int (length bs)) (indices w)"
  by (induction bs "(w, h)" arbitrary: w h n w' h' rule: writer_Write.induct)
    (auto split: if_splits outcome.splits prod.splits dest: writer_store_index)

lemma writer_Malloc_indices:
  "writer_Malloc n (w, h) = (Ok buf, w', h') \<Longrightarrow> chain_ok w \<Longrightarrow>
   indices w' = map (\<lambda>i. i + n) (indices w)"
  by (induction n "(w, h)" arbitrary: w h buf w' h' rule: writer_Malloc.induct)
    (auto split: if_splits outcome.splits prod.splits dest: writer_reserve_index)

lemma appends_Write:
  assumes "writer_inv s" and "writer_live s"
  obtains s' where "writer_Write bs s = (Ok (length bs), s')" and "appends bs s s'"
proof -
  obtain w h where s: "s = (w, h)" by fastforce
  from writer_Write_law[OF assms, of bs] obtain w' h' where
    wr: "writer_Write bs (w, h) = (Ok (length bs), w', h')" and
    law: "writer_inv (w', h') \<and> writer_live (w', h') \<and>
      writer_staged (w', h') = writer_staged s @ bs \<and> sent h' = sent h \<and> faults h' = faults h \<and>
      w_index (writer_base w') = w_index (writer_base w) + int (length bs) \<and>
      preWriteIndex (writer_base w') = preWriteIndex (writer_base w) \<and>
      (wf_room (writer_base w) (length bs) \<longrightarrow> w_buff (writer_base w') = w_buff (writer_base w)) \<and>
      (\<not> wf_room (writer_base w) (length bs) \<longrightarrow> s_arr (w_buff (writer_base w')) = brk h)"
    unfolding s by auto
  have "chain_ok w" using assms(1) by (simp add: s writer_inv_base)
  with wr law writer_Write_indices[OF wr] writer_Write_brk[OF wr] show thesis
    by (intro that[of "(w', h')"]) (simp_all add: s appends_def)
qed

text \<open>\<open>Malloc\<close> followed by filling in the slice it returned.\<close>

definition malloc_put :: "bytes \<Rightarrow> writer \<times> world \<Rightarrow> unit outcome \<times> writer \<times> world" where
  "malloc_put bs s =
     and_then (writer_Malloc (int (length bs)) s)
       (\<lambda>buf (w, h). case put_word buf bs h of (out, h') \<Rightarrow> (out, w, h'))"

lemma writer_Malloc_appends:
  assumes "writer_inv s" and "writer_live s"
  obtains s' where "writer_Malloc (int n) s
      = (Ok (subslice (w_buff (base_of s')) (nat (w_index (base_of s))) n), s')"
    and "appends (replicate n 0) s s'"
proof -
  obtain w h where s: "s = (w, h)" by fastforce
  from writer_Malloc_law[OF assms, of n] obtain w' h' where
    ml: "writer_Malloc (int n) (w, h)
        = (Ok (subslice (w_buff (writer_base w')) (nat (w_index (writer_base w))) n), w', h')" and
    law: "writer_inv (w', h') \<and> writer_live (w', h') \<and>
      writer_staged (w', h') = writer_staged s @ replicate n 0 \<and> sent h' = sent h \<and>
      faults h' = faults h \<and> w_index (writer_base w') = w_index (writer_base w) + int n \<and>
      preWriteIndex (writer_base w') = preWriteIndex (writer_base w) \<and>
      (wf_room (writer_base w) n \<longrightarrow> w_buff (writer_base w') = w_buff (writer_base w)) \<and>
      (\<not> wf_room (writer_base w) n \<longrightarrow> s_arr (w_buff (writer_base w')) = brk h)"
    unfolding s by auto
  have "chain_ok w" using assms(1) by (simp add: s writer_inv_base)
  with ml law writer_Malloc_indices[OF ml] writer_Malloc_brk[OF ml] show thesis
    by (intro that[of "(w', h')"]) (simp_all add: s appends_def)
qed

text \<open>Filling in a slice of the current buffer that was reserved behind the staged bytes.\<close>

lemma appends_put:
  assumes inv: "writer_inv s" and a: "appends (as @ replicate k 0 @ cs) s (w, h)"
    and len: "length bs \<le> k" "0 < k"
  defines "i \<equiv> nat (w_index (base_of s)) + length as"
  defines "h' \<equiv> slice_put (subslice (w_buff (writer_base w)) i k) bs h"
  shows "put_word (subslice (w_buff (writer_base w)) i k) bs h = (Ok (), h')"
    and "appends (as @ bs @ replicate (k - length bs) 0 @ cs) s (w, h')"
proof -
  let ?f = "writer_base w" and ?q = "nat (preWriteIndex (base_of s))"
  let ?l = "writer_staged s"
  have q: "0 \<le> preWriteIndex (base_of s)" "preWriteIndex (base_of s) \<le> w_index (base_of s)"
    using inv writer_inv_base[of "fst s" "snd s"] by (simp_all add: wf_inv_def)
  have w: "writer_inv (w, h)" "w_index ?f = w_index (base_of s) + int (length as + k + length cs)"
      "preWriteIndex ?f = preWriteIndex (base_of s)"
      "writer_staged (w, h) = ?l @ as @ replicate k 0 @ cs"
    using a by (simp_all add: appends_def)
  have wi: "wf_inv ?f h" using w(1) by (simp add: writer_inv_base)
  have pq: "preWriteIndex ?f = int ?q" using w(3) q by simp
  have qi: "?q \<le> i" using q by (simp add: i_def nat_mono trans_le_add1)
  have ik: "int i + int k \<le> w_index ?f" using q w(2) by (simp add: i_def)
  note put = put_word_ok[OF wi ik pq qi len, folded h'_def]
  show "put_word (subslice (w_buff ?f) i k) bs h = (Ok (), h')" by (rule put(1))
  have ll: "length ?l = nat (w_index (base_of s)) - ?q"
  proof -
    have "wf_inv (base_of s) (snd s)" using inv writer_inv_base[of "fst s" "snd s"] by simp
    then have "preWriteIndex (base_of s) = w_index (base_of s) \<or>
        w_index (base_of s) \<le> int (length (slice_get (snd s) (w_buff (base_of s))))"
      by (auto simp: wf_inv_def)
    then show ?thesis
      using q writer_staged_base[of "fst s" "snd s"]
      by (auto simp: staged_def nat_diff_distrib')
  qed
  have i: "i - ?q = length ?l + length as"
    using ll q by (simp add: i_def nat_mono)
  have "staged ?f h' = ?l @ as @ bs @ replicate (k - length bs) 0 @ cs"
    using put(3) w(4) len by (simp add: i writer_staged_base[symmetric])
  moreover have "writer_inv (w, h')" "writer_live (w, h')"
    using w(1) put(2) a by (simp_all add: writer_inv_base writer_live_base appends_def)
  ultimately show "appends (as @ bs @ replicate (k - length bs) 0 @ cs) s (w, h')"
    using a len by (simp add: appends_def writer_staged_base h'_def) (auto split: if_splits)
qed

lemma appends_malloc_put:
  assumes inv: "writer_inv s" and live: "writer_live s" and ne: "bs \<noteq> []"
  obtains s' where "malloc_put bs s = (Ok (), s')" and "appends bs s s'"
proof -
  obtain w h where m: "writer_Malloc (int (length bs)) s
        = (Ok (subslice (w_buff (writer_base w)) (nat (w_index (base_of s))) (length bs)), w, h)"
      "appends (replicate (length bs) 0) s (w, h)"
    using writer_Malloc_appends[OF inv live, of "length bs"] by (metis fst_conv prod.collapse)
  have "appends ([] @ replicate (length bs) 0 @ []) s (w, h)" using m(2) by simp
  from appends_put[OF inv this, of bs] ne m(1) show thesis
    by (intro that[of "(w, slice_put (subslice (w_buff (writer_base w))
        (nat (w_index (base_of s))) (length bs)) bs h)"]) (simp_all add: malloc_put_def)
qed

end
