(* ===== verification/Payload.thy ===== *)
theory Payload
  imports Append
begin

text \<open>
  Payload codecs: text (\<^verbatim>\<open>codec/payload/text.go\<close>), JSON (\<^verbatim>\<open>codec/payload/json.go\<close>) and the codec of
  the framework's own messages (\<^verbatim>\<open>internal/msg\<close>). Their contract, the interface that the packet
  codecs rely on, is the locale \<open>payload_contract\<close>.
\<close>

section \<open>Messages (internal/msg/message.go)\<close>

record lessMessage =
  Magic :: uint32
  MsgType :: uint16
  Body :: bytes

text \<open>
  A value of type \<^verbatim>\<open>interface{}\<close>, by the dynamic types the code distinguishes (\<open>KeepalivePing\<close> and
  \<open>KeepaliveGoAway\<close> are the marker values of the package \<^verbatim>\<open>keepalive\<close>); \<open>'v\<close> are the values of the
  application.
\<close>

datatype 'v message =
    NilMsg
  | StringMsg bytes
  | BytesMsg bytes
  | LessMsg lessMessage
  | KeepalivePing
  | KeepaliveGoAway
  | ValueMsg 'v

definition MAGIC :: uint32 where "MAGIC = 76698383"
definition Call :: uint16 where "Call = 1"
definition Reply :: uint16 where "Reply = 2"
definition Oneway :: uint16 where "Oneway = 3"

definition NewMessage :: "uint16 \<Rightarrow> bytes \<Rightarrow> lessMessage" where
  "NewMessage msgType body = \<lparr>Magic = MAGIC, MsgType = msgType, Body = body\<rparr>"

section \<open>The interface PayloadCodec (codec/codec.go)\<close>

record 'v payload_codec =
  Name :: string
  Marshal :: "'v message \<Rightarrow> writer \<times> world \<Rightarrow> unit outcome \<times> writer \<times> world"
  UnMarshal :: "reader \<Rightarrow> 'v message outcome \<times> reader"

definition write_all :: "bytes \<Rightarrow> writer \<times> world \<Rightarrow> unit outcome \<times> writer \<times> world" where
  "write_all bs s = and_then (writer_Write bs s) (\<lambda>_ s. (Ok (), s))"

subsection \<open>Text (codec/payload/text.go)\<close>

fun textPayloadCodec_Marshal :: "'v message \<Rightarrow> writer \<times> world \<Rightarrow> unit outcome \<times> writer \<times> world" where
  "textPayloadCodec_Marshal (StringMsg b) s = write_all b s"
| "textPayloadCodec_Marshal (BytesMsg b) s = write_all b s"
| "textPayloadCodec_Marshal _ s = (Err ErrMessageNotString, s)"

definition textPayloadCodec_UnMarshal :: "reader \<Rightarrow> 'v message outcome \<times> reader" where
  "textPayloadCodec_UnMarshal r =
     and_then (reader_Next r (reader_Length r)) (\<lambda>content r. (Ok (StringMsg content), r))"

definition NewTextCodec :: "'v payload_codec" where
  "NewTextCodec = \<lparr>Name = ''text-payload-codec'', Marshal = textPayloadCodec_Marshal,
                   UnMarshal = textPayloadCodec_UnMarshal\<rparr>"

subsection \<open>JSON (codec/payload/json.go)\<close>

text \<open>
  The functions of \<^verbatim>\<open>encoding/json\<close> and \<^verbatim>\<open>reflect\<close> that the codec calls, on the values of the
  application. \<open>json_Unmarshal None\<close> decodes into a \<^verbatim>\<open>map[string]interface{}\<close>.
\<close>

datatype go_type = TBasic nat | TPtr go_type

record 'v json_lib =
  json_Marshal :: "'v message \<Rightarrow> bytes outcome"
  json_Unmarshal :: "go_type option \<Rightarrow> bytes \<Rightarrow> 'v message outcome"
  TypeOf :: "'v message \<Rightarrow> go_type"
  IsNilPtr :: "'v message \<Rightarrow> bool"

definition parseType :: "'v json_lib \<Rightarrow> 'v message \<Rightarrow> go_type outcome" where
  "parseType lib msg =
     (if msg = NilMsg then Panic (InvalidArgument ''msg type can not be nil'')
      else case TypeOf lib msg of
        TPtr t \<Rightarrow> if IsNilPtr lib msg then Panic NilDereference else Ok t
      | t \<Rightarrow> Ok t)"

definition jsonPayloadCodec_Marshal ::
    "'v json_lib \<Rightarrow> 'v message \<Rightarrow> writer \<times> world \<Rightarrow> unit outcome \<times> writer \<times> world" where
  "jsonPayloadCodec_Marshal lib message s =
     and_then (json_Marshal lib message, s) (\<lambda>marshal s. write_all marshal s)"

definition jsonPayloadCodec_UnMarshal ::
    "'v json_lib \<Rightarrow> go_type option \<Rightarrow> reader \<Rightarrow> 'v message outcome \<times> reader" where
  "jsonPayloadCodec_UnMarshal lib msgType r =
     and_then (reader_Next r (reader_Length r)) (\<lambda>msg r. (json_Unmarshal lib msgType msg, r))"

definition jsonPayloadCodec :: "'v json_lib \<Rightarrow> go_type option \<Rightarrow> 'v payload_codec" where
  "jsonPayloadCodec lib msgType =
     \<lparr>Name = ''json-payload-codec'', Marshal = jsonPayloadCodec_Marshal lib,
      UnMarshal = jsonPayloadCodec_UnMarshal lib msgType\<rparr>"

definition NewJSONCodecWithType :: "'v json_lib \<Rightarrow> 'v message \<Rightarrow> 'v payload_codec outcome" where
  "NewJSONCodecWithType lib msg =
     (case parseType lib msg of
        Ok t \<Rightarrow> Ok (jsonPayloadCodec lib (Some t))
      | Err e \<Rightarrow> Err e
      | Panic p \<Rightarrow> Panic p
      | Hang \<Rightarrow> Hang)"

definition NewJSONCodec :: "'v json_lib \<Rightarrow> 'v payload_codec" where
  "NewJSONCodec lib = jsonPayloadCodec lib None"

subsection \<open>Messages of the framework (internal/msg/codec.go)\<close>

definition MAGICLength :: int where "MAGICLength = 4"
definition TypeLength :: int where "TypeLength = 2"

definition LessMessagePayloadCodec_Marshal ::
    "'v payload_codec \<Rightarrow> 'v message \<Rightarrow> writer \<times> world \<Rightarrow> unit outcome \<times> writer \<times> world" where
  "LessMessagePayloadCodec_Marshal c message s =
     (case message of
        LessMsg msg \<Rightarrow>
          and_then (malloc_put (PutUint32 (Magic msg)) s) (\<lambda>_ s.
          and_then (malloc_put (PutUint16 (MsgType msg)) s) (\<lambda>_ s.
          write_all (Body msg) s))
      | _ \<Rightarrow> Marshal c message s)"

definition LessMessagePayloadCodec_UnMarshal ::
    "'v payload_codec \<Rightarrow> reader \<Rightarrow> 'v message outcome \<times> reader" where
  "LessMessagePayloadCodec_UnMarshal c r =
     (if reader_Length r < MAGICLength + TypeLength then UnMarshal c r
      else
        and_then (reader_Peek r MAGICLength) (\<lambda>magic r.
        and_then (Uint32 magic, r) (\<lambda>v r.
        if v \<noteq> MAGIC then UnMarshal c r
        else
          and_then (ignore_err (reader_Skip r MAGICLength)) (\<lambda>_ r.
          and_then (reader_Next r TypeLength) (\<lambda>msgType r.
          and_then (Uint16 msgType, r) (\<lambda>t r.
          and_then (reader_Next r (reader_Length r - MAGICLength - TypeLength)) (\<lambda>body r.
            (Ok (LessMsg \<lparr>Magic = MAGIC, MsgType = t, Body = body\<rparr>), r))))))))"

definition NewLessMsgPayloadCodec :: "'v payload_codec \<Rightarrow> 'v payload_codec" where
  "NewLessMsgPayloadCodec c =
     \<lparr>Name = ''less-message-payload-codec'', Marshal = LessMessagePayloadCodec_Marshal c,
      UnMarshal = LessMessagePayloadCodec_UnMarshal c\<rparr>"

end
