(* ===== verification/ReaderSession.thy ===== *)
theory ReaderSession
  imports Reader
begin

text \<open>
  Sequences of reader operations: \<open>Until\<close>, the scanning loop of \<^verbatim>\<open>buffer.go\<close>; sessions of
  \<open>Peek\<close>, \<open>Next\<close> and \<open>Skip\<close> calls, whose results do not depend on how the network cuts the
  stream into segments; and frames read through a limit reader.
\<close>

section \<open>Until (buffer.go)\<close>

text \<open>The bytes a reader has at its disposal, also when its indices are out of order.\<close>

definition bytes_left :: "bufferReader \<Rightarrow> nat" where
  "bytes_left r = nat (writeIndex r - readIndex r) +
     (case r_decorator r of None \<Rightarrow> 0 | Some s \<Rightarrow> length (flat s))"

lemma fill_supply:
  assumes "bufferReader_fill r want False = (Ok bs, r')" and "0 < want"
  shows "readIndex r' = readIndex r \<and> writeIndex r' = writeIndex r + want \<and>
    (\<exists>s s'. r_decorator r = Some s \<and> r_decorator r' = Some s' \<and>
      length (flat s) = length (flat s') + nat want)"
proof -
  from assms obtain s where s: "r_decorator r = Some s"
    by (auto simp: bufferReader_fill_def slice_expr_def split: if_splits option.splits)
  show ?thesis
  proof (cases "nat want \<le> length (flat s)")
    case True
    then obtain s' where "ReadFull s (nat want) = (take (nat want) (flat s), None, s')"
        "flat s' = drop (nat want) (flat s)"
      by (rule ReadFull_enough)
    with assms s True show ?thesis
      by (auto simp: bufferReader_fill_def slice_expr_def split: if_splits)
  next
    case False
    with assms s show ?thesis
      by (auto simp: bufferReader_fill_def slice_expr_def ReadFull_short split: if_splits)
  qed
qed

lemma growth_supply:
  "bufferReader_growth r d = (Ok u, r') \<Longrightarrow>
   readIndex r' = readIndex r \<and> writeIndex r' = writeIndex r \<and> r_decorator r' = r_decorator r"
  by (auto simp: bufferReader_growth_def Let_def split: if_splits option.splits)

lemma ensureReadable_supply:
  assumes "bufferReader_ensureReadable r n False = (Ok bs, r')" and "0 < n"
  shows "readIndex r' = readIndex r \<and> n \<le> writeIndex r' - readIndex r' \<and> bytes_left r' \<le> bytes_left r"
proof (cases "n \<le> writeIndex r - readIndex r")
  case True
  with assms show ?thesis by (auto simp: bufferReader_ensureReadable_def)
next
  case False
  let ?want = "n - (writeIndex r - readIndex r)"
  from assms False obtain r1 where r1: "readIndex r1 = readIndex r" "writeIndex r1 = writeIndex r"
      "r_decorator r1 = r_decorator r" "bufferReader_fill r1 ?want False = (Ok bs, r')"
    by (auto simp: bufferReader_ensureReadable_def Let_def and_then_Ok_iff
        dest: growth_supply split: if_splits)
  from fill_supply[OF r1(4)] False r1 assms(2) show ?thesis
    by (auto simp: bytes_left_def)
qed

lemma Next_supply:
  assumes "bufferReader_Next r n = (Ok bs, r')" and "0 < n"
  shows "bytes_left r' < bytes_left r"
proof -
  from assms obtain r1 cs where r1: "bufferReader_ensureReadable r n False = (Ok cs, r1)"
      "r' = r1\<lparr>readIndex := readIndex r1 + n\<rparr>"
    by (auto simp: bufferReader_Next_def bufferReader_Peek_def and_then_Ok_iff)
  from ensureReadable_supply[OF r1(1) assms(2)] r1(2) assms(2) show ?thesis
    by (auto simp: bytes_left_def)
qed

text \<open>
  The loop of \<open>Until\<close> consumes one byte per turn, so it ends: at the delimiter, or with the
  error of the connection. It returns the number of bytes up to and including the delimiter.
\<close>

function bufferReader_until_loop ::
    "byte \<Rightarrow> bufferReader \<Rightarrow> int \<Rightarrow> int outcome \<times> bufferReader" where
  "bufferReader_until_loop delim r cnt =
     (case bufferReader_Next r 1 of
        (Ok [], r') \<Rightarrow> (Panic IndexOutOfRange, r')
      | (Ok (b # bs), r') \<Rightarrow>
          (if b \<noteq> delim then bufferReader_until_loop delim r' (cnt + 1) else (Ok cnt, r'))
      | (Err e, r') \<Rightarrow> (Err e, r')
      | (Panic p, r') \<Rightarrow> (Panic p, r')
      | (Hang, r') \<Rightarrow> (Hang, r'))"
  by pat_completeness auto
termination
  by (relation "measure (\<lambda>(delim, r, cnt). bytes_left r)") (auto dest: Next_supply[OF sym])

declare bufferReader_until_loop.simps [simp del]

definition bufferReader_Until :: "byte \<Rightarrow> bufferReader \<Rightarrow> bytes outcome \<times> bufferReader" where
  "bufferReader_Until delim r =
     (let start = readIndex r
      in and_then (bufferReader_until_loop delim r 1)
           (\<lambda>cnt r'. (slice_expr (r_buff r') start (start + cnt), r')))"

text \<open>Asking for one byte always fits: here \<open>growth\<close> is right.\<close>

lemma fits_one: "bufferReader_inv r \<Longrightarrow> r_growable r \<Longrightarrow> bufferReader_fits r (Suc 0)"
proof -
  assume inv: "bufferReader_inv r" "r_growable r"
  show ?thesis
  proof (cases "bufferReader_room r (Suc 0)")
    case False
    have "0 < int (r_len r)" using inv unfolding bufferReader_inv_def by linarith
    from double_until_Some[OF this] obtain c where
      "double_until (int (r_len r)) (writeIndex r + (readIndex r + 1 - int (r_len r))) = Some c"
      "writeIndex r + (readIndex r + 1 - int (r_len r)) \<le> c" by blast
    moreover have "int (r_len r) \<le> readIndex r" "readIndex r \<le> writeIndex r"
      using False inv by (auto simp: bufferReader_room_def bufferReader_inv_def)
    ultimately show ?thesis
      using inv(2) by (simp add: bufferReader_fits_def bufferReader_grown_def)
  qed (simp add: bufferReader_fits_def)
qed

text \<open>
  A reader moved back to an earlier \<open>readIndex\<close> makes the same bytes readable, in the same
  place of the buffer, when it is asked for as many bytes more.
\<close>

abbreviation rewind :: "int \<Rightarrow> bufferReader \<Rightarrow> bufferReader" where
  "rewind k r \<equiv> r\<lparr>readIndex := k\<rparr>"

lemma growth_rewind:
  "bufferReader_growth (rewind k r) d = map_prod id (rewind k) (bufferReader_growth r d)"
  by (simp add: bufferReader_growth_def Let_def split: option.splits)

lemma fill_rewind:
  "bufferReader_fill (rewind k r) want False = map_prod id (rewind k) (bufferReader_fill r want False)"
  by (simp add: bufferReader_fill_def slice_expr_def split: option.splits prod.splits)

lemma ensureReadable_rewind:
  "bufferReader_ensureReadable (rewind k r) (readIndex r - k + n) False
   = map_prod id (rewind k) (bufferReader_ensureReadable r n False)"
proof (cases "n \<le> writeIndex r - readIndex r")
  case False
  have w: "readIndex r - k + n - (writeIndex r - k) = n - (writeIndex r - readIndex r)" by simp
  obtain out r1 where "bufferReader_growth r
      (n - (writeIndex r - readIndex r) + writeIndex r - int (r_len r)) = (out, r1)" by fastforce
  then show ?thesis
    using False by (cases out)
      (simp_all add: bufferReader_ensureReadable_def Let_def w growth_rewind fill_rewind)
qed (simp add: bufferReader_ensureReadable_def)

lemma until_step:
  assumes inv: "bufferReader_inv r" and grow: "r_growable r" and k: "k \<le> readIndex r"
    and inv_k: "bufferReader_inv (rewind k r)" and pend: "bufferReader_pend r = b # bs"
  obtains r' where "bufferReader_Next r 1 = (Ok [b], r')" and "bufferReader_inv r'"
    and "r_growable r'" and "bufferReader_pend r' = bs" and "readIndex r' = readIndex r + 1"
    and "bufferReader_inv (rewind k r')"
    and "bufferReader_pend (rewind k r') = bufferReader_pend (rewind k r)"
proof -
  define m where "m = nat (readIndex r - k) + 1"
  have m: "readIndex r - k + 1 = int m" using k by (simp add: m_def)
  have one: "bufferReader_fits r 1" using fits_one[OF inv grow] by simp
  have len: "1 \<le> length (bufferReader_pend r)" by (simp add: pend)
  have "\<exists>r1. bufferReader_ensureReadable r (int 1) False = (Ok [], r1) \<and> bufferReader_inv r1 \<and>
      bufferReader_pend r1 = bufferReader_pend r \<and> readIndex r1 = readIndex r \<and>
      r_growable r1 = r_growable r \<and> readIndex r + int 1 \<le> writeIndex r1"
    by (rule ensureReadable_ok[OF inv zero_less_one one len]) blast
  then obtain r1 where r1: "bufferReader_ensureReadable r 1 False = (Ok [], r1)"
      "bufferReader_inv r1" "bufferReader_pend r1 = b # bs" "readIndex r1 = readIndex r"
      "r_growable r1" "readIndex r + 1 \<le> writeIndex r1"
    using grow pend by auto
  have km: "k + int m = readIndex r + 1" using m by simp
  then have "bufferReader_grown (rewind k r) m = bufferReader_grown r 1"
    by (simp add: bufferReader_grown_def)
  then have fits_k: "bufferReader_fits (rewind k r) m"
    using one km by (simp add: bufferReader_fits_def bufferReader_room_def split: option.splits)
  have "length (bufferReader_pend (rewind k r)) = length (bufferReader_pend r) + nat (readIndex r - k)"
    using length_buffered[OF inv] length_buffered[OF inv_k] k
    by (simp add: bufferReader_pend_def source_bytes_def)
  then have len_k: "m \<le> length (bufferReader_pend (rewind k r))" by (simp add: m_def pend)
  have "bufferReader_ensureReadable (rewind k r) (int m) False = (Ok [], rewind k r1)"
    using ensureReadable_rewind[of k r 1] r1(1) m by simp
  moreover have "\<exists>r2. bufferReader_ensureReadable (rewind k r) (int m) False = (Ok [], r2) \<and>
      bufferReader_inv r2 \<and> bufferReader_pend r2 = bufferReader_pend (rewind k r)"
    by (rule ensureReadable_ok[OF inv_k _ fits_k len_k]) (auto simp: m_def)
  ultimately have bk: "bufferReader_inv (rewind k r1)"
      "bufferReader_pend (rewind k r1) = bufferReader_pend (rewind k r)"
    by auto
  have "\<exists>r2. bufferReader_Next r (int 1) = (Ok (take 1 (bufferReader_pend r)), r2)"
    by (rule bufferReader_Next_ok[OF inv one len]) blast
  then have "bufferReader_Next r 1 = (Ok [b], r1\<lparr>readIndex := readIndex r1 + 1\<rparr>)"
    using r1(1) pend by (auto simp: bufferReader_Next_def bufferReader_Peek_def and_then_Ok_iff)
  moreover have "readIndex r1 + int 1 \<le> writeIndex r1" using r1 by simp
  note adv = advance_ok[OF r1(2) this]
  ultimately show thesis
    using r1 bk adv by (intro that[of "r1\<lparr>readIndex := readIndex r1 + 1\<rparr>"]) simp_all
qed

lemma until_loop_ok:
  assumes "bufferReader_inv r" and "r_growable r" and "k \<le> readIndex r"
    and "bufferReader_inv (rewind k r)"
    and "bufferReader_pend r = pre @ delim # post" and "delim \<notin> set pre"
  shows "\<exists>r'. bufferReader_until_loop delim r cnt = (Ok (cnt + int (length pre)), r') \<and>
    bufferReader_inv r' \<and> r_growable r' \<and> bufferReader_pend r' = post \<and>
    readIndex r' = readIndex r + int (length pre) + 1 \<and> bufferReader_inv (rewind k r') \<and>
    bufferReader_pend (rewind k r') = bufferReader_pend (rewind k r)"
  using assms
proof (induction pre arbitrary: r cnt)
  case Nil
  then have "bufferReader_pend r = delim # post" by simp
  with Nil.prems(1-4) show ?case
    by (rule until_step) (simp add: bufferReader_until_loop.simps[of _ r])
next
  case (Cons b pre)
  then have "bufferReader_pend r = b # pre @ delim # post" by simp
  with Cons.prems(1-4) obtain r1 where r1: "bufferReader_Next r 1 = (Ok [b], r1)" "bufferReader_inv r1"
      "r_growable r1" "bufferReader_pend r1 = pre @ delim # post" "readIndex r1 = readIndex r + 1"
      "bufferReader_inv (rewind k r1)"
      "bufferReader_pend (rewind k r1) = bufferReader_pend (rewind k r)"
    by (rule until_step)
  from Cons.IH[of r1 "cnt + 1"] r1 Cons.prems(3,6)
  show ?case by (auto simp: bufferReader_until_loop.simps[of _ r] algebra_simps)
qed

text \<open>The whole loop: the line is the stream up to and including the first delimiter.\<close>

lemma bufferReader_Until_ok:
  assumes inv: "bufferReader_inv r" and grow: "r_growable r"
    and pend: "bufferReader_pend r = pre @ delim # post" and pre: "delim \<notin> set pre"
  shows "\<exists>r'. bufferReader_Until delim r = (Ok (pre @ [delim]), r') \<and> bufferReader_inv r' \<and>
    r_growable r' \<and> bufferReader_pend r' = post"
proof -
  let ?k = "readIndex r" and ?n = "Suc (length pre)"
  have same: "rewind ?k r = r" by simp
  from until_loop_ok[OF inv grow, of ?k pre delim post 1] inv pend pre obtain r' where r':
      "bufferReader_until_loop delim r 1 = (Ok (1 + int (length pre)), r')" "bufferReader_inv r'"
      "r_growable r'" "bufferReader_pend r' = post" "readIndex r' = ?k + int (length pre) + 1"
      "bufferReader_inv (rewind ?k r')" "bufferReader_pend (rewind ?k r') = bufferReader_pend r"
    unfolding same by auto
  have b: "0 \<le> ?k" "?k + int ?n \<le> writeIndex r'" "writeIndex r' \<le> int (length (r_buff r'))"
    using r'(2,5,6) by (auto simp: bufferReader_inv_def)
  have "slice_expr (r_buff r') ?k (?k + int ?n) = Ok (take ?n (drop (nat ?k) (r_buff r')))"
    using b by (simp add: slice_expr_def nat_add_distrib)
  also have "take ?n (drop (nat ?k) (r_buff r')) = take ?n (bufferReader_pend (rewind ?k r'))"
    using b by (simp add: bufferReader_pend_def buffered_def)
  also have "\<dots> = pre @ [delim]" using pend by (simp add: r'(7))
  finally show ?thesis
    using r' by (simp add: bufferReader_Until_def Let_def add.commute)
qed

section \<open>Sessions of operations\<close>

text \<open>
  Two sources carry the same stream when they deliver the same bytes and end with the same
  error, however the bytes are cut into chunks. Readers are alike when they differ in such
  sources only.
\<close>

definition same_stream :: "source \<Rightarrow> source \<Rightarrow> bool" where
  "same_stream s t \<longleftrightarrow> flat s = flat t \<and> fin s = fin t"

definition alike :: "bufferReader \<Rightarrow> bufferReader \<Rightarrow> bool" where
  "alike r q \<longleftrightarrow> rel_option same_stream (r_decorator r) (r_decorator q) \<and>
     r_timeout q = r_timeout r \<and> r_buff q = r_buff r \<and> r_len q = r_len r \<and>
     r_growable q = r_growable r \<and> readIndex q = readIndex r \<and> writeIndex q = writeIndex r"

inductive reader_alike :: "reader \<Rightarrow> reader \<Rightarrow> bool" where
  alike_buf: "alike r q \<Longrightarrow> reader_alike (BufR r) (BufR q)"
| alike_nil: "reader_alike (LimR remain tot None) (LimR remain tot None)"
| alike_lim: "reader_alike d e \<Longrightarrow>
    reader_alike (LimR remain tot (Some d)) (LimR remain tot (Some e))"

datatype reader_op = PeekOp int | NextOp int | SkipOp int

fun reader_step :: "reader_op \<Rightarrow> reader \<Rightarrow> bytes outcome \<times> reader" where
  "reader_step (PeekOp n) r = reader_Peek r n"
| "reader_step (NextOp n) r = reader_Next r n"
| "reader_step (SkipOp n) r = and_then (reader_Skip r n) (\<lambda>_ r. (Ok [], r))"

primrec session :: "reader_op list \<Rightarrow> reader \<Rightarrow> bytes outcome list \<times> reader" where
  "session [] r = ([], r)"
| "session (op # ops) r =
     (let (out, r1) = reader_step op r; (outs, r2) = session ops r1 in (out # outs, r2))"

lemma ReadFull_same:
  assumes "same_stream s t"
  shows "rel_prod (=) (rel_prod (=) same_stream) (ReadFull s n) (ReadFull t n)"
proof (cases "n \<le> length (flat s)")
  case True
  then obtain s' where "ReadFull s n = (take n (flat s), None, s')"
      "flat s' = drop n (flat s)" "fin s' = fin s"
    by (rule ReadFull_enough)
  moreover have "n \<le> length (flat t)" using True assms by (simp add: same_stream_def)
  then obtain t' where "ReadFull t n = (take n (flat t), None, t')"
      "flat t' = drop n (flat t)" "fin t' = fin t"
    by (rule ReadFull_enough)
  ultimately show ?thesis using assms by (simp add: same_stream_def)
next
  case False
  with assms show ?thesis
    by (simp add: same_stream_def ReadFull_short short_error_def)
qed

lemma growth_alike: "alike r q \<Longrightarrow> rel_prod (=) alike (bufferReader_growth r d) (bufferReader_growth q d)"
  by (auto simp: alike_def bufferReader_growth_def Let_def split: option.splits)

lemma fill_alike:
  assumes "alike r q"
  shows "rel_prod (=) alike (bufferReader_fill r want False) (bufferReader_fill q want False)"
proof -
  note f = assms[unfolded alike_def]
  show ?thesis
  proof (cases "r_decorator r")
    case None
    with f show ?thesis
      by (auto simp: bufferReader_fill_def slice_expr_def alike_def)
  next
    case (Some s)
    with f obtain t where t: "r_decorator q = Some t" "same_stream s t"
      by (auto simp: option_rel_Some1)
    from ReadFull_same[OF t(2), of "nat want"] obtain bs e s' t' where
        "ReadFull s (nat want) = (bs, e, s')" "ReadFull t (nat want) = (bs, e, t')" "same_stream s' t'"
      by (auto elim!: rel_prod.cases)
    with Some t f show ?thesis
      by (cases e) (auto simp: bufferReader_fill_def slice_expr_def alike_def)
  qed
qed

lemma and_then_alike:
  assumes "rel_prod (=) R m m'" and "\<And>a s s'. R s s' \<Longrightarrow> rel_prod (=) R (f a s) (f a s')"
  shows "rel_prod (=) R (and_then m f) (and_then m' f)"
proof -
  from assms(1) obtain out s s' where "m = (out, s)" "m' = (out, s')" "R s s'"
    by (auto elim!: rel_prod.cases)
  with assms(2) show ?thesis by (cases out) auto
qed

lemma alike_fields:
  assumes "alike r q"
  shows "readIndex q = readIndex r" "writeIndex q = writeIndex r" "r_buff q = r_buff r"
    "r_len q = r_len r" "r_growable q = r_growable r"
  using assms by (auto simp: alike_def)

lemma alike_advance: "alike r q \<Longrightarrow> alike (r\<lparr>readIndex := i\<rparr>) (q\<lparr>readIndex := i\<rparr>)"
  by (auto simp: alike_def)

lemma ensureReadable_alike:
  assumes "alike r q"
  shows "rel_prod (=) alike (bufferReader_ensureReadable r n False) (bufferReader_ensureReadable q n False)"
  unfolding bufferReader_ensureReadable_def Let_def alike_fields[OF assms]
  using assms by (auto intro!: and_then_alike intro: growth_alike fill_alike)

lemma Peek_alike: "alike r q \<Longrightarrow> rel_prod (=) alike (bufferReader_Peek r n) (bufferReader_Peek q n)"
  by (auto simp: bufferReader_Peek_def alike_fields intro!: and_then_alike ensureReadable_alike)

lemma Next_alike: "alike r q \<Longrightarrow> rel_prod (=) alike (bufferReader_Next r n) (bufferReader_Next q n)"
  by (auto simp: bufferReader_Next_def alike_fields intro!: and_then_alike Peek_alike alike_advance)

lemma Skip_alike: "alike r q \<Longrightarrow> rel_prod (=) alike (bufferReader_Skip r n) (bufferReader_Skip q n)"
  by (auto simp: bufferReader_Skip_def alike_fields intro!: and_then_alike Peek_alike alike_advance)

lemma reader_alike_step:
  assumes "reader_alike r q"
  shows "rel_prod (=) reader_alike (reader_Peek r n) (reader_Peek q n)"
    and "rel_prod (=) reader_alike (reader_Next r n) (reader_Next q n)"
    and "rel_prod (=) reader_alike (reader_Skip r n) (reader_Skip q n)"
  using assms
proof (induction rule: reader_alike.induct)
  case (alike_buf r q)
  {
    case 1 show ?case using Peek_alike[OF alike_buf, of n]
      by (auto elim!: rel_prod.cases intro: reader_alike.intros)
  next
    case 2 show ?case using Next_alike[OF alike_buf, of n]
      by (auto elim!: rel_prod.cases intro: reader_alike.intros)
  next
    case 3 show ?case using Skip_alike[OF alike_buf, of n]
      by (auto elim!: rel_prod.cases intro: reader_alike.intros)
  }
next
  case (alike_lim d e remain tot)
  {
    case 1 show ?case using alike_lim.hyps alike_lim.IH(1)
      by (auto elim!: rel_prod.cases intro: reader_alike.intros)
  next
    case 2 show ?case using alike_lim.hyps alike_lim.IH(2)
      by (auto elim!: rel_prod.cases intro: reader_alike.intros split: outcome.splits)
  next
    case 3 show ?case using alike_lim.hyps alike_lim.IH(3)
      by (auto elim!: rel_prod.cases intro: reader_alike.intros split: outcome.splits)
  }
qed (auto intro: reader_alike.intros)

lemma session_alike:
  "reader_alike r q \<Longrightarrow> rel_prod (=) reader_alike (session ops r) (session ops q)"
proof (induction ops arbitrary: r q)
  case (Cons op ops)
  have "rel_prod (=) reader_alike (reader_step op r) (reader_step op q)"
    using reader_alike_step[OF Cons.prems] by (cases op) (auto intro: and_then_alike)
  then obtain out r1 q1 where "reader_step op r = (out, r1)" "reader_step op q = (out, q1)"
      "reader_alike r1 q1"
    by (auto elim!: rel_prod.cases)
  with Cons.IH[of r1 q1] show ?case by (auto elim!: rel_prod.cases)
qed simp

section \<open>A frame read through a limit reader\<close>

fun op_size :: "reader_op \<Rightarrow> int" where
  "op_size (PeekOp n) = n"
| "op_size (NextOp n) = n"
| "op_size (SkipOp n) = n"

text \<open>
  What a limit reader promises, on the bytes of its frame alone: \<open>f\<close> are those not consumed yet. A call
  for more than there are fails and consumes nothing.
\<close>

definition frame_op :: "reader_op \<Rightarrow> bytes \<Rightarrow> bytes outcome \<times> bytes" where
  "frame_op op f =
     (let n = nat (op_size op)
      in if length f < n then (Err (ErrRemainNotEnough (of_nat (length f)) (op_size op)), f)
         else case op of
                PeekOp _ \<Rightarrow> (Ok (take n f), f)
              | NextOp _ \<Rightarrow> (Ok (take n f), drop n f)
              | SkipOp _ \<Rightarrow> (Ok [], drop n f))"

fun frame_session :: "reader_op list \<Rightarrow> bytes \<Rightarrow> bytes outcome list \<times> bytes" where
  "frame_session [] f = ([], f)"
| "frame_session (op # ops) f =
     (let (out, f1) = frame_op op f; (outs, f2) = frame_session ops f1 in (out # outs, f2))"

text \<open>A limit reader implements it; \<open>frame_rest remain d\<close> is the rest of the frame.\<close>

definition frame_rest :: "uint32 \<Rightarrow> reader \<Rightarrow> bytes" where
  "frame_rest remain d = take (unat remain) (reader_pend d)"

lemma frame_step:
  assumes inv: "reader_inv d" and room: "reader_room d (unat remain)"
    and len: "unat remain \<le> length (reader_pend d)" and size: "0 \<le> op_size op"
  shows "\<exists>out remain' d'. reader_step op (LimR remain tot (Some d)) = (out, LimR remain' tot (Some d')) \<and>
    frame_op op (frame_rest remain d) = (out, frame_rest remain' d') \<and> unat remain' \<le> unat remain \<and> reader_inv d' \<and>
    reader_room d' (unat remain') \<and>
    reader_pend d' = drop (unat remain - unat remain') (reader_pend d)"
proof -
  define n where "n = nat (op_size op)"
  have n: "op_size op = int n" using size by (simp add: n_def)
  have lf: "length (frame_rest remain d) = unat remain" using len by (simp add: frame_rest_def)
  show ?thesis
  proof (cases "n \<le> unat remain")
    case False
    then have "uint remain < op_size op" by (simp add: n unat_lt_uint)
    moreover have "frame_op op (frame_rest remain d) = (Err (ErrRemainNotEnough remain (op_size op)), frame_rest remain d)"
      using False lf by (simp add: frame_op_def Let_def n)
    ultimately show ?thesis using assms by (cases op) auto
  next
    case True
    have u: "\<not> uint remain - op_size op < 0" using le_unat_uint[OF True] by (simp add: n)
    have fits: "reader_fits d n" using True room rd.room_fits rd.room_mono by blast
    from True len have "n \<le> length (reader_pend d)" by simp
    note laws = rd.peek_law[OF inv fits this] rd.next_law[OF inv fits this]
    have r: "unat (remain - of_nat n) = unat remain - n" using True by simp
    from laws(1) obtain d1 where d1: "reader_Peek d (int n) = (Ok (take n (reader_pend d)), d1)"
        "reader_inv d1" "reader_pend d1 = reader_pend d" "reader_room d1 (unat remain)"
      using room by blast
    have "reader_room d (n + (unat remain - n))" using room True by simp
    with laws(2) obtain d2 where d2: "reader_Next d (int n) = (Ok (take n (reader_pend d)), d2)"
        "reader_Skip d (int n) = (Ok (), d2)" "reader_inv d2"
        "reader_pend d2 = drop n (reader_pend d)" "reader_room d2 (unat remain - n)"
      by blast
    have f: "take n (frame_rest remain d) = take n (reader_pend d)" "frame_rest remain d1 = frame_rest remain d"
        "frame_rest (remain - of_nat n) d2 = drop n (frame_rest remain d)"
      using True d1(3) d2(4) r by (simp_all add: frame_rest_def drop_take)
    have "\<not> length (frame_rest remain d) < nat (op_size op)" using True lf by (simp add: n)
    with u d1 d2 r n True f show ?thesis by (cases op) (auto simp: frame_op_def Let_def)
  qed
qed

lemma session_frame:
  assumes "reader_inv d" and "reader_room d (unat remain)"
    and "unat remain \<le> length (reader_pend d)" and "\<forall>op \<in> set ops. 0 \<le> op_size op"
  shows "\<exists>remain' d'. session ops (LimR remain tot (Some d)) =
      (fst (frame_session ops (frame_rest remain d)), LimR remain' tot (Some d')) \<and>
    frame_rest remain' d' = snd (frame_session ops (frame_rest remain d)) \<and> unat remain' \<le> unat remain \<and> reader_inv d' \<and>
    reader_room d' (unat remain') \<and>
    reader_pend d' = drop (unat remain - unat remain') (reader_pend d)"
  using assms
proof (induction ops arbitrary: d remain)
  case (Cons op ops)
  then have "0 \<le> op_size op" by simp
  from frame_step[OF Cons.prems(1-3) this] obtain out r1 d1 where 1:
      "reader_step op (LimR remain tot (Some d)) = (out, LimR r1 tot (Some d1))"
      "frame_op op (frame_rest remain d) = (out, frame_rest r1 d1)" "unat r1 \<le> unat remain" "reader_inv d1" "reader_room d1 (unat r1)"
      "reader_pend d1 = drop (unat remain - unat r1) (reader_pend d)"
    by blast
  moreover have "unat r1 \<le> length (reader_pend d1)" using 1 Cons.prems(3) by simp
  ultimately obtain r2 d2 where
      "session ops (LimR r1 tot (Some d1)) = (fst (frame_session ops (frame_rest r1 d1)), LimR r2 tot (Some d2))"
      "frame_rest r2 d2 = snd (frame_session ops (frame_rest r1 d1))" "unat r2 \<le> unat r1" "reader_inv d2" "reader_room d2 (unat r2)"
      "reader_pend d2 = drop (unat r1 - unat r2) (reader_pend d1)"
    using Cons.IH[of d1 r1] Cons.prems(4) by auto
  with 1 show ?case by (simp add: Let_def split_def)
qed simp

section \<open>The windows of sizes for which growth is too small\<close>

lemma double_until_power:
  assumes "0 < c"
  shows "\<exists>k. double_until c m = Some (c * 2 ^ k) \<and> m \<le> c * 2 ^ k \<and> (k = 0 \<or> c * 2 ^ (k - 1) < m)"
  using assms
proof (induction "nat (m - c)" arbitrary: c rule: less_induct)
  case less
  show ?case
  proof (cases "c < m")
    case True
    with less.prems have "nat (m - 2 * c) < nat (m - c)" by simp
    from less.hyps[OF this] less.prems obtain k where k: "double_until (2 * c) m = Some (2 * c * 2 ^ k)"
        "m \<le> 2 * c * 2 ^ k" "k = 0 \<or> 2 * c * 2 ^ (k - 1) < m"
      by auto
    have "double_until c m = Some (c * 2 ^ Suc k) \<and> m \<le> c * 2 ^ Suc k \<and> c * 2 ^ (Suc k - 1) < m"
      using k True by (cases k) (simp_all add: double_until.simps[of c m] algebra_simps)
    then show ?thesis by blast
  next
    case False
    then show ?thesis by (intro exI[of _ 0]) (simp add: double_until_done)
  qed
qed

text \<open>
  A capacity \<open>c\<close> doubled up to \<open>n - e\<close> falls short of \<open>n\<close> exactly in the windows of width \<open>e\<close>
  above the capacities; \<^verbatim>\<open>growth\<close> aims at \<open>n - e\<close> where \<open>e\<close> is the unused part of the buffer.
\<close>

lemma growth_window:
  fixes c n e :: int
  assumes "0 < c"
  shows "(\<exists>d. double_until c (n - e) = Some d \<and> d < n) \<longleftrightarrow> (\<exists>k. c * 2 ^ k < n \<and> n \<le> c * 2 ^ k + e)"
proof -
  from double_until_power[OF assms, of "n - e"] obtain k where k:
      "double_until c (n - e) = Some (c * 2 ^ k)" "n - e \<le> c * 2 ^ k" "k = 0 \<or> c * 2 ^ (k - 1) < n - e"
    by blast
  show ?thesis
  proof
    assume "\<exists>d. double_until c (n - e) = Some d \<and> d < n"
    with k show "\<exists>k. c * 2 ^ k < n \<and> n \<le> c * 2 ^ k + e" by (intro exI[of _ k]) auto
  next
    assume "\<exists>k. c * 2 ^ k < n \<and> n \<le> c * 2 ^ k + e"
    then obtain j where j: "c * 2 ^ j < n" "n \<le> c * 2 ^ j + e" by blast
    have "k \<le> j"
    proof (rule ccontr)
      assume "\<not> k \<le> j"
      then have "c * 2 ^ j \<le> c * 2 ^ (k - 1)" "k \<noteq> 0" using assms by auto
      with k(3) j(2) show False by auto
    qed
    then have "c * 2 ^ k \<le> c * 2 ^ j" using assms by simp
    with k(1) j(1) show "\<exists>d. double_until c (n - e) = Some d \<and> d < n" by auto
  qed
qed

section \<open>Properties\<close>

abbreviation fresh_reader :: "source \<Rightarrow> bufferReader" where
  "fresh_reader s \<equiv> NewBufferReader bufferReaderPool_New s"

lemmas fresh_simps = NewBufferReader_def bufferReaderPool_New_def

lemma fresh_inv [simp]: "bufferReader_inv (fresh_reader s)"
  by (simp add: bufferReader_inv_def fresh_simps)

lemma fresh_pend [simp]: "bufferReader_pend (fresh_reader s) = flat s"
  by (simp add: bufferReader_pend_def buffered_def source_bytes_def fresh_simps)

lemma fresh_growable [simp]: "r_growable (fresh_reader s)"
  by (simp add: fresh_simps)

lemma fresh_room: "bufferReader_room (fresh_reader s) n \<longleftrightarrow> n \<le> 256"
  by (simp add: bufferReader_room_def fresh_simps)

text \<open>
  C28: what \<^verbatim>\<open>Next(n)\<close> of a growing buffered reader does in every case. When the buffer can hold
  the request and the stream is long enough it returns the next \<open>n\<close> bytes of the stream and
  advances by \<open>n\<close>; when the stream is too short it returns the error of the connection (an
  early end is \<open>ErrUnexpectedEOF\<close> when some bytes arrived); when \<^verbatim>\<open>growth\<close> made the buffer too
  small it panics.
\<close>

theorem bufferReader_Next_behaviour:
  assumes "bufferReader_inv r" and "r_growable r" and "r_decorator r = Some src"
  shows "(bufferReader_fits r n \<and> n \<le> length (bufferReader_pend r) \<longrightarrow>
      (\<exists>r'. bufferReader_Next r (int n) = (Ok (take n (bufferReader_pend r)), r') \<and>
        bufferReader_inv r' \<and> bufferReader_pend r' = drop n (bufferReader_pend r))) \<and>
    (bufferReader_fits r n \<and> length (bufferReader_pend r) < n \<longrightarrow>
      (\<exists>r'. bufferReader_Next r (int n) = (Err (short_error src), r'))) \<and>
    (\<not> bufferReader_fits r n \<longrightarrow>
      (\<exists>r'. bufferReader_Next r (int n) = (Panic SliceBounds, r')))"
proof (intro conjI impI)
  assume "bufferReader_fits r n \<and> n \<le> length (bufferReader_pend r)"
  then have f: "bufferReader_fits r n" "n \<le> length (bufferReader_pend r)" by simp_all
  show "\<exists>r'. bufferReader_Next r (int n) = (Ok (take n (bufferReader_pend r)), r') \<and>
      bufferReader_inv r' \<and> bufferReader_pend r' = drop n (bufferReader_pend r)"
    by (rule bufferReader_Next_ok[OF assms(1) f]) blast
next
  assume "bufferReader_fits r n \<and> length (bufferReader_pend r) < n"
  with bufferReader_Peek_short[OF assms(1) _ _ assms(3)] obtain r' where
    "bufferReader_Peek r (int n) = (Err (short_error src), r')" by blast
  then show "\<exists>r'. bufferReader_Next r (int n) = (Err (short_error src), r')"
    by (simp add: bufferReader_Next_def)
next
  assume "\<not> bufferReader_fits r n"
  with bufferReader_Next_panic[OF assms(1,2)]
  show "\<exists>r'. bufferReader_Next r (int n) = (Panic SliceBounds, r')" by blast
qed

theorem bufferReader_Next_behaviour_witness:
  "\<exists>r'. bufferReader_Next (fresh_reader \<lparr>chunks = [[1, 2], [3, 4]], fin = EOF\<rparr>) 3 = (Ok [1, 2, 3], r') \<and>
     bufferReader_pend r' = [4]"
  using bufferReader_Next_behaviour[of "fresh_reader \<lparr>chunks = [[1, 2], [3, 4]], fin = EOF\<rparr>"
      "\<lparr>chunks = [[1, 2], [3, 4]], fin = EOF\<rparr>" 3]
  by (auto simp: bufferReader_fits_def fresh_room) (auto simp: fresh_simps)

text \<open>
  C9: segmentation does not matter. Any sequence of \<^verbatim>\<open>Peek\<close>, \<^verbatim>\<open>Next\<close> and \<^verbatim>\<open>Skip\<close> calls on a fresh
  reader gives the same results, errors and panics included, for two connections that
  deliver the same bytes cut into different segments.
\<close>

theorem session_segmentation:
  assumes "same_stream s t"
  shows "fst (session ops (BufR (NewBufferReader r s))) = fst (session ops (BufR (NewBufferReader r t)))"
proof -
  have "reader_alike (BufR (NewBufferReader r s)) (BufR (NewBufferReader r t))"
    using assms by (auto intro: alike_buf simp: alike_def NewBufferReader_def)
  from session_alike[OF this, of ops] show ?thesis by (auto elim!: rel_prod.cases)
qed

theorem session_segmentation_witness:
  "fst (session [PeekOp 2, NextOp 3, SkipOp 1]
      (BufR (fresh_reader \<lparr>chunks = [[1, 2], [], [3, 4]], fin = EOF\<rparr>))) =
   fst (session [PeekOp 2, NextOp 3, SkipOp 1]
      (BufR (fresh_reader \<lparr>chunks = [[1], [2, 3, 4]], fin = EOF\<rparr>)))"
  by (rule session_segmentation) (simp add: same_stream_def)

text \<open>
  C19: a limit reader frames the stream. Whatever calls of \<^verbatim>\<open>Peek\<close>, \<^verbatim>\<open>Next\<close> and \<^verbatim>\<open>Skip\<close> are made on it, it
  behaves as a reader of the bytes of the frame and of nothing else (\<open>frame_session\<close>): \<^verbatim>\<open>Next\<close> returns
  the next bytes of the frame, \<^verbatim>\<open>Peek\<close> returns them without consuming them, and a call for more than
  is left of the frame fails with the error that says so and consumes nothing. \<^verbatim>\<open>Release\<close> leaves the
  decorated reader exactly behind the frame, however much of it was consumed. The frame has to be
  on the stream, and the buffer to have room for it.
\<close>

theorem limit_reader_frame:
  assumes "reader_inv d" and "reader_room d (unat limit)" and "unat limit \<le> length (reader_pend d)"
    and "\<forall>op \<in> set ops. 0 \<le> op_size op"
  shows "\<exists>l l' d'. session ops (NewLimitReader d limit) = (fst (frame_session ops (take (unat limit) (reader_pend d))), l) \<and>
    reader_pend l = snd (frame_session ops (take (unat limit) (reader_pend d))) \<and>
    reader_Release l = (Ok (), l', Some d') \<and> reader_inv d' \<and> reader_pend d' = drop (unat limit) (reader_pend d)"
proof -
  from session_frame[OF assms, of "uint limit"] obtain remain d1 where 1:
      "session ops (NewLimitReader d limit) =
        (fst (frame_session ops (frame_rest limit d)), LimR remain (uint limit) (Some d1))"
      "frame_rest remain d1 = snd (frame_session ops (frame_rest limit d))" "unat remain \<le> unat limit" "reader_inv d1"
      "reader_room d1 (unat remain)"
      "reader_pend d1 = drop (unat limit - unat remain) (reader_pend d)"
    by (auto simp: NewLimitReader_def)
  have "unat remain \<le> length (reader_pend d1)" using 1 assms(3) by simp
  then obtain d2 where "reader_Release (LimR remain (uint limit) (Some d1))
        = (Ok (), LimR 0 (uint limit) None, Some d2)"
      "reader_inv d2" "reader_pend d2 = drop (unat remain) (reader_pend d1)"
    using reader_Release_limit[OF 1(4) rd.room_fits[OF 1(5)]] by blast
  with 1 show ?thesis by (auto simp: frame_rest_def)
qed

theorem limit_reader_frame_witness:
  "\<exists>l l' d'. session [NextOp 1, PeekOp 2, NextOp 5]
      (NewLimitReader (BufR (fresh_reader \<lparr>chunks = [[1, 2], [3, 4]], fin = EOF\<rparr>)) 3) =
      ([Ok [1], Ok [2, 3], Err (ErrRemainNotEnough 2 5)], l) \<and>
    reader_Release l = (Ok (), l', Some d') \<and> reader_pend d' = [4]"
proof -
  let ?d = "BufR (fresh_reader \<lparr>chunks = [[1, 2], [3, 4]], fin = EOF\<rparr>)" and ?ops = "[NextOp 1, PeekOp 2, NextOp 5]"
  have "\<exists>l l' d'. session ?ops (NewLimitReader ?d 3) = (fst (frame_session ?ops (take (unat (3 :: uint32)) (reader_pend ?d))), l) \<and>
      reader_pend l = snd (frame_session ?ops (take (unat (3 :: uint32)) (reader_pend ?d))) \<and>
      reader_Release l = (Ok (), l', Some d') \<and>
      reader_inv d' \<and> reader_pend d' = drop (unat (3 :: uint32)) (reader_pend ?d)"
    by (rule limit_reader_frame) (simp_all add: fresh_room)
  moreover have "drop (unat (3 :: uint32)) (reader_pend ?d) = [4]" "take (unat (3 :: uint32)) (reader_pend ?d) = [1, 2, 3]" by simp_all
  moreover have "fst (frame_session ?ops [1, 2, 3]) = [Ok [1], Ok [2, 3], Err (ErrRemainNotEnough 2 5)]"
    by (simp add: frame_op_def Let_def)
  ultimately show ?thesis by metis
qed

text \<open>
  The sizes at which \<^verbatim>\<open>growth\<close> fails. On a fresh reader \<^verbatim>\<open>Next(n)\<close> panics exactly when \<open>n\<close>
  lies up to 256 bytes above a capacity \<open>256 \<cdot> 2 ^ k\<close> of the buffer: the amount to grow by is
  computed from the missing bytes only, so the first call for 257 to 768 bytes panics.
\<close>

theorem fresh_Next_panics_iff:
  "(\<exists>r'. bufferReader_Next (fresh_reader s) (int n) = (Panic SliceBounds, r')) \<longleftrightarrow>
   (\<exists>k. 256 * 2 ^ k < n \<and> n \<le> 256 * 2 ^ k + 256)"
proof -
  let ?r = "fresh_reader s"
  have g: "bufferReader_grown ?r n = double_until 256 (int n - 256)"
    by (simp add: bufferReader_grown_def fresh_simps)
  obtain c where c: "double_until 256 (int n - 256) = Some c"
    using double_until_Some[of 256] by auto
  have src: "r_decorator ?r = Some s" by (simp add: fresh_simps)
  have "(\<exists>r'. bufferReader_Next ?r (int n) = (Panic SliceBounds, r')) \<longleftrightarrow> \<not> bufferReader_fits ?r n"
  proof
    assume "\<exists>r'. bufferReader_Next ?r (int n) = (Panic SliceBounds, r')"
    then obtain r' where p: "bufferReader_Next ?r (int n) = (Panic SliceBounds, r')" by blast
    show "\<not> bufferReader_fits ?r n"
    proof
      assume f: "bufferReader_fits ?r n"
      show False
      proof (cases "n \<le> length (bufferReader_pend ?r)")
        case True
        show False by (rule bufferReader_Next_ok[OF fresh_inv f True]) (use p in auto)
      next
        case False
        with bufferReader_Peek_short[OF fresh_inv f _ src] p show False
          by (auto simp: bufferReader_Next_def)
      qed
    qed
  qed (auto dest: bufferReader_Next_panic[OF fresh_inv fresh_growable])
  also have "\<dots> \<longleftrightarrow> (\<exists>d. double_until 256 (int n - 256) = Some d \<and> d < int n)"
    using c double_until_Some[of 256 "int n - 256"]
    by (auto simp: bufferReader_fits_def fresh_room g) (auto simp: fresh_simps)
  also have "\<dots> \<longleftrightarrow> (\<exists>k. 256 * 2 ^ k < int n \<and> int n \<le> 256 * 2 ^ k + 256)"
    by (rule growth_window) simp
  also have "\<dots> \<longleftrightarrow> (\<exists>k. 256 * 2 ^ k < n \<and> n \<le> 256 * 2 ^ k + 256)"
    by (simp flip: of_nat_less_iff[where 'a = int] of_nat_le_iff[where 'a = int])
  finally show ?thesis .
qed

text \<open>
  C29: \<^verbatim>\<open>Until\<close> returns the line. When the delimiter occurs in the stream, the result is the
  stream up to and including its first occurrence, wherever the buffer had to grow on the
  way, and the reader continues behind it.
\<close>

theorem bufferReader_Until_line:
  assumes "bufferReader_inv r" and "r_growable r"
    and "bufferReader_pend r = pre @ delim # post" and "delim \<notin> set pre"
  shows "\<exists>r'. bufferReader_Until delim r = (Ok (pre @ [delim]), r') \<and> bufferReader_inv r' \<and>
    bufferReader_pend r' = post"
  using bufferReader_Until_ok[OF assms] by blast

theorem bufferReader_Until_line_witness:
  "\<exists>r'. bufferReader_Until 10 (fresh_reader \<lparr>chunks = [[1], [2, 10], [3]], fin = EOF\<rparr>)
     = (Ok [1, 2, 10], r') \<and> bufferReader_pend r' = [3]"
  using bufferReader_Until_line[of "fresh_reader \<lparr>chunks = [[1], [2, 10], [3]], fin = EOF\<rparr>"
      "[1, 2]" 10 "[3]"] by auto

end
