(* ===== verification/Contract.thy ===== *)
theory Contract
  imports Payload ReaderSession
begin

text \<open>
  The contract of a payload codec: what \<open>Marshal\<close> appends to a writer (a chain of writers on
  a connection, or a writer on a fixed buffer) and what \<open>UnMarshal\<close> does with the frame it is
  given. The text codec, the JSON codec and the codec of the framework's messages keep it.
\<close>

section \<open>Positions in a frame\<close>

text \<open>\<open>l\<close> is the limit reader made for \<open>L\<close> bytes of \<open>d\<close>, after \<open>k\<close> of them were consumed.\<close>

definition frame_at :: "reader \<Rightarrow> uint32 \<Rightarrow> nat \<Rightarrow> reader \<Rightarrow> bool" where
  "frame_at d L k l \<longleftrightarrow>
     k \<le> unat L \<and> unat L \<le> length (reader_pend d) \<and>
     (\<exists>d'. l = LimR (L - of_nat k) (uint L) (Some d') \<and> reader_inv d' \<and>
        reader_room d' (unat L - k) \<and> reader_pend d' = drop k (reader_pend d) \<and>
        (\<forall>m. reader_room d (unat L + m) \<longrightarrow> reader_room d' (unat L - k + m)))"

lemma frame_new:
  "reader_inv d \<Longrightarrow> reader_room d (unat L) \<Longrightarrow> unat L \<le> length (reader_pend d) \<Longrightarrow>
   frame_at d L 0 (NewLimitReader d L)"
  by (simp add: frame_at_def NewLimitReader_def)

lemma frame_Length [simp]: "frame_at d L k l \<Longrightarrow> reader_Length l = uint L"
  by (auto simp: frame_at_def)

lemma frame_Peek:
  assumes f: "frame_at d L k l" and n: "k + n \<le> unat L"
  obtains l' where "reader_Peek l (int n) = (Ok (take n (drop k (reader_pend d))), l')"
    and "frame_at d L k l'"
proof -
  from f obtain d1 where d1: "l = LimR (L - of_nat k) (uint L) (Some d1)" "reader_inv d1"
      "reader_room d1 (unat L - k)" "reader_pend d1 = drop k (reader_pend d)" "k \<le> unat L"
      "unat L \<le> length (reader_pend d)"
      "\<forall>m. reader_room d (unat L + m) \<longrightarrow> reader_room d1 (unat L - k + m)"
    by (auto simp: frame_at_def)
  have fits: "reader_fits d1 n"
    using d1(3) n by (intro rd.room_fits rd.room_mono[OF d1(3)]) simp
  have len: "n \<le> length (reader_pend d1)" using d1(4,6) n by simp
  from rd.peek_law[OF d1(2) fits len] obtain d2 where
      "reader_Peek d1 (int n) = (Ok (take n (reader_pend d1)), d2)" "reader_inv d2"
      "reader_pend d2 = reader_pend d1" "\<forall>m. reader_room d1 m \<longrightarrow> reader_room d2 m"
    by blast
  moreover have "\<not> uint (L - of_nat k) - int n < 0"
    using n d1(5) le_unat_uint[of n "L - of_nat k"] by (simp add: le_diff_conv2)
  ultimately show thesis
    using d1 by (intro that[of "LimR (L - of_nat k) (uint L) (Some d2)"]) (simp_all add: frame_at_def)
qed

lemma frame_Next:
  assumes f: "frame_at d L k l" and n: "k + n \<le> unat L"
  obtains l' where "reader_Next l (int n) = (Ok (take n (drop k (reader_pend d))), l')"
    and "reader_Skip l (int n) = (Ok (), l')" and "frame_at d L (k + n) l'"
proof -
  from f obtain d1 where d1: "l = LimR (L - of_nat k) (uint L) (Some d1)" "reader_inv d1"
      "reader_room d1 (unat L - k)" "reader_pend d1 = drop k (reader_pend d)" "k \<le> unat L"
      "unat L \<le> length (reader_pend d)"
      "\<forall>m. reader_room d (unat L + m) \<longrightarrow> reader_room d1 (unat L - k + m)"
    by (auto simp: frame_at_def)
  have fits: "reader_fits d1 n"
    using d1(3) n by (intro rd.room_fits rd.room_mono[OF d1(3)]) simp
  have len: "n \<le> length (reader_pend d1)" using d1(4,6) n by simp
  from rd.next_law[OF d1(2) fits len] obtain d2 where d2:
      "reader_Next d1 (int n) = (Ok (take n (reader_pend d1)), d2)"
      "reader_Skip d1 (int n) = (Ok (), d2)" "reader_inv d2"
      "reader_pend d2 = drop n (reader_pend d1)" "\<forall>m. reader_room d1 (n + m) \<longrightarrow> reader_room d2 m"
    by blast
  have s: "unat L - k + m = n + (unat L - (k + n) + m)" for m using n by simp
  have room2: "reader_room d2 (unat L - (k + n))"
    using d1(3) d2(5) s[of 0] by (metis add.right_neutral)
  have room3: "\<forall>m. reader_room d (unat L + m) \<longrightarrow> reader_room d2 (unat L - (k + n) + m)"
    using d1(7) d2(5) s by metis
  have pend2: "reader_pend d2 = drop (k + n) (reader_pend d)"
    using d2(4) d1(4) by (simp add: add.commute)
  have rem: "L - of_nat k - of_nat n = L - of_nat (k + n)" by (simp add: algebra_simps)
  have "\<not> uint (L - of_nat k) - int n < 0"
    using n d1(5) le_unat_uint[of n "L - of_nat k"] by (simp add: le_diff_conv2)
  with d1(1,4) d2(1,2) rem show thesis
    using n d1(6) d2(3) room2 room3 pend2
    by (intro that[of "LimR (L - of_nat (k + n)) (uint L) (Some d2)"]) (simp_all add: frame_at_def)
qed

lemma frame_Release:
  assumes "frame_at d L k l"
  obtains l' d' where "reader_Release l = (Ok (), l', Some d')" and "reader_inv d'"
    and "reader_pend d' = drop (unat L) (reader_pend d)"
    and "\<forall>m. reader_room d (unat L + m) \<longrightarrow> reader_room d' m"
proof -
  from assms obtain d1 where d1: "l = LimR (L - of_nat k) (uint L) (Some d1)" "reader_inv d1"
      "reader_room d1 (unat L - k)" "reader_pend d1 = drop k (reader_pend d)" "k \<le> unat L"
      "unat L \<le> length (reader_pend d)"
      "\<forall>m. reader_room d (unat L + m) \<longrightarrow> reader_room d1 (unat L - k + m)"
    by (auto simp: frame_at_def)
  have u: "unat (L - of_nat k) = unat L - k" using d1(5) by simp
  have "reader_fits d1 (unat (L - of_nat k))" using d1(3) u rd.room_fits by simp
  moreover have "unat (L - of_nat k) \<le> length (reader_pend d1)" using d1(4,6) u by simp
  ultimately show thesis
    by (rule reader_Release_limit[OF d1(2)]) (use d1 u in \<open>auto intro!: that\<close>)
qed

section \<open>Writing into a fixed buffer\<close>

text \<open>A writer made by \<^verbatim>\<open>NewBufferWriterWithBuff\<close>, after \<open>i\<close> bytes.\<close>

definition fixed_at :: "slice \<Rightarrow> nat \<Rightarrow> writer" where
  "fixed_at buf i =
     Writer \<lparr>w_buff = buf, writeDirectly = False, preWriteIndex = 0, w_index = int i,
             w_growable = False\<rparr> NilW"

lemma fixed_new: "NewBufferWriterWithBuff buf = fixed_at buf 0"
  by (simp add: NewBufferWriterWithBuff_def fixed_at_def)

lemma fixed_Write:
  assumes "slice_valid h buf" and "length pre \<le> s_len buf"
  shows "writer_Write bs (fixed_at buf (length pre), slice_put buf pre h) =
    (if length pre + length bs \<le> s_len buf
     then (Ok (length bs), fixed_at buf (length (pre @ bs)), slice_put buf (pre @ bs) h)
     else (Err ErrWriterBufferNotEnough, fixed_at buf (length pre), slice_put buf pre h))"
proof (cases "length pre + length bs \<le> s_len buf")
  case True
  have "s_len buf \<le> s_cap buf" using assms(1) by (simp add: slice_valid_def)
  with True have "reslice buf (int (length pre)) (int (length pre) + int (length bs))
      = Ok (subslice buf (length pre) (length bs))"
    by (intro reslice_Ok) linarith
  with True slice_put_append[OF assms(1) True order_refl] show ?thesis
    by (simp add: fixed_at_def writer_store_def writer_checkWriteable_def)
next
  case False
  then show ?thesis
    by (simp add: fixed_at_def writer_store_def writer_checkWriteable_def)
qed

lemma fixed_malloc_put:
  assumes "slice_valid h buf" and "length pre \<le> s_len buf"
  shows "malloc_put bs (fixed_at buf (length pre), slice_put buf pre h) =
    (if length pre + length bs \<le> s_len buf
     then (Ok (), fixed_at buf (length (pre @ bs)), slice_put buf (pre @ bs) h)
     else (Err ErrWriterBufferNotEnough, fixed_at buf (length pre), slice_put buf pre h))"
proof (cases "length pre + length bs \<le> s_len buf")
  case True
  have "s_len buf \<le> s_cap buf" using assms(1) by (simp add: slice_valid_def)
  with True have "reslice buf (int (length pre)) (int (length pre) + int (length bs))
      = Ok (subslice buf (length pre) (length bs))"
    by (intro reslice_Ok) linarith
  moreover have "put_word (subslice buf (length pre) (length bs)) bs (slice_put buf pre h)
      = (Ok (), slice_put buf (pre @ bs) h)"
    using slice_put_append[OF assms(1) True order_refl] by (simp add: put_word_def subslice_def)
  ultimately show ?thesis
    using True by (simp add: malloc_put_def fixed_at_def writer_reserve_def writer_checkWriteable_def)
next
  case False
  then show ?thesis
    by (simp add: malloc_put_def fixed_at_def writer_reserve_def writer_checkWriteable_def)
qed

section \<open>The contract\<close>

text \<open>
  \<open>enc\<close> gives the bytes of a message or the error it cannot be encoded with, \<open>dec\<close> the message
  in the bytes of a frame. A fixed buffer is filled from its start; when it is too small, the
  writer's error comes back and nothing but the buffer has been touched.
\<close>

locale payload_contract =
  fixes c :: "'v payload_codec"
    and enc :: "'v message \<Rightarrow> bytes outcome"
    and dec :: "bytes \<Rightarrow> 'v message outcome"
  assumes marshal_law: "writer_inv s \<Longrightarrow> writer_live s \<Longrightarrow> enc m = Ok bs \<Longrightarrow>
      \<exists>s'. Marshal c m s = (Ok (), s') \<and> appends bs s s'"
    and marshal_err: "enc m = Err e \<Longrightarrow> Marshal c m s = (Err e, s)"
    and fixed_law: "slice_valid h buf \<Longrightarrow> enc m = Ok bs \<Longrightarrow> length bs \<le> s_len buf \<Longrightarrow>
      \<exists>w. Marshal c m (NewBufferWriterWithBuff buf, h) = (Ok (), w, slice_put buf bs h)"
    and fixed_short: "slice_valid h buf \<Longrightarrow> enc m = Ok bs \<Longrightarrow> s_len buf < length bs \<Longrightarrow>
      \<exists>w pre. Marshal c m (NewBufferWriterWithBuff buf, h)
          = (Err ErrWriterBufferNotEnough, w, slice_put buf pre h) \<and> length pre \<le> s_len buf"
    and unmarshal_law: "frame_at d L 0 l \<Longrightarrow>
      \<exists>l' k. UnMarshal c l = (dec (take (unat L) (reader_pend d)), l') \<and> frame_at d L k l'"

text \<open>Codecs that write one block of bytes and read their frame as a whole.\<close>

lemma write_all_appends:
  assumes "writer_inv s" and "writer_live s"
  shows "\<exists>s'. write_all bs s = (Ok (), s') \<and> appends bs s s'"
  by (rule appends_Write[OF assms, of bs]) (auto simp: write_all_def)

lemma write_all_fixed:
  assumes "slice_valid h buf"
  shows "write_all bs (NewBufferWriterWithBuff buf, h) =
    (if length bs \<le> s_len buf then (Ok (), fixed_at buf (length bs), slice_put buf bs h)
     else (Err ErrWriterBufferNotEnough, fixed_at buf 0, h))"
  using fixed_Write[OF assms, of "[]" bs] by (simp add: write_all_def fixed_new slice_put_nil[OF assms])

lemma frame_Next_all:
  assumes "frame_at d L 0 l"
  obtains l' where "reader_Next l (reader_Length l) = (Ok (take (unat L) (reader_pend d)), l')"
    and "frame_at d L (unat L) l'"
proof -
  have "reader_Length l = int (unat L)" using assms by simp
  then show thesis
    using frame_Next[OF assms, of "unat L"] that by (metis add_0 drop0 order_refl)
qed

fun text_enc :: "'v message \<Rightarrow> bytes outcome" where
  "text_enc (StringMsg b) = Ok b"
| "text_enc (BytesMsg b) = Ok b"
| "text_enc _ = Err ErrMessageNotString"

definition text_dec :: "bytes \<Rightarrow> 'v message outcome" where
  "text_dec bs = Ok (StringMsg bs)"

lemma text_Marshal_enc:
  "Marshal NewTextCodec m s = (case text_enc m of Ok bs \<Rightarrow> write_all bs s | Err e \<Rightarrow> (Err e, s)
     | Panic p \<Rightarrow> (Panic p, s) | Hang \<Rightarrow> (Hang, s))"
  by (cases m) (simp_all add: NewTextCodec_def)

lemma block_contract:
  assumes m: "\<And>m s. Marshal c m s = (case enc m of Ok bs \<Rightarrow> write_all bs s | Err e \<Rightarrow> (Err e, s)
      | Panic p \<Rightarrow> (Panic p, s) | Hang \<Rightarrow> (Hang, s))"
    and u: "\<And>r. UnMarshal c r = and_then (reader_Next r (reader_Length r)) (\<lambda>bs r. (dec bs, r))"
  shows "payload_contract c enc dec"
proof
  fix h :: world and buf m bs
  assume v: "slice_valid h buf" and e: "enc m = Ok bs"
  show "\<exists>w. Marshal c m (NewBufferWriterWithBuff buf, h) = (Ok (), w, slice_put buf bs h)"
    if "length bs \<le> s_len buf"
    using that by (simp add: m e write_all_fixed[OF v])
  show "\<exists>w pre. Marshal c m (NewBufferWriterWithBuff buf, h)
      = (Err ErrWriterBufferNotEnough, w, slice_put buf pre h) \<and> length pre \<le> s_len buf"
    if "s_len buf < length bs"
    using that by (intro exI[of _ "fixed_at buf 0"] exI[of _ "[]"])
      (simp add: m e write_all_fixed[OF v] slice_put_nil[OF v])
next
  fix d L l assume "frame_at d L 0 l"
  then show "\<exists>l' k. UnMarshal c l = (dec (take (unat L) (reader_pend d)), l') \<and> frame_at d L k l'"
    by (rule frame_Next_all) (auto simp: u)
qed (use write_all_appends in \<open>fastforce simp: m\<close>)+

interpretation tx: payload_contract NewTextCodec text_enc text_dec
  by (rule block_contract)
    (simp_all only: text_Marshal_enc, simp add: NewTextCodec_def textPayloadCodec_UnMarshal_def text_dec_def)

interpretation js: payload_contract "jsonPayloadCodec lib msgType" "json_Marshal lib"
  "json_Unmarshal lib msgType" for lib msgType
proof (rule block_contract)
  fix m s
  show "Marshal (jsonPayloadCodec lib msgType) m s = (case json_Marshal lib m of
      Ok bs \<Rightarrow> write_all bs s | Err e \<Rightarrow> (Err e, s) | Panic p \<Rightarrow> (Panic p, s) | Hang \<Rightarrow> (Hang, s))"
    by (cases "json_Marshal lib m")
      (simp_all add: jsonPayloadCodec_def jsonPayloadCodec_Marshal_def)
qed (simp add: jsonPayloadCodec_def jsonPayloadCodec_UnMarshal_def)

section \<open>The codec of the framework's messages keeps the contract of the codec it wraps\<close>

definition less_enc :: "('v message \<Rightarrow> bytes outcome) \<Rightarrow> 'v message \<Rightarrow> bytes outcome" where
  "less_enc enc m =
     (case m of
        LessMsg x \<Rightarrow> Ok (PutUint32 (Magic x) @ PutUint16 (MsgType x) @ Body x)
      | _ \<Rightarrow> enc m)"

definition less_dec :: "(bytes \<Rightarrow> 'v message outcome) \<Rightarrow> bytes \<Rightarrow> 'v message outcome" where
  "less_dec dec bs =
     (if length bs < 6 \<or> Uint32 (take 4 bs) \<noteq> Ok MAGIC then dec bs
      else case Uint16 (take 2 (drop 4 bs)) of
        Ok t \<Rightarrow> Ok (LessMsg \<lparr>Magic = MAGIC, MsgType = t, Body = drop 6 bs\<rparr>)
      | _ \<Rightarrow> Panic IndexOutOfRange)"

lemma Uint32_total: "4 \<le> length bs \<Longrightarrow> \<exists>v. Uint32 bs = Ok v"
  by (cases bs rule: Uint32.cases) auto

lemma Uint16_total: "2 \<le> length bs \<Longrightarrow> \<exists>v. Uint16 bs = Ok v"
  by (cases bs rule: Uint16.cases) auto

lemma less_dec_enc:
  assumes "less_enc enc m = Ok bs" and "m = LessMsg x" and "Magic x = MAGIC"
  shows "less_dec dec bs = Ok m"
proof -
  have bs: "bs = PutUint32 MAGIC @ PutUint16 (MsgType x) @ Body x"
    using assms by (simp add: less_enc_def)
  have "take 4 bs = PutUint32 MAGIC @ []" "take 2 (drop 4 bs) = PutUint16 (MsgType x) @ []"
      "drop 6 bs = Body x"
    by (simp_all add: bs)
  then show ?thesis
    using assms(2,3) by (simp only: less_dec_def Uint32_PutUint32 Uint16_PutUint16) (simp add: bs)
qed

context payload_contract
begin

lemma less_marshal:
  assumes inv: "writer_inv s" and live: "writer_live s" and enc: "less_enc enc m = Ok bs"
  shows "\<exists>s'. Marshal (NewLessMsgPayloadCodec c) m s = (Ok (), s') \<and> appends bs s s'"
proof (cases "\<exists>x. m = LessMsg x")
  case True
  then obtain x where x: "m = LessMsg x" by blast
  let ?a = "PutUint32 (Magic x)" and ?b = "PutUint16 (MsgType x)"
  have ne: "?a \<noteq> []" "?b \<noteq> []" by (simp_all add: PutUint32_def PutUint16_def)
  obtain s1 where s1: "malloc_put ?a s = (Ok (), s1)" "appends ?a s s1"
    using appends_malloc_put[OF inv live ne(1)] .
  obtain s2 where s2: "malloc_put ?b s1 = (Ok (), s2)" "appends ?b s1 s2"
    using appends_malloc_put[OF appendsD(1,2)[OF s1(2)] ne(2)] .
  obtain s3 where s3: "write_all (Body x) s2 = (Ok (), s3)" "appends (Body x) s2 s3"
    using write_all_appends[OF appendsD(1,2)[OF s2(2)]] by blast
  have "appends (?a @ ?b @ Body x) s s3"
    using appends_trans[OF s1(2) appends_trans[OF s2(2) s3(2)]] .
  with s1 s2 s3 enc show ?thesis
    by (simp add: x less_enc_def NewLessMsgPayloadCodec_def LessMessagePayloadCodec_Marshal_def)
next
  case False
  then have "less_enc enc m = enc m" "Marshal (NewLessMsgPayloadCodec c) m s = Marshal c m s"
    by (auto simp: less_enc_def NewLessMsgPayloadCodec_def LessMessagePayloadCodec_Marshal_def
        split: message.splits)
  with marshal_law[OF inv live] enc show ?thesis by simp
qed

lemma less_fixed:
  assumes v: "slice_valid h buf"
  shows "Marshal (NewLessMsgPayloadCodec c) (LessMsg x) (NewBufferWriterWithBuff buf, h) =
    (let a = PutUint32 (Magic x); b = PutUint16 (MsgType x)
     in if 4 > s_len buf then (Err ErrWriterBufferNotEnough, fixed_at buf 0, slice_put buf [] h)
        else if 6 > s_len buf then (Err ErrWriterBufferNotEnough, fixed_at buf 4, slice_put buf a h)
        else if 6 + length (Body x) > s_len buf
          then (Err ErrWriterBufferNotEnough, fixed_at buf 6, slice_put buf (a @ b) h)
        else (Ok (), fixed_at buf (6 + length (Body x)), slice_put buf (a @ b @ Body x) h))"
  using fixed_malloc_put[OF v, of "[]" "PutUint32 (Magic x)"]
    fixed_malloc_put[OF v, of "PutUint32 (Magic x)" "PutUint16 (MsgType x)"]
    fixed_Write[OF v, of "PutUint32 (Magic x) @ PutUint16 (MsgType x)" "Body x"]
  by (simp add: NewLessMsgPayloadCodec_def LessMessagePayloadCodec_Marshal_def fixed_new
      slice_put_nil[OF v] write_all_def Let_def)

lemma less_unmarshal:
  assumes f: "frame_at d L 0 l"
  shows "\<exists>l' k. UnMarshal (NewLessMsgPayloadCodec c) l
      = (less_dec dec (take (unat L) (reader_pend d)), l') \<and> frame_at d L k l'"
proof (cases "unat L < 6")
  case True
  then have "uint L < 6" using unat_lt_uint[OF True] by simp
  moreover have "length (take (unat L) (reader_pend d)) < 6" using True by simp
  ultimately show ?thesis
    using unmarshal_law[OF f] f
    by (simp add: NewLessMsgPayloadCodec_def LessMessagePayloadCodec_UnMarshal_def less_dec_def
        MAGICLength_def TypeLength_def)
next
  case False
  let ?p = "reader_pend d" and ?bs = "take (unat L) (reader_pend d)"
  have l6: "6 \<le> length ?p" "\<not> length ?bs < 6" using f False by (auto simp: frame_at_def)
  have big: "\<not> uint L < 6" using False le_unat_uint[of 6 L] by simp
  have tk: "take 4 ?bs = take 4 ?p" "take 2 (drop 4 ?bs) = take 2 (drop 4 ?p)"
      "drop 6 ?bs = take (unat L - 6) (drop 6 ?p)"
    using False by (simp_all add: drop_take)
  obtain l1 where l1: "reader_Peek l (int 4) = (Ok (take 4 (drop 0 ?p)), l1)" "frame_at d L 0 l1"
    using frame_Peek[OF f, of 4] False by auto
  obtain v where v: "Uint32 (take 4 ?p) = Ok v"
    using Uint32_total[of "take 4 ?p"] l6 by auto
  have um: "UnMarshal (NewLessMsgPayloadCodec c) l = (if v \<noteq> MAGIC then UnMarshal c l1
      else and_then (ignore_err (reader_Skip l1 4)) (\<lambda>_ r.
          and_then (reader_Next r 2) (\<lambda>msgType r.
          and_then (Uint16 msgType, r) (\<lambda>t r.
          and_then (reader_Next r (reader_Length r - 4 - 2)) (\<lambda>body r.
            (Ok (LessMsg \<lparr>Magic = MAGIC, MsgType = t, Body = body\<rparr>), r))))))"
    using f big l1 v by (simp add: NewLessMsgPayloadCodec_def LessMessagePayloadCodec_UnMarshal_def
        MAGICLength_def TypeLength_def)
  show ?thesis
  proof (cases "v = MAGIC")
    case no_magic: False
    then have "less_dec dec ?bs = dec ?bs" by (simp only: less_dec_def tk(1) v) simp
    with unmarshal_law[OF l1(2)] no_magic show ?thesis by (simp add: um)
  next
    case True
    obtain l2 where l2: "reader_Skip l1 (int 4) = (Ok (), l2)" "frame_at d L (0 + 4) l2"
      using frame_Next[OF l1(2), of 4] False by auto
    obtain l3 where l3: "reader_Next l2 (int 2) = (Ok (take 2 (drop (0 + 4) ?p)), l3)"
        "frame_at d L (0 + 4 + 2) l3"
      using frame_Next[OF l2(2), of 2] False by auto
    obtain t where t: "Uint16 (take 2 (drop 4 ?p)) = Ok t"
      using Uint16_total[of "take 2 (drop 4 ?p)"] l6 by auto
    have n: "uint L - 6 = int (unat L - 6)" using False big by (simp add: nat_diff_distrib')
    obtain l4 where l4: "reader_Next l3 (int (unat L - 6))
          = (Ok (take (unat L - 6) (drop (0 + 4 + 2) ?p)), l4)"
        "frame_at d L (0 + 4 + 2 + (unat L - 6)) l4"
      using frame_Next[OF l3(2), of "unat L - 6"] False by auto
    have "less_dec dec ?bs = Ok (LessMsg \<lparr>Magic = MAGIC, MsgType = t, Body = take (unat L - 6) (drop 6 ?p)\<rparr>)"
      using True v t l6(2) by (simp only: less_dec_def tk) simp
    moreover have "UnMarshal (NewLessMsgPayloadCodec c) l
        = (Ok (LessMsg \<lparr>Magic = MAGIC, MsgType = t, Body = take (unat L - 6) (drop 6 ?p)\<rparr>), l4)"
      using True l2(1) l3 l4(1) t by (simp add: um n)
    ultimately show ?thesis using l4(2) by (metis (no_types))
  qed
qed

lemma less_contract: "payload_contract (NewLessMsgPayloadCodec c) (less_enc enc) (less_dec dec)"
proof
  fix h :: world and buf m bs
  assume v: "slice_valid h buf" and e: "less_enc enc m = Ok bs"
  have other: "Marshal (NewLessMsgPayloadCodec c) m = Marshal c m" "enc m = Ok bs" if "\<nexists>x. m = LessMsg x"
    using that e by (auto simp: less_enc_def NewLessMsgPayloadCodec_def
        LessMessagePayloadCodec_Marshal_def fun_eq_iff split: message.splits)
  show "\<exists>w. Marshal (NewLessMsgPayloadCodec c) m (NewBufferWriterWithBuff buf, h) = (Ok (), w, slice_put buf bs h)"
    if "length bs \<le> s_len buf"
    using that e less_fixed[OF v] fixed_law[OF v] other
    by (cases "\<exists>x. m = LessMsg x") (auto simp: less_enc_def Let_def)
  show "\<exists>w pre. Marshal (NewLessMsgPayloadCodec c) m (NewBufferWriterWithBuff buf, h)
      = (Err ErrWriterBufferNotEnough, w, slice_put buf pre h) \<and> length pre \<le> s_len buf"
    if short: "s_len buf < length bs"
  proof (cases "\<exists>x. m = LessMsg x")
    case True
    with e short show ?thesis
      by (auto simp: less_enc_def less_fixed[OF v] Let_def) (intro exI conjI, rule refl, simp)+
  qed (use fixed_short[OF v] short other in auto)
next
  fix m e and s :: "writer \<times> world"
  assume "less_enc enc m = Err e"
  then show "Marshal (NewLessMsgPayloadCodec c) m s = (Err e, s)"
    using marshal_err[of m e s]
    by (auto simp: less_enc_def NewLessMsgPayloadCodec_def LessMessagePayloadCodec_Marshal_def
        split: message.splits)
qed (use less_marshal less_unmarshal in blast)+

end

text \<open>The stacks the server builds: the framework's codec around the codec of the user.\<close>

interpretation lt: payload_contract "NewLessMsgPayloadCodec NewTextCodec" "less_enc text_enc" "less_dec text_dec"
  by (rule tx.less_contract)

interpretation lj: payload_contract "NewLessMsgPayloadCodec (jsonPayloadCodec lib msgType)"
  "less_enc (json_Marshal lib)" "less_dec (json_Unmarshal lib msgType)" for lib msgType
  by (rule js.less_contract)

end
