(* ===== verification/Packet.thy ===== *)
theory Packet
  imports Contract "HOL-Library.Sublist"
begin

text \<open>
  Packet codecs (\<^verbatim>\<open>codec/packet\<close>): how a message is framed on the connection, by a length header
  (\<^verbatim>\<open>var_length.go\<close>), a fixed length (\<^verbatim>\<open>fixed_length.go\<close>) or a delimiter (\<^verbatim>\<open>delimiter.go\<close>). Each is
  defined for any payload codec and proved correct for those that keep \<open>payload_contract\<close>.
\<close>

section \<open>The interface PacketCodec (codec/codec.go)\<close>

record 'v packet_codec =
  pkt_Name :: string
  Encode :: "'v message \<Rightarrow> writer \<times> world \<Rightarrow> 'v payload_codec \<Rightarrow> unit outcome \<times> writer \<times> world"
  Decode :: "reader \<Rightarrow> 'v payload_codec \<Rightarrow> 'v message outcome \<times> reader"

text \<open>The outcome of a function once its deferred call has run: a panic there replaces it.\<close>

fun defer_result :: "'a outcome \<Rightarrow> unit outcome \<times> 's \<Rightarrow> 'a outcome \<times> 's" where
  "defer_result out (Panic p, s) = (Panic p, s)"
| "defer_result out (Hang, s) = (Hang, s)"
| "defer_result out (_, s) = (out, s)"

text \<open>
  \<^verbatim>\<open>return payloadCodec.UnMarshal(limitReader)\<close> with a deferred function that releases the limit
  reader and then runs \<open>after\<close> on the reader it decorated. The deferred function runs after a
  panic of \<open>UnMarshal\<close> too, and a panic of its own replaces the outcome.
\<close>

definition unmarshal_deferred ::
    "(reader \<Rightarrow> unit outcome \<times> reader) \<Rightarrow> 'v payload_codec \<Rightarrow> reader \<Rightarrow> uint32 \<Rightarrow>
     'v message outcome \<times> reader" where
  "unmarshal_deferred after pc r limit =
     (case UnMarshal pc (NewLimitReader r limit) of
        (Hang, _) \<Rightarrow> (Hang, r)
      | (out, l) \<Rightarrow>
          (case reader_Release l of
             (rel, _, d) \<Rightarrow>
               defer_result out
                 (and_then (rel, case d of Some r' \<Rightarrow> r' | None \<Rightarrow> r) (\<lambda>_ r'. after r'))))"

definition unmarshal_limited ::
    "'v payload_codec \<Rightarrow> reader \<Rightarrow> uint32 \<Rightarrow> 'v message outcome \<times> reader" where
  "unmarshal_limited = unmarshal_deferred (\<lambda>r. (Ok (), r))"

section \<open>Variable length (var_length.go)\<close>

definition MaxVarintLen32 :: int where "MaxVarintLen32 = 5"

text \<open>The writer that a wrapper made by \<^verbatim>\<open>WrapBufferWriter\<close> passes its calls on to.\<close>

definition wrapped :: "writer \<Rightarrow> writer \<Rightarrow> writer" where
  "wrapped w bw = (case w_decorator bw of LessW w' \<Rightarrow> w' | _ \<Rightarrow> w)"

definition variableLengthCodec_Encode ::
    "'v message \<Rightarrow> writer \<times> world \<Rightarrow> 'v payload_codec \<Rightarrow> unit outcome \<times> writer \<times> world" where
  "variableLengthCodec_Encode message s pc =
     and_then (writer_Malloc MaxVarintLen32 s) (\<lambda>header (w, h).
       case Marshal pc message (WrapBufferWriter w, h) of
         (out, bufferWriter, h1) \<Rightarrow>
           and_then (out, wrapped w bufferWriter, h1) (\<lambda>_ (w1, h1).
             case put_word header (PutUint32 (of_int (writer_MallocLength bufferWriter))) h1 of
               (out2, h2) \<Rightarrow> and_then (out2, w1, h2) (\<lambda>_ s2. writer_Flush s2)))"

definition variableLengthCodec_Decode :: "reader \<Rightarrow> 'v payload_codec \<Rightarrow> 'v message outcome \<times> reader" where
  "variableLengthCodec_Decode r pc =
     and_then (reader_Next r MaxVarintLen32) (\<lambda>header r.
     and_then (Uint32 header, r) (\<lambda>bodyLength r. unmarshal_limited pc r bodyLength))"

definition NewVariableLengthCodec :: "'v packet_codec" where
  "NewVariableLengthCodec =
     \<lparr>pkt_Name = ''variable-length-packet-codec'', Encode = variableLengthCodec_Encode,
      Decode = variableLengthCodec_Decode\<rparr>"

section \<open>Fixed length (fixed_length.go)\<close>

definition fixedLengthCodec_Encode ::
    "uint32 \<Rightarrow> 'v message \<Rightarrow> writer \<times> world \<Rightarrow> 'v payload_codec \<Rightarrow> unit outcome \<times> writer \<times> world" where
  "fixedLengthCodec_Encode len message s pc =
     and_then (writer_Malloc (uint len) s) (\<lambda>buf (w, h).
       case Marshal pc message (NewBufferWriterWithBuff buf, h) of
         (out, _, h1) \<Rightarrow> and_then (out, w, h1) (\<lambda>_ s1. writer_Flush s1))"

definition fixedLengthCodec_Decode ::
    "uint32 \<Rightarrow> reader \<Rightarrow> 'v payload_codec \<Rightarrow> 'v message outcome \<times> reader" where
  "fixedLengthCodec_Decode len r pc = unmarshal_limited pc r len"

definition NewFixedLengthCodec :: "uint32 \<Rightarrow> 'v packet_codec" where
  "NewFixedLengthCodec len =
     \<lparr>pkt_Name = ''fixed-length-packet-codec'', Encode = fixedLengthCodec_Encode len,
      Decode = fixedLengthCodec_Decode len\<rparr>"

section \<open>Delimiter (delimiter.go)\<close>

record delimiterCodec =
  maxLength :: uint32
  delimiterLength :: int
  delimiter :: bytes
  autoAppendDelimiter :: bool
  stripDelimiter :: bool

definition DisableAutoAppendDelimiter :: "delimiterCodec \<Rightarrow> delimiterCodec" where
  "DisableAutoAppendDelimiter dc = dc\<lparr>autoAppendDelimiter := False\<rparr>"

definition DisableStripDelimiter :: "delimiterCodec \<Rightarrow> delimiterCodec" where
  "DisableStripDelimiter dc = dc\<lparr>stripDelimiter := False\<rparr>"

definition delimiter_options ::
    "bytes \<Rightarrow> uint32 \<Rightarrow> (delimiterCodec \<Rightarrow> delimiterCodec) list \<Rightarrow> delimiterCodec" where
  "delimiter_options delim mx ops =
     fold (\<lambda>op dc. op dc) ops
       \<lparr>maxLength = mx, delimiterLength = int (length delim), delimiter = delim,
        autoAppendDelimiter = True, stripDelimiter = True\<rparr>"

definition delimiterCodec_Encode ::
    "delimiterCodec \<Rightarrow> 'v message \<Rightarrow> writer \<times> world \<Rightarrow> 'v payload_codec \<Rightarrow> unit outcome \<times> writer \<times> world" where
  "delimiterCodec_Encode dc message s pc =
     and_then (Marshal pc message s) (\<lambda>_ s.
     and_then (if autoAppendDelimiter dc then write_all (delimiter dc) s else (Ok (), s)) (\<lambda>_ s.
     writer_Flush s))"

text \<open>The test of the loop body: do the peeked bytes end in the delimiter?\<close>

definition delimiterCodec_hit :: "delimiterCodec \<Rightarrow> int \<Rightarrow> bytes \<Rightarrow> bool outcome" where
  "delimiterCodec_hit dc len peek =
     (if delimiterLength dc \<le> int (length peek) then
        (case slice_expr peek (len - delimiterLength dc) (int (length peek)) of
           Ok ending \<Rightarrow> Ok (ending = delimiter dc)
         | Err e \<Rightarrow> Err e | Panic p \<Rightarrow> Panic p | Hang \<Rightarrow> Hang)
      else Ok False)"

function delimiterCodec_loop ::
    "delimiterCodec \<Rightarrow> int \<Rightarrow> bool \<Rightarrow> reader \<Rightarrow> (int \<times> bool) outcome \<times> reader" where
  "delimiterCodec_loop dc len found r =
     (if len \<le> uint (maxLength dc) \<and> \<not> found then
        (case reader_Peek r len of
           (Ok peek, r') \<Rightarrow>
             (case delimiterCodec_hit dc len peek of
                Ok hit \<Rightarrow> delimiterCodec_loop dc (len + 1) hit r'
              | Err e \<Rightarrow> (Err e, r') | Panic p \<Rightarrow> (Panic p, r') | Hang \<Rightarrow> (Hang, r'))
         | (Err e, r') \<Rightarrow> (Err e, r') | (Panic p, r') \<Rightarrow> (Panic p, r') | (Hang, r') \<Rightarrow> (Hang, r'))
      else (Ok (len, found), r))"
  by pat_completeness auto
termination
  by (relation "measure (\<lambda>(dc, len, found, r). nat (uint (maxLength dc) + 1 - len))") auto

declare delimiterCodec_loop.simps [simp del]

definition delimiterCodec_Decode ::
    "delimiterCodec \<Rightarrow> reader \<Rightarrow> 'v payload_codec \<Rightarrow> 'v message outcome \<times> reader" where
  "delimiterCodec_Decode dc r pc =
     and_then (delimiterCodec_loop dc 1 False r) (\<lambda>(len, found) r.
       if \<not> found then (Err ErrMsgSizeGreaterThanMaxLength, r)
       else
         let n = len - 1 - (if stripDelimiter dc then delimiterLength dc else 0)
         in unmarshal_deferred
              (\<lambda>r. if stripDelimiter dc then ignore_err (reader_Skip r (delimiterLength dc)) else (Ok (), r))
              pc r (of_int n))"

definition NewDelimiterCodec ::
    "bytes \<Rightarrow> uint32 \<Rightarrow> (delimiterCodec \<Rightarrow> delimiterCodec) list \<Rightarrow> 'v packet_codec" where
  "NewDelimiterCodec delim mx ops =
     (let dc = delimiter_options delim mx ops
      in \<lparr>pkt_Name = ''delimiter-packet-codec'', Encode = delimiterCodec_Encode dc,
          Decode = delimiterCodec_Decode dc\<rparr>)"

section \<open>What the packet codecs do\<close>

text \<open>The bytes of a length header: four for the length and one that is never written.\<close>

definition length_header :: "nat \<Rightarrow> bytes" where
  "length_header n = PutUint32 (of_nat n) @ [0]"

lemma length_length_header [simp]: "length (length_header n) = 5"
  by (simp add: length_header_def)

lemma Uint32_length_header [simp]: "Uint32 (length_header n @ rest) = Ok (of_nat n)"
  by (simp add: length_header_def)

lemma Uint32_length_header' [simp]: "Uint32 (length_header n) = Ok (of_nat n)"
  using Uint32_length_header[of n "[]"] by simp

lemma writer_inv_wrap [simp]: "writer_inv (WrapBufferWriter w, h) = writer_inv (w, h)"
  by (simp add: WrapBufferWriter_def)

lemma writer_live_wrap [simp]: "writer_live (WrapBufferWriter w, h) = writer_live (w, h)"
  by (simp add: WrapBufferWriter_def)

text \<open>Bytes appended through a wrapper are appended to the wrapped writer.\<close>

lemma appends_unwrap:
  assumes "appends bs (WrapBufferWriter w, h) (bw, h')"
  obtains w' where "wrapped w bw = w'" and "appends bs (w, h) (w', h')"
    and "writer_MallocLength bw = int (length bs)"
proof -
  from assms have ix: "indices bw = int (length bs) # map (\<lambda>i. i + int (length bs)) (indices w)"
      and inv: "writer_inv (bw, h')"
    by (simp_all add: appends_def WrapBufferWriter_def)
  then obtain f w' where bw: "bw = Writer f (LessW w')"
    by (cases bw rule: indices.cases) auto
  with ix assms show thesis
    by (intro that[of w']) (auto simp: wrapped_def appends_def WrapBufferWriter_def
        writer_MallocLength_def split: if_splits)
qed

text \<open>Filling in a slice of an array that the writer no longer uses has no effect on the message.\<close>

lemma put_stale:
  assumes "writer_inv (w, h)" and "s_arr b \<noteq> s_arr (w_buff (writer_base w))" and "length bs \<le> s_len b"
  obtains h' where "put_word b bs h = (Ok (), h')" and "writer_inv (w, h')"
    and "writer_staged (w, h') = writer_staged (w, h)" and "sent h' = sent h" and "faults h' = faults h"
proof -
  let ?h = "slice_put b bs h"
  have "slice_get ?h (w_buff (writer_base w)) = slice_get h (w_buff (writer_base w))"
    using assms(2) by (rule slice_get_put_other)
  moreover have "slice_valid ?h (w_buff (writer_base w)) = slice_valid h (w_buff (writer_base w))"
    using assms(2) by (simp add: slice_valid_def slice_put_def)
  ultimately have "writer_inv (w, ?h)" "writer_staged (w, ?h) = writer_staged (w, h)"
    using assms(1) by (auto simp: writer_inv_base writer_staged_base wf_inv_def staged_def)
  with assms(3) show thesis by (intro that[of ?h]) (simp_all add: put_word_def)
qed

context payload_contract
begin

lemma deferred_ok:
  assumes "reader_inv d" and "reader_room d (unat L)" and "unat L \<le> length (reader_pend d)"
    and "dec (take (unat L) (reader_pend d)) \<noteq> Hang"
  obtains d' where "unmarshal_deferred after c d L
      = defer_result (dec (take (unat L) (reader_pend d))) (after d')"
    and "reader_inv d'" and "reader_pend d' = drop (unat L) (reader_pend d)"
    and "\<forall>m. reader_room d (unat L + m) \<longrightarrow> reader_room d' m"
proof -
  from unmarshal_law[OF frame_new[OF assms(1-3)]] obtain l' k where l':
      "UnMarshal c (NewLimitReader d L) = (dec (take (unat L) (reader_pend d)), l')" "frame_at d L k l'"
    by blast
  from l'(2) obtain l'' d' where "reader_Release l' = (Ok (), l'', Some d')" "reader_inv d'"
      "reader_pend d' = drop (unat L) (reader_pend d)"
      "\<forall>m. reader_room d (unat L + m) \<longrightarrow> reader_room d' m"
    by (rule frame_Release)
  with l'(1) assms(4) show thesis
    by (intro that[of d'], cases "dec (take (unat L) (reader_pend d))")
      (simp_all add: unmarshal_deferred_def)
qed

lemma limited_ok:
  assumes "reader_inv d" and "reader_room d (unat L)" and "unat L \<le> length (reader_pend d)"
    and "dec (take (unat L) (reader_pend d)) \<noteq> Hang"
  obtains d' where "unmarshal_limited c d L = (dec (take (unat L) (reader_pend d)), d')"
    and "reader_inv d'" and "reader_pend d' = drop (unat L) (reader_pend d)"
    and "\<forall>m. reader_room d (unat L + m) \<longrightarrow> reader_room d' m"
  by (rule deferred_ok[OF assms, of "\<lambda>r. (Ok (), r)"]) (auto simp: unmarshal_limited_def intro: that)

lemma var_Decode_ok:
  assumes inv: "reader_inv r" and room: "reader_room r (5 + length bs)"
    and pend: "reader_pend r = length_header (length bs) @ bs @ rest"
    and small: "length bs < 2 ^ 32" and "dec bs \<noteq> Hang"
  obtains r' where "variableLengthCodec_Decode r c = (dec bs, r')" and "reader_inv r'"
    and "reader_pend r' = rest" and "\<forall>m. reader_room r (5 + length bs + m) \<longrightarrow> reader_room r' m"
proof -
  let ?L = "of_nat (length bs) :: uint32"
  have u: "unat ?L = length bs" using small by (simp add: unat_of_nat)
  have "5 \<le> length (reader_pend r)" by (simp add: pend)
  from rd.next_law[OF inv rd.room_fits[OF rd.room_mono[OF room]], of 5, OF _ this]
  obtain r1 where r1: "reader_Next r 5 = (Ok (length_header (length bs)), r1)" "reader_inv r1"
      "reader_pend r1 = bs @ rest" "\<forall>m. reader_room r (5 + m) \<longrightarrow> reader_room r1 m"
    by (auto simp: pend)
  obtain r' where r': "unmarshal_limited c r1 ?L = (dec (take (unat ?L) (reader_pend r1)), r')"
      "reader_inv r'" "reader_pend r' = drop (unat ?L) (reader_pend r1)"
      "\<forall>m. reader_room r1 (unat ?L + m) \<longrightarrow> reader_room r' m"
    by (rule limited_ok[of r1 ?L]) (use r1 room u assms(5) in simp_all)
  with r1 u show thesis
    by (intro that[of r'])
      (simp_all add: variableLengthCodec_Decode_def MaxVarintLen32_def add.assoc)
qed

text \<open>
  The state in which \<open>Encode\<close> fills in the header: the header and the payload are staged, and
  the header slice is still part of the buffer unless the payload made the buffer grow.
\<close>

lemma var_Encode_parts:
  assumes inv: "writer_inv s" and live: "writer_live s" and enc: "enc m = Ok bs"
    and five: "wf_room (base_of s) 5"
  obtains w h hb where "appends (replicate 5 0 @ bs) s (w, h)"
    and "variableLengthCodec_Encode m s c =
        (case put_word (subslice hb (nat (w_index (base_of s))) 5) (PutUint32 (of_nat (length bs))) h of
           (out, h2) \<Rightarrow> and_then (out, w, h2) (\<lambda>_ s2. writer_Flush s2))"
    and "wf_room (base_of s) (5 + length bs) \<longrightarrow> hb = w_buff (writer_base w)"
    and "\<not> wf_room (base_of s) (5 + length bs) \<longrightarrow> s_arr hb \<noteq> s_arr (w_buff (writer_base w))"
proof -
  let ?i = "nat (w_index (base_of s))"
  from writer_Malloc_appends[OF inv live, of 5] obtain w1 h1 where
    m1: "writer_Malloc (int 5) s = (Ok (subslice (w_buff (writer_base w1)) ?i 5), w1, h1)"
    and a1: "appends (replicate 5 0) s (w1, h1)"
    by (metis fst_conv prod.collapse)
  from a1 have inv1: "writer_inv (w1, h1)" "writer_live (w1, h1)" by (rule appendsD)+
  then have "writer_inv (WrapBufferWriter w1, h1)" "writer_live (WrapBufferWriter w1, h1)" by simp_all
  from marshal_law[OF this enc] obtain bw h2 where
    mar: "Marshal c m (WrapBufferWriter w1, h1) = (Ok (), bw, h2)"
    and "appends bs (WrapBufferWriter w1, h1) (bw, h2)" by auto
  then obtain w2 where un: "wrapped w1 bw = w2" "writer_MallocLength bw = int (length bs)"
    and a2: "appends bs (w1, h1) (w2, h2)" by (elim appends_unwrap)
  have room: "wf_room (base_of s) (5 + length bs) \<longleftrightarrow> wf_room (writer_base w1) (length bs)"
    using a1 five by (auto simp: appends_def wf_room_def)
  show thesis
  proof (rule that[of w2 h2 "w_buff (writer_base w1)"])
    show "appends (replicate 5 0 @ bs) s (w2, h2)" using a1 a2 by (rule appends_trans)
    show "variableLengthCodec_Encode m s c = (case put_word (subslice (w_buff (writer_base w1)) ?i 5)
          (PutUint32 (of_nat (length bs))) h2 of
        (out, h2) \<Rightarrow> and_then (out, w2, h2) (\<lambda>_ s2. writer_Flush s2))"
      using m1 mar un by (simp add: variableLengthCodec_Encode_def MaxVarintLen32_def)
    show "wf_room (base_of s) (5 + length bs) \<longrightarrow> w_buff (writer_base w1) = w_buff (writer_base w2)"
      using a2 room by (auto simp: appends_def split: if_splits)
    show "\<not> wf_room (base_of s) (5 + length bs) \<longrightarrow>
        s_arr (w_buff (writer_base w1)) \<noteq> s_arr (w_buff (writer_base w2))"
      using a2 room writer_inv_arr[OF inv1(1)] by (auto simp: appends_def)
  qed
qed

lemma var_Encode_ok:
  assumes inv: "writer_inv s" and live: "writer_live s" and acc: "accepts (snd s)"
    and enc: "enc m = Ok bs" and room: "wf_room (base_of s) (5 + length bs)"
  shows "\<exists>s'. variableLengthCodec_Encode m s c = (Ok (), s') \<and> writer_inv s' \<and> writer_staged s' = [] \<and>
    sent (snd s') = sent (snd s) @ writer_staged s @ length_header (length bs) @ bs"
proof -
  have "wf_room (base_of s) 5" using room by (simp add: wf_room_def)
  from var_Encode_parts[OF inv live enc this] obtain w h where
    a: "appends ([] @ replicate 5 0 @ bs) s (w, h)" and
    e: "variableLengthCodec_Encode m s c = (case put_word (subslice (w_buff (writer_base w))
          (nat (w_index (base_of s))) 5) (PutUint32 (of_nat (length bs))) h of
        (out, h2) \<Rightarrow> and_then (out, w, h2) (\<lambda>_ s2. writer_Flush s2))"
    using room by (metis append_Nil)
  from appends_put[OF inv a, of "PutUint32 (of_nat (length bs))"] obtain h' where
    p: "put_word (subslice (w_buff (writer_base w)) (nat (w_index (base_of s))) 5)
        (PutUint32 (of_nat (length bs))) h = (Ok (), h')"
    and a': "appends (length_header (length bs) @ bs) s (w, h')"
    by (auto simp: length_header_def)
  have "accepts (snd (w, h'))" using acc a' by (simp add: accepts_def appends_def)
  from wr.flush_law[OF appendsD(1)[OF a'] this] show ?thesis
    using appendsD(3,4)[OF a'] by (auto simp: e p)
qed

text \<open>A connection that never fails is still one afterwards.\<close>

lemma var_Encode_faults:
  assumes inv: "writer_inv s" and live: "writer_live s" and free: "faults (snd s) = []"
    and enc: "enc m = Ok bs" and room: "wf_room (base_of s) (5 + length bs)"
    and e: "variableLengthCodec_Encode m s c = (out, s')"
  shows "faults (snd s') = []"
proof -
  have "wf_room (base_of s) 5" using room by (simp add: wf_room_def)
  from var_Encode_parts[OF inv live enc this] obtain w h where
    a: "appends ([] @ replicate 5 0 @ bs) s (w, h)" and
    e': "variableLengthCodec_Encode m s c = (case put_word (subslice (w_buff (writer_base w))
          (nat (w_index (base_of s))) 5) (PutUint32 (of_nat (length bs))) h of
        (out, h2) \<Rightarrow> and_then (out, w, h2) (\<lambda>_ s2. writer_Flush s2))"
    using room by (metis append_Nil)
  from appends_put[OF inv a, of "PutUint32 (of_nat (length bs))"] obtain h' where
    p: "put_word (subslice (w_buff (writer_base w)) (nat (w_index (base_of s))) 5)
        (PutUint32 (of_nat (length bs))) h = (Ok (), h')"
    and a': "appends (length_header (length bs) @ bs) s (w, h')"
    by (auto simp: length_header_def)
  have "faults h' = []" using free a' by (simp add: appends_def)
  with e e' p show ?thesis using writer_Flush_no_faults[of "(w, h')"] by simp
qed

lemma var_Encode_stale:
  assumes inv: "writer_inv s" and live: "writer_live s" and acc: "accepts (snd s)"
    and enc: "enc m = Ok bs" and five: "wf_room (base_of s) 5"
    and no: "\<not> wf_room (base_of s) (5 + length bs)"
  shows "\<exists>s'. variableLengthCodec_Encode m s c = (Ok (), s') \<and>
    sent (snd s') = sent (snd s) @ writer_staged s @ replicate 5 0 @ bs"
proof -
  from var_Encode_parts[OF inv live enc five] obtain w h hb where
    a: "appends (replicate 5 0 @ bs) s (w, h)" and
    e: "variableLengthCodec_Encode m s c = (case put_word (subslice hb
          (nat (w_index (base_of s))) 5) (PutUint32 (of_nat (length bs))) h of
        (out, h2) \<Rightarrow> and_then (out, w, h2) (\<lambda>_ s2. writer_Flush s2))" and
    hb: "s_arr hb \<noteq> s_arr (w_buff (writer_base w))"
    using no by metis
  let ?hdr = "subslice hb (nat (w_index (base_of s))) 5"
  have "s_arr ?hdr \<noteq> s_arr (w_buff (writer_base w))"
      "length (PutUint32 (of_nat (length bs) :: uint32)) \<le> s_len ?hdr"
    using hb by (simp_all add: subslice_def)
  with appendsD(1)[OF a] obtain h' where
      p: "put_word ?hdr (PutUint32 (of_nat (length bs))) h = (Ok (), h')"
      and h': "writer_inv (w, h')" "writer_staged (w, h') = writer_staged (w, h)" "sent h' = sent h"
        "faults h' = faults h"
    by (rule put_stale)
  have "accepts (snd (w, h'))" using acc a h'(4) by (simp add: accepts_def appends_def)
  from wr.flush_law[OF h'(1) this] show ?thesis
    using appendsD(3,4)[OF a] h' by (auto simp: e p)
qed

lemma var_Encode_error:
  assumes inv: "writer_inv s" and live: "writer_live s" and enc: "enc m = Err e"
  shows "\<exists>s'. variableLengthCodec_Encode m s c = (Err e, s') \<and> appends (replicate 5 0) s s'"
proof -
  from writer_Malloc_appends[OF inv live, of 5] obtain w1 h1 b where
    "writer_Malloc 5 s = (Ok b, w1, h1)" "appends (replicate 5 0) s (w1, h1)"
    by (metis of_nat_numeral prod.collapse)
  with marshal_err[OF enc] show ?thesis
    by (simp add: variableLengthCodec_Encode_def MaxVarintLen32_def wrapped_def WrapBufferWriter_def)
qed

lemma fixed_Encode_ok:
  assumes inv: "writer_inv s" and live: "writer_live s" and acc: "accepts (snd s)"
    and enc: "enc m = Ok bs" and len: "length bs \<le> unat L" and pos: "0 < unat L"
  shows "\<exists>s'. fixedLengthCodec_Encode L m s c = (Ok (), s') \<and> writer_inv s' \<and> writer_staged s' = [] \<and>
    sent (snd s') = sent (snd s) @ writer_staged s @ bs @ replicate (unat L - length bs) 0"
proof -
  let ?i = "nat (w_index (base_of s))"
  from writer_Malloc_appends[OF inv live, of "unat L"] obtain w h where
    ml: "writer_Malloc (int (unat L)) s = (Ok (subslice (w_buff (writer_base w)) ?i (unat L)), w, h)"
    and a: "appends ([] @ replicate (unat L) 0 @ []) s (w, h)"
    by (metis append_Nil append_Nil2 fst_conv prod.collapse)
  let ?b = "subslice (w_buff (writer_base w)) ?i (unat L)"
  have v: "slice_valid h ?b" and lb: "s_len ?b = unat L"
  proof -
    have "w_index (writer_base w) \<le> int (s_len (w_buff (writer_base w)))" "0 \<le> w_index (base_of s)"
        "w_index (writer_base w) = w_index (base_of s) + int (unat L)" "wf_inv (writer_base w) h"
      using a inv writer_inv_base[of "fst s" "snd s"] writer_live_base[of w h]
      by (auto simp: appends_def writer_inv_base wf_inv_def)
    then have "int ?i + int (unat L) \<le> int (s_cap (w_buff (writer_base w)))"
        "slice_valid h (w_buff (writer_base w))"
      by (auto simp: wf_inv_def)
    then show "slice_valid h ?b"
      by (intro slice_valid_subslice) (simp_all only: flip: of_nat_add of_nat_le_iff[where 'a = int])
  qed (simp add: subslice_def)
  from fixed_law[OF v enc] len lb obtain w' where
    mar: "Marshal c m (NewBufferWriterWithBuff ?b, h) = (Ok (), w', slice_put ?b bs h)" by auto
  from appends_put(2)[OF inv a len pos] have a':
    "appends (bs @ replicate (unat L - length bs) 0) s (w, slice_put ?b bs h)" by simp
  have "accepts (snd (w, slice_put ?b bs h))" using acc a' by (simp add: accepts_def appends_def)
  from wr.flush_law[OF appendsD(1)[OF a'] this] show ?thesis
    using appendsD(3,4)[OF a'] ml mar by (auto simp: fixedLengthCodec_Encode_def)
qed

lemma fixed_Decode_ok:
  assumes "reader_inv r" and "reader_room r (unat L)" and "reader_pend r = bs @ rest"
    and "length bs = unat L" and "dec bs \<noteq> Hang"
  obtains r' where "fixedLengthCodec_Decode L r c = (dec bs, r')" and "reader_inv r'"
    and "reader_pend r' = rest" and "\<forall>m. reader_room r (unat L + m) \<longrightarrow> reader_room r' m"
  by (rule limited_ok[of r L]) (use assms in \<open>auto simp: fixedLengthCodec_Decode_def intro!: that\<close>)

end

subsection \<open>The scan for the delimiter\<close>

definition ends_at :: "bytes \<Rightarrow> bytes \<Rightarrow> nat \<Rightarrow> bool" where
  "ends_at delim stream k \<longleftrightarrow> length delim \<le> k \<and> drop (k - length delim) (take k stream) = delim"

lemma hit_ends_at:
  "delimiterLength dc = int (length (delimiter dc)) \<Longrightarrow> k \<le> length stream \<Longrightarrow>
   delimiterCodec_hit dc (int k) (take k stream) = Ok (ends_at (delimiter dc) stream k)"
  by (auto simp: delimiterCodec_hit_def ends_at_def slice_expr_def nat_diff_distrib' drop_take)

lemma not_ends_at:
  assumes "\<not> sublist delim (bs @ butlast delim)" and "k < length bs + length delim"
  shows "\<not> ends_at delim (bs @ delim @ rest) k"
proof
  assume "ends_at delim (bs @ delim @ rest) k"
  then have "suffix delim (take k (bs @ delim @ rest))"
    by (metis ends_at_def suffix_drop)
  moreover have "take k (bs @ delim @ rest) = take k (bs @ butlast delim)"
    using assms(2) by (cases "delim = []") (auto simp: butlast_conv_take take_Cons' min_def)
  ultimately have "sublist delim (bs @ butlast delim)"
    by (metis prefix_imp_sublist sublist_order.order_trans suffix_imp_sublist take_is_prefix)
  with assms(1) show False by simp
qed

lemma delimiter_loop_scan:
  assumes dl: "delimiterLength dc = int (length (delimiter dc))"
    and inv: "reader_inv r" and room: "reader_room r n" and len: "n \<le> length (reader_pend r)"
    and none: "\<forall>j. k \<le> j \<longrightarrow> j < n \<longrightarrow> \<not> ends_at (delimiter dc) (reader_pend r) j"
    and k: "1 \<le> k" "k \<le> n" and mx: "int n \<le> uint (maxLength dc)"
  shows "\<exists>r'. delimiterCodec_loop dc (int k) False r
      = delimiterCodec_loop dc (int n + 1) (ends_at (delimiter dc) (reader_pend r) n) r' \<and>
    reader_inv r' \<and> reader_pend r' = reader_pend r \<and> (\<forall>m. reader_room r m \<longrightarrow> reader_room r' m)"
  using k(2) k(1) inv room len none
proof (induction "n - k" arbitrary: k r)
  case 0
  then have kn: "k = n" by simp
  with 0 obtain r' where "reader_Peek r (int n) = (Ok (take n (reader_pend r)), r')" "reader_inv r'"
      "reader_pend r' = reader_pend r" "\<forall>m. reader_room r m \<longrightarrow> reader_room r' m"
    using rd.peek_law[OF 0(4) rd.room_fits[OF 0(5)] 0(6)] by blast
  with kn mx hit_ends_at[OF dl 0(6)] show ?case
    by (auto simp: delimiterCodec_loop.simps[of dc "int n" False r])
next
  case (Suc x)
  have fits: "reader_fits r k"
    using Suc.prems(1) by (intro rd.room_fits rd.room_mono[OF Suc.prems(4)])
  have lk: "k \<le> length (reader_pend r)" using Suc.prems by simp
  from rd.peek_law[OF Suc.prems(3) fits lk] obtain r1 where r1:
      "reader_Peek r (int k) = (Ok (take k (reader_pend r)), r1)" "reader_inv r1"
      "reader_pend r1 = reader_pend r" "\<forall>m. reader_room r m \<longrightarrow> reader_room r1 m"
    by blast
  have nk: "\<not> ends_at (delimiter dc) (reader_pend r) k"
    using Suc.prems(6) Suc.hyps(2) by simp
  have step: "delimiterCodec_loop dc (int k) False r = delimiterCodec_loop dc (int (Suc k)) False r1"
    using r1(1) hit_ends_at[OF dl lk] nk mx Suc.prems(1)
    by (simp add: delimiterCodec_loop.simps[of dc "int k" False r] add.commute)
  have "\<exists>r'. delimiterCodec_loop dc (int (Suc k)) False r1
      = delimiterCodec_loop dc (int n + 1) (ends_at (delimiter dc) (reader_pend r1) n) r' \<and>
    reader_inv r' \<and> reader_pend r' = reader_pend r1 \<and> (\<forall>m. reader_room r1 m \<longrightarrow> reader_room r' m)"
    using r1 Suc.prems Suc.hyps(2) by (intro Suc.hyps(1)) auto
  then show ?case using r1 by (auto simp: step)
qed

context payload_contract
begin

lemma delimiter_Decode_ok:
  assumes inv: "reader_inv r" and pend: "reader_pend r = bs @ delimiter dc @ rest"
    and dl: "delimiterLength dc = int (length (delimiter dc))" and ne: "delimiter dc \<noteq> []"
    and room: "reader_room r (length bs + length (delimiter dc))"
    and mx: "length bs + length (delimiter dc) \<le> unat (maxLength dc)"
    and free: "\<not> sublist (delimiter dc) (bs @ butlast (delimiter dc))"
    and dec: "dec bs \<noteq> Hang" "dec (bs @ delimiter dc) \<noteq> Hang"
  shows "\<exists>r'. delimiterCodec_Decode dc r c
      = (dec (if stripDelimiter dc then bs else bs @ delimiter dc), r') \<and>
    reader_inv r' \<and> reader_pend r' = rest"
proof -
  let ?d = "delimiter dc" and ?n = "length bs + length (delimiter dc)"
  have mx': "int ?n \<le> uint (maxLength dc)" using le_unat_uint[OF mx] by simp
  have hit: "ends_at ?d (reader_pend r) ?n" by (simp add: ends_at_def pend)
  have pos: "0 < length ?d" using ne by simp
  from delimiter_loop_scan[OF dl inv room _ _ _ _ mx', of 1] obtain r1 where r1:
      "delimiterCodec_loop dc 1 False r = delimiterCodec_loop dc (int ?n + 1) True r1"
      "reader_inv r1" "reader_pend r1 = reader_pend r" "\<forall>m. reader_room r m \<longrightarrow> reader_room r1 m"
    using hit not_ends_at[OF free] pos by (auto simp: pend)
  then have lp: "delimiterCodec_loop dc 1 False r = (Ok (int ?n + 1, True), r1)"
    by (simp add: delimiterCodec_loop.simps[where found = True])
  have room1: "reader_room r1 ?n" using r1(4) room by blast
  define L :: uint32 where "L = of_nat (if stripDelimiter dc then length bs else ?n)"
  have u: "unat L = (if stripDelimiter dc then length bs else ?n)"
  proof -
    have "length bs < 2 ^ 32" "?n < 2 ^ 32" using mx unat_uint32_bound[of "maxLength dc"] by simp_all
    then show ?thesis by (simp add: L_def unat_of_nat)
  qed
  have L: "of_int (int ?n + 1 - 1 - (if stripDelimiter dc then delimiterLength dc else 0)) = L"
    by (simp add: L_def dl)
  let ?after = "\<lambda>r. if stripDelimiter dc then ignore_err (reader_Skip r (delimiterLength dc)) else (Ok (), r)"
  let ?m = "if stripDelimiter dc then bs else bs @ ?d"
  have tk: "take (unat L) (reader_pend r1) = ?m" by (simp add: u r1(3) pend)
  have rm: "reader_room r1 (unat L)" using rd.room_mono[OF room1] u by simp
  obtain d' where d': "unmarshal_deferred ?after c r1 L = defer_result (dec ?m) (?after d')"
      "reader_inv d'" "reader_pend d' = drop (unat L) (reader_pend r1)"
      "\<forall>m. reader_room r1 (unat L + m) \<longrightarrow> reader_room d' m"
    by (rule deferred_ok[of r1 L ?after]) (use r1 rm dec tk in \<open>simp_all add: u pend split: if_splits\<close>)
  have dd: "delimiterCodec_Decode dc r c = unmarshal_deferred ?after c r1 L"
    unfolding delimiterCodec_Decode_def lp by (simp add: Let_def L[simplified])
  show ?thesis
  proof (cases "stripDelimiter dc")
    case True
    then have "reader_room d' (length ?d)" "length ?d \<le> length (reader_pend d')"
      using d'(3,4) room1 by (simp_all add: u r1(3) pend)
    from rd.next_law[OF d'(2) rd.room_fits[OF this(1)] this(2)] True show ?thesis
      using d' by (auto simp: dd dl u r1(3) pend)
  next
    case False
    with d' show ?thesis by (auto simp: dd u r1(3) pend)
  qed
qed

lemma delimiter_Encode_ok:
  assumes inv: "writer_inv s" and live: "writer_live s" and acc: "accepts (snd s)"
    and enc: "enc m = Ok bs"
  shows "\<exists>s'. delimiterCodec_Encode dc m s c = (Ok (), s') \<and> writer_inv s' \<and> writer_staged s' = [] \<and>
    sent (snd s') = sent (snd s) @ writer_staged s @ bs @ (if autoAppendDelimiter dc then delimiter dc else [])"
proof -
  from marshal_law[OF inv live enc] obtain s1 where s1: "Marshal c m s = (Ok (), s1)" "appends bs s s1"
    by blast
  let ?d = "if autoAppendDelimiter dc then delimiter dc else []"
  have "\<exists>s2. (if autoAppendDelimiter dc then write_all (delimiter dc) s1 else (Ok (), s1)) = (Ok (), s2) \<and>
      appends ?d s1 s2"
    using write_all_appends[OF appendsD(1,2)[OF s1(2)]] appends_nil[OF appendsD(1,2)[OF s1(2)]]
    by (cases "autoAppendDelimiter dc"; cases s1) auto
  then obtain s2 where s2:
      "(if autoAppendDelimiter dc then write_all (delimiter dc) s1 else (Ok (), s1)) = (Ok (), s2)"
      "appends ?d s1 s2" by blast
  from appends_trans[OF s1(2) s2(2)] have a: "appends (bs @ ?d) s s2" .
  have "accepts (snd s2)" using acc a by (simp add: accepts_def appends_def)
  from wr.flush_law[OF appendsD(1)[OF a] this] show ?thesis
    using appendsD(3,4)[OF a] s1(1) s2(1) by (auto simp: delimiterCodec_Encode_def)
qed

end

end
