(* ===== verification/Connection.thy ===== *)
theory Connection
  imports Reader Writer
begin

text \<open>
  The TCP connection of \<^verbatim>\<open>transport/tcp/std.go\<close>: a wrapper around \<^verbatim>\<open>net.Conn\<close> that makes a reader and
  a writer for every message and closes the delegate at most once.
\<close>

text \<open>
  The delegate is the stream of bytes that will arrive (\<open>c_source\<close>), the connection end that takes
  written bytes (\<open>c_world\<close>), its addresses, and how often it was closed.
\<close>

record connection =
  c_source :: source
  c_world :: world
  c_local :: string
  c_remote :: string
  delegate_closes :: nat
  c_closed :: uint32

definition Active :: uint32 where "Active = 0"
definition Inactive :: uint32 where "Inactive = 1"

definition WrapConnection :: "source \<Rightarrow> world \<Rightarrow> string \<Rightarrow> string \<Rightarrow> connection" where
  "WrapConnection src h loc rem =
     \<lparr>c_source = src, c_world = h, c_local = loc, c_remote = rem, delegate_closes = 0, c_closed = Active\<rparr>"

definition connection_Read :: "nat \<Rightarrow> connection \<Rightarrow> (bytes \<times> go_error option) \<times> connection" where
  "connection_Read n c = (let (res, src) = source_Read (c_source c) n in (res, c\<lparr>c_source := src\<rparr>))"

text \<open>\<open>pooled\<close> is the reader that comes out of the pool.\<close>

definition connection_Reader :: "bufferReader \<Rightarrow> source \<Rightarrow> reader" where
  "connection_Reader pooled src = BufR (NewBufferReader pooled src)"

definition connection_Writer :: "world \<Rightarrow> writer \<times> world" where
  "connection_Writer h = NewBufferWriter ConnW h"

definition connection_IsActive :: "connection \<Rightarrow> bool" where
  "connection_IsActive c \<longleftrightarrow> c_closed c = Active"

definition connection_Close :: "connection \<Rightarrow> connection" where
  "connection_Close c =
     (if c_closed c = Active then c\<lparr>c_closed := Inactive, delegate_closes := delegate_closes c + 1\<rparr> else c)"

definition connection_LocalAddr :: "connection \<Rightarrow> string" where
  "connection_LocalAddr c = c_local c"

definition connection_RemoteAddr :: "connection \<Rightarrow> string" where
  "connection_RemoteAddr c = c_remote c"

text \<open>However often a connection is closed, its delegate is closed once.\<close>

lemma connection_Close_idem [simp]: "connection_Close (connection_Close c) = connection_Close c"
  by (simp add: connection_Close_def Active_def Inactive_def)

lemma connection_Close_inactive [simp]: "\<not> connection_IsActive (connection_Close c)"
  by (simp add: connection_Close_def connection_IsActive_def Active_def Inactive_def)

end
