(* ===== verification/CodecProps.thy ===== *)
theory CodecProps
  imports Packet Connection
begin

text \<open>
  Properties of the codecs end to end: a message is encoded with the writer of a connection
  (\<^verbatim>\<open>connection.Writer\<close> of \<^verbatim>\<open>transport/tcp/std.go\<close> makes a new one for every message) and decoded
  with a new reader at the other end, whatever segments the bytes arrive in.
\<close>

section \<open>The reader and writer of a connection (transport/tcp/std.go)\<close>

text \<open>A reader that comes out of the pool is new or was released; both have zero indices.\<close>

definition pooled_ok :: "bufferReader \<Rightarrow> bool" where
  "pooled_ok r \<longleftrightarrow> readIndex r = 0 \<and> writeIndex r = 0"

lemma pooled_New [simp]: "pooled_ok bufferReaderPool_New"
  by (simp add: pooled_ok_def bufferReaderPool_New_def)

lemma pooled_Release [simp]: "pooled_ok (bufferReader_Release r)"
  by (simp add: pooled_ok_def bufferReader_Release_def)

lemma connection_Reader_ok:
  assumes "pooled_ok p"
  shows "reader_inv (connection_Reader p src)" and "reader_pend (connection_Reader p src) = flat src"
    and "reader_room (connection_Reader p src) n \<longleftrightarrow> n \<le> 256"
  using assms by (auto simp: connection_Reader_def NewBufferReader_def pooled_ok_def
      bufferReader_inv_def bufferReader_pend_def buffered_def source_bytes_def bufferReader_room_def)

lemma connection_Writer_ok:
  shows "writer_inv (connection_Writer h)" and "writer_live (connection_Writer h)"
    and "writer_staged (connection_Writer h) = []" and "sent (snd (connection_Writer h)) = sent h"
    and "faults (snd (connection_Writer h)) = faults h"
    and "wf_room (base_of (connection_Writer h)) n \<longleftrightarrow> n \<le> 256"
proof -
  obtain w h' where "NewBufferWriter ConnW h = (w, h')" by fastforce
  from NewBufferWriter_ok[OF this] this
  show "writer_inv (connection_Writer h)" "writer_live (connection_Writer h)"
    "writer_staged (connection_Writer h) = []" "sent (snd (connection_Writer h)) = sent h"
    "faults (snd (connection_Writer h)) = faults h"
    by (simp_all add: connection_Writer_def)
qed (simp add: connection_Writer_def NewBufferWriter_def make_slice_def defaultBufferSize_def
    wf_room_def Let_def)

lemma connection_accepts: "accepts h \<Longrightarrow> accepts (snd (connection_Writer h))"
  by (simp add: accepts_def connection_Writer_ok)

section \<open>Text of any length through a new reader\<close>

text \<open>The reader of a connection after the length header.\<close>

lemma connection_header:
  assumes "pooled_ok p" and "flat src = length_header n @ rest"
  obtains r1 where "reader_Next (connection_Reader p src) 5 = (Ok (length_header n), BufR r1)"
    and "bufferReader_inv r1" and "r_growable r1" and "bufferReader_pend r1 = rest"
    and "readIndex r1 = 5" and "writeIndex r1 = 5" and "r_len r1 = 256"
proof -
  let ?r = "NewBufferReader p src"
  have r: "bufferReader_inv ?r" "bufferReader_room ?r 5" "bufferReader_pend ?r = flat src"
    using connection_Reader_ok[OF assms(1), of src] by (simp_all add: connection_Reader_def)
  then have "bufferReader_fits ?r 5" "5 \<le> length (bufferReader_pend ?r)"
    using assms(2) by (simp_all add: bufferReader_fits_def)
  with r(1) show thesis
  proof (rule bufferReader_Next_ok)
    fix r'
    assume "bufferReader_Next ?r (int 5) = (Ok (take 5 (bufferReader_pend ?r)), r')"
      "bufferReader_inv r'" "bufferReader_pend r' = drop 5 (bufferReader_pend ?r)"
      "readIndex r' = readIndex ?r + int 5" "r_growable r' = r_growable ?r"
      "writeIndex r' = max (writeIndex ?r) (readIndex ?r + int 5)"
      "bufferReader_room ?r 5 \<Longrightarrow> r_len r' = r_len ?r"
    then show thesis
      using r assms by (intro that[of r'])
        (simp_all add: connection_Reader_def NewBufferReader_def pooled_ok_def)
  qed
qed

text \<open>
  The text codec asks for its whole frame with one \<open>Next\<close>, so the outcome of the decoding is
  that of this call, unless the release of the limit reader panics as well.
\<close>

lemma text_frame:
  assumes inv: "bufferReader_inv r" and grow: "r_growable r" and pend: "bufferReader_pend r = b @ rest"
    and len: "length b = unat L"
  shows "fst (unmarshal_limited NewTextCodec (BufR r) L)
    = (if bufferReader_fits r (length b) then Ok (StringMsg b) else Panic SliceBounds)"
proof (cases "bufferReader_fits r (length b)")
  case True
  have le: "length b \<le> length (bufferReader_pend r)" by (simp add: pend)
  show ?thesis
    by (rule bufferReader_Next_ok[OF inv True le])
      (use len True pend in \<open>simp add: unmarshal_limited_def unmarshal_deferred_def NewTextCodec_def
        textPayloadCodec_UnMarshal_def NewLimitReader_def\<close>)
next
  case False
  from bufferReader_Next_panic[OF inv grow False] obtain r1 where r1:
      "bufferReader_Next r (int (length b)) = (Panic SliceBounds, r1)" "bufferReader_inv r1" "r_growable r1"
    by blast
  from bufferReader_Skip_cases[OF r1(2,3), of "unat L"] obtain out r2 where
      "bufferReader_Skip r1 (int (unat L)) = (out, r2)"
      "out = Ok () \<or> (\<exists>e. out = Err e) \<or> out = Panic SliceBounds"
    by blast
  with r1(1) False len show ?thesis
    by (auto simp: unmarshal_limited_def unmarshal_deferred_def NewTextCodec_def
        textPayloadCodec_UnMarshal_def NewLimitReader_def)
qed

section \<open>Properties\<close>

text \<open>
  C4: the variable-length codec transports messages. For every payload codec that keeps the
  contract, a message of at most 251 encoded bytes sent over a connection is decoded at the
  other end to what its bytes mean, from any segmentation of the stream, and the reader is
  left at the first byte behind it.
\<close>

theorem var_length_round_trip:
  assumes "payload_contract c enc dec" and "enc m = Ok bs" and "length bs \<le> 251"
    and "dec bs \<noteq> Hang" and "accepts h" and "pooled_ok p"
  shows "\<exists>s'. Encode NewVariableLengthCodec m (connection_Writer h) c = (Ok (), s') \<and>
    (\<forall>src rest. flat src = drop (length (sent h)) (sent (snd s')) @ rest \<longrightarrow>
      (\<exists>r'. Decode NewVariableLengthCodec (connection_Reader p src) c = (dec bs, r') \<and>
        reader_inv r' \<and> reader_pend r' = rest))"
proof -
  from assms(3) have room: "wf_room (base_of (connection_Writer h)) (5 + length bs)"
    by (simp add: connection_Writer_ok)
  from payload_contract.var_Encode_ok[OF assms(1) connection_Writer_ok(1,2)
      connection_accepts[OF assms(5)] assms(2) room] obtain s' where
    s': "variableLengthCodec_Encode m (connection_Writer h) c = (Ok (), s')"
      "sent (snd s') = sent h @ length_header (length bs) @ bs"
    by (auto simp: connection_Writer_ok)
  have "\<exists>r'. variableLengthCodec_Decode (connection_Reader p src) c = (dec bs, r') \<and>
      reader_inv r' \<and> reader_pend r' = rest"
    if "flat src = drop (length (sent h)) (sent (snd s')) @ rest" for src rest
    by (rule payload_contract.var_Decode_ok[OF assms(1) connection_Reader_ok(1)[OF assms(6)], of src bs rest])
      (use that s'(2) assms in \<open>auto simp: connection_Reader_ok\<close>)
  with s'(1) show ?thesis by (auto simp: NewVariableLengthCodec_def)
qed

definition no_world :: world where
  "no_world = \<lparr>arr = \<lambda>_. [], brk = 0, sent = [], faults = []\<rparr>"

lemma accepts_no_world [simp]: "accepts no_world"
  by (simp add: accepts_def no_world_def)

theorem var_length_round_trip_witness:
  "\<exists>s'. Encode NewVariableLengthCodec (StringMsg (str ''hi'') :: unit message) (connection_Writer no_world)
      (NewLessMsgPayloadCodec NewTextCodec) = (Ok (), s') \<and>
    (\<forall>src rest. flat src = drop (length (sent no_world)) (sent (snd s')) @ rest \<longrightarrow>
      (\<exists>r'. Decode NewVariableLengthCodec (connection_Reader bufferReaderPool_New src)
          (NewLessMsgPayloadCodec NewTextCodec) = (Ok (StringMsg (str ''hi'') :: unit message), r') \<and>
        reader_inv r' \<and> reader_pend r' = rest))"
proof -
  have "less_dec text_dec (str ''hi'') = Ok (StringMsg (str ''hi'') :: unit message)"
    by (simp add: less_dec_def text_dec_def)
  moreover have "less_enc text_enc (StringMsg (str ''hi'') :: unit message) = Ok (str ''hi'')"
    by (simp add: less_enc_def)
  ultimately show ?thesis
    using var_length_round_trip[OF lt.payload_contract_axioms, of "StringMsg (str ''hi'') :: unit message"
        "str ''hi''" no_world bufferReaderPool_New] by simp
qed

text \<open>
  C23: the length header is lost when the message does not fit into the writer's first buffer.
  For a message of more than 251 encoded bytes \<^verbatim>\<open>Encode\<close> reports success but sends five zero
  bytes in place of the header, because the slice that \<^verbatim>\<open>Malloc\<close> returned belongs to the array
  the writer has left; the receiver decodes an empty message and then reads the payload as
  the next header.
\<close>

theorem var_length_header_lost:
  assumes "payload_contract c enc dec" and "enc m = Ok bs" and "251 < length bs"
    and "dec [] \<noteq> Hang" and "accepts h" and "pooled_ok p"
  shows "\<exists>s'. Encode NewVariableLengthCodec m (connection_Writer h) c = (Ok (), s') \<and>
    sent (snd s') = sent h @ replicate 5 0 @ bs \<and>
    (\<forall>src rest. flat src = drop (length (sent h)) (sent (snd s')) @ rest \<longrightarrow>
      (\<exists>r'. Decode NewVariableLengthCodec (connection_Reader p src) c = (dec [], r') \<and>
        reader_pend r' = bs @ rest))"
proof -
  have five: "wf_room (base_of (connection_Writer h)) 5"
    and no: "\<not> wf_room (base_of (connection_Writer h)) (5 + length bs)"
    using assms(3) by (simp_all add: connection_Writer_ok)
  from payload_contract.var_Encode_stale[OF assms(1) connection_Writer_ok(1,2)
      connection_accepts[OF assms(5)] assms(2) five no] obtain s' where
    s': "variableLengthCodec_Encode m (connection_Writer h) c = (Ok (), s')"
      "sent (snd s') = sent h @ replicate 5 0 @ bs"
    by (auto simp: connection_Writer_ok)
  have z: "replicate 5 0 = length_header (length ([] :: bytes))"
    by (simp add: length_header_def PutUint32_def numeral_eq_Suc)
  have "\<exists>r'. variableLengthCodec_Decode (connection_Reader p src) c = (dec [], r') \<and>
      reader_pend r' = bs @ rest"
    if "flat src = drop (length (sent h)) (sent (snd s')) @ rest" for src rest
    by (rule payload_contract.var_Decode_ok[OF assms(1) connection_Reader_ok(1)[OF assms(6)],
          of src "[]" "bs @ rest"])
      (use that s'(2) z assms in \<open>auto simp: connection_Reader_ok\<close>)
  with s' show ?thesis by (auto simp: NewVariableLengthCodec_def)
qed

theorem var_length_header_lost_witness:
  "\<exists>s'. Encode NewVariableLengthCodec (BytesMsg (replicate 300 7) :: unit message)
      (connection_Writer no_world) NewTextCodec = (Ok (), s') \<and>
    sent (snd s') = sent no_world @ replicate 5 0 @ replicate 300 7 \<and>
    (\<forall>src rest. flat src = drop (length (sent no_world)) (sent (snd s')) @ rest \<longrightarrow>
      (\<exists>r'. Decode NewVariableLengthCodec (connection_Reader bufferReaderPool_New src) NewTextCodec
          = (text_dec [] :: unit message outcome, r') \<and> reader_pend r' = replicate 300 7 @ rest))"
  by (rule var_length_header_lost[OF tx.payload_contract_axioms]) (simp_all add: text_dec_def)

text \<open>
  C25: a text of at most 251 bytes, sent through the framework's codec, comes back as the same text
  exactly when it cannot be mistaken for one of the framework's messages, that is, unless it has at
  least six bytes and starts with the magic number.
\<close>

theorem less_text_round_trip_iff:
  assumes "length b \<le> 251" and "accepts h" and "pooled_ok p"
    and "flat src = length_header (length b) @ b @ rest"
  shows "(\<exists>s'. Encode NewVariableLengthCodec (StringMsg b :: 'v message) (connection_Writer h)
        (NewLessMsgPayloadCodec NewTextCodec) = (Ok (), s') \<and> sent (snd s') = sent h @ length_header (length b) @ b) \<and>
    (fst (Decode NewVariableLengthCodec (connection_Reader p src) (NewLessMsgPayloadCodec NewTextCodec))
        = Ok (StringMsg b :: 'v message) \<longleftrightarrow> \<not> (6 \<le> length b \<and> take 4 b = PutUint32 MAGIC))"
proof
  from assms(1) have room: "wf_room (base_of (connection_Writer h)) (5 + length b)"
    by (simp add: connection_Writer_ok)
  have "less_enc text_enc (StringMsg b :: 'v message) = Ok b" by (simp add: less_enc_def)
  from lt.var_Encode_ok[OF connection_Writer_ok(1,2) connection_accepts[OF assms(2)] this room]
  show "\<exists>s'. Encode NewVariableLengthCodec (StringMsg b :: 'v message) (connection_Writer h)
        (NewLessMsgPayloadCodec NewTextCodec) = (Ok (), s') \<and> sent (snd s') = sent h @ length_header (length b) @ b"
    by (auto simp: NewVariableLengthCodec_def connection_Writer_ok)
next
  let ?dec = "less_dec text_dec b :: 'v message outcome"
  have magic: "Uint32 (take 4 b) = Ok MAGIC \<longleftrightarrow> take 4 b = PutUint32 MAGIC" if "6 \<le> length b"
    using that by (intro Uint32_iff) simp
  have dec: "?dec = Ok (StringMsg b) \<longleftrightarrow> \<not> (6 \<le> length b \<and> take 4 b = PutUint32 MAGIC)" "?dec \<noteq> Hang"
    using magic by (auto simp: less_dec_def text_dec_def split: outcome.splits)
  show "fst (Decode NewVariableLengthCodec (connection_Reader p src) (NewLessMsgPayloadCodec NewTextCodec))
        = Ok (StringMsg b :: 'v message) \<longleftrightarrow> \<not> (6 \<le> length b \<and> take 4 b = PutUint32 MAGIC)"
    by (rule lt.var_Decode_ok[OF connection_Reader_ok(1)[OF assms(3)], of src b rest])
      (use assms dec in \<open>auto simp: connection_Reader_ok NewVariableLengthCodec_def\<close>)
qed

theorem less_text_round_trip_iff_witness:
  "(\<exists>s'. Encode NewVariableLengthCodec (StringMsg (PutUint32 MAGIC @ [0, 1, 9]) :: unit message)
        (connection_Writer no_world) (NewLessMsgPayloadCodec NewTextCodec) = (Ok (), s') \<and>
      sent (snd s') = sent no_world @ length_header 7 @ PutUint32 MAGIC @ [0, 1, 9]) \<and>
    fst (Decode NewVariableLengthCodec
        (connection_Reader bufferReaderPool_New \<lparr>chunks = [length_header 7 @ PutUint32 MAGIC @ [0, 1, 9]], fin = EOF\<rparr>)
        (NewLessMsgPayloadCodec NewTextCodec)) \<noteq> Ok (StringMsg (PutUint32 MAGIC @ [0, 1, 9]) :: unit message)"
  using less_text_round_trip_iff[of "PutUint32 MAGIC @ [0, 1, 9]" no_world bufferReaderPool_New
      "\<lparr>chunks = [length_header 7 @ PutUint32 MAGIC @ [0, 1, 9]], fin = EOF\<rparr>" "[]", where 'v = unit]
  by simp

text \<open>
  C24: the framework's own messages (ping, pong, go-away) survive the stack of codecs: what
  \<^verbatim>\<open>NewMessage\<close> makes is decoded to the same message, type and body included, for every codec of
  the application's payloads underneath.
\<close>

theorem less_message_round_trip:
  assumes "payload_contract c enc dec" and "length body \<le> 245" and "accepts h" and "pooled_ok p"
  shows "\<exists>s'. Encode NewVariableLengthCodec (LessMsg (NewMessage t body)) (connection_Writer h)
        (NewLessMsgPayloadCodec c) = (Ok (), s') \<and>
    (\<forall>src rest. flat src = drop (length (sent h)) (sent (snd s')) @ rest \<longrightarrow>
      (\<exists>r'. Decode NewVariableLengthCodec (connection_Reader p src) (NewLessMsgPayloadCodec c)
          = (Ok (LessMsg (NewMessage t body)), r') \<and> reader_inv r' \<and> reader_pend r' = rest))"
proof -
  note lc = payload_contract.less_contract[OF assms(1)]
  let ?m = "LessMsg (NewMessage t body) :: 'a message"
  define bs where "bs = PutUint32 MAGIC @ PutUint16 t @ body"
  have e: "less_enc enc ?m = Ok bs" by (simp add: less_enc_def NewMessage_def bs_def)
  have d: "less_dec dec bs = Ok ?m" by (rule less_dec_enc[OF e refl]) (simp add: NewMessage_def)
  have len: "length bs \<le> 251" using assms(2) by (simp add: bs_def)
  from len have room: "wf_room (base_of (connection_Writer h)) (5 + length bs)"
    by (simp add: connection_Writer_ok)
  from payload_contract.var_Encode_ok[OF lc connection_Writer_ok(1,2)
      connection_accepts[OF assms(3)] e room] obtain s' where
    s': "variableLengthCodec_Encode ?m (connection_Writer h) (NewLessMsgPayloadCodec c) = (Ok (), s')"
      "sent (snd s') = sent h @ length_header (length bs) @ bs"
    by (auto simp: connection_Writer_ok)
  have "\<exists>r'. variableLengthCodec_Decode (connection_Reader p src) (NewLessMsgPayloadCodec c) = (Ok ?m, r') \<and>
      reader_inv r' \<and> reader_pend r' = rest"
    if "flat src = drop (length (sent h)) (sent (snd s')) @ rest" for src rest
    by (rule payload_contract.var_Decode_ok[OF lc connection_Reader_ok(1)[OF assms(4)], of src bs rest])
      (use that s'(2) len d assms in \<open>auto simp: connection_Reader_ok\<close>)
  with s'(1) show ?thesis by (auto simp: NewVariableLengthCodec_def)
qed

theorem less_message_round_trip_witness:
  "\<exists>s'. Encode NewVariableLengthCodec (LessMsg (NewMessage Call (str ''ping'')) :: unit message)
        (connection_Writer no_world) (NewLessMsgPayloadCodec NewTextCodec) = (Ok (), s') \<and>
    (\<forall>src rest. flat src = drop (length (sent no_world)) (sent (snd s')) @ rest \<longrightarrow>
      (\<exists>r'. Decode NewVariableLengthCodec (connection_Reader bufferReaderPool_New src)
          (NewLessMsgPayloadCodec NewTextCodec) = (Ok (LessMsg (NewMessage Call (str ''ping'')) :: unit message), r') \<and>
        reader_inv r' \<and> reader_pend r' = rest))"
  by (rule less_message_round_trip[OF tx.payload_contract_axioms]) simp_all

text \<open>
  C27: the fixed-length codec pads. With a length \<open>L\<close> from 1 to 256, a message of at most \<open>L\<close> bytes is
  sent as exactly \<open>L\<close> bytes, the encoding followed by zeros, and what is decoded at the other end is
  the meaning of the padded bytes: for a text, the text followed by NUL characters. (With \<open>L\<close> from
  257 to 512 the first decoding of a fresh reader panics: \<open>fresh_Next_panics_iff\<close>.)
\<close>

theorem fixed_length_round_trip:
  assumes "payload_contract c enc dec" and "enc m = Ok bs" and "length bs \<le> unat L"
    and "0 < unat L" and "unat L \<le> 256"
    and "dec (bs @ replicate (unat L - length bs) 0) \<noteq> Hang" and "accepts h" and "pooled_ok p"
  shows "\<exists>s'. Encode (NewFixedLengthCodec L) m (connection_Writer h) c = (Ok (), s') \<and>
    sent (snd s') = sent h @ bs @ replicate (unat L - length bs) 0 \<and>
    (\<forall>src rest. flat src = drop (length (sent h)) (sent (snd s')) @ rest \<longrightarrow>
      (\<exists>r'. Decode (NewFixedLengthCodec L) (connection_Reader p src) c
          = (dec (bs @ replicate (unat L - length bs) 0), r') \<and> reader_inv r' \<and> reader_pend r' = rest))"
proof -
  let ?bs = "bs @ replicate (unat L - length bs) 0"
  from payload_contract.fixed_Encode_ok[OF assms(1) connection_Writer_ok(1,2)
      connection_accepts[OF assms(7)] assms(2-4)] obtain s' where
    s': "fixedLengthCodec_Encode L m (connection_Writer h) c = (Ok (), s')"
      "sent (snd s') = sent h @ ?bs"
    by (auto simp: connection_Writer_ok)
  have "\<exists>r'. fixedLengthCodec_Decode L (connection_Reader p src) c = (dec ?bs, r') \<and>
      reader_inv r' \<and> reader_pend r' = rest"
    if "flat src = drop (length (sent h)) (sent (snd s')) @ rest" for src rest
    by (rule payload_contract.fixed_Decode_ok[OF assms(1) connection_Reader_ok(1)[OF assms(8)],
          of src L ?bs rest])
      (use that s'(2) assms in \<open>auto simp: connection_Reader_ok\<close>)
  with s' show ?thesis by (auto simp: NewFixedLengthCodec_def)
qed

theorem fixed_length_round_trip_witness:
  "\<exists>s'. Encode (NewFixedLengthCodec 8) (StringMsg (str ''1234567'') :: unit message)
      (connection_Writer no_world) NewTextCodec = (Ok (), s') \<and>
    sent (snd s') = sent no_world @ str ''1234567'' @ replicate (unat (8 :: uint32) - length (str ''1234567'')) 0 \<and>
    (\<forall>src rest. flat src = drop (length (sent no_world)) (sent (snd s')) @ rest \<longrightarrow>
      (\<exists>r'. Decode (NewFixedLengthCodec 8) (connection_Reader bufferReaderPool_New src) NewTextCodec
          = (text_dec (str ''1234567'' @ replicate (unat (8 :: uint32) - length (str ''1234567'')) 0)
              :: unit message outcome, r') \<and>
        reader_inv r' \<and> reader_pend r' = rest))"
  by (rule fixed_length_round_trip[OF tx.payload_contract_axioms]) (simp_all add: text_dec_def)

text \<open>
  C26: the delimiter codec transports messages. A message whose bytes contain the delimiter
  nowhere before the appended one, and that with it stays within \<^verbatim>\<open>maxLength\<close> and the reader's
  first buffer, is decoded to what its bytes mean, with the delimiter stripped or kept as the
  options say, and the reader is left behind the delimiter.
\<close>

theorem delimiter_round_trip:
  fixes ops :: "(delimiterCodec \<Rightarrow> delimiterCodec) list"
  assumes "payload_contract c enc dec" and "enc m = Ok bs"
    and "set ops \<subseteq> {DisableStripDelimiter}" and "delim \<noteq> []"
    and "\<not> sublist delim (bs @ butlast delim)" and "length bs + length delim \<le> unat mx"
    and "length bs + length delim \<le> 256"
    and "dec bs \<noteq> Hang" and "dec (bs @ delim) \<noteq> Hang" and "accepts h" and "pooled_ok p"
  shows "\<exists>s'. Encode (NewDelimiterCodec delim mx ops) m (connection_Writer h) c = (Ok (), s') \<and>
    (\<forall>src rest. flat src = drop (length (sent h)) (sent (snd s')) @ rest \<longrightarrow>
      (\<exists>r'. Decode (NewDelimiterCodec delim mx ops) (connection_Reader p src) c
          = (dec (if ops = [] then bs else bs @ delim), r') \<and> reader_inv r' \<and> reader_pend r' = rest))"
proof -
  define dc where "dc = delimiter_options delim mx ops"
  have fold_strip: "fold (\<lambda>op dc. op dc) ops dc0 = (if ops = [] then dc0 else dc0\<lparr>stripDelimiter := False\<rparr>)"
    for dc0 :: delimiterCodec
    using assms(3) by (induction ops arbitrary: dc0) (auto simp: DisableStripDelimiter_def)
  have dc: "delimiter dc = delim" "delimiterLength dc = int (length delim)" "maxLength dc = mx"
      "autoAppendDelimiter dc" "stripDelimiter dc \<longleftrightarrow> ops = []"
    by (simp_all add: dc_def delimiter_options_def fold_strip)
  from payload_contract.delimiter_Encode_ok[OF assms(1) connection_Writer_ok(1,2)
      connection_accepts[OF assms(10)] assms(2), of dc] obtain s' where
    s': "delimiterCodec_Encode dc m (connection_Writer h) c = (Ok (), s')"
      "sent (snd s') = sent h @ bs @ delim"
    by (auto simp: connection_Writer_ok dc)
  have "\<exists>r'. delimiterCodec_Decode dc (connection_Reader p src) c
        = (dec (if stripDelimiter dc then bs else bs @ delimiter dc), r') \<and>
      reader_inv r' \<and> reader_pend r' = rest"
    if "flat src = drop (length (sent h)) (sent (snd s')) @ rest" for src rest
    by (rule payload_contract.delimiter_Decode_ok[OF assms(1) connection_Reader_ok(1)[OF assms(11)]])
      (use that s'(2) assms in \<open>auto simp: connection_Reader_ok dc\<close>)
  with s'(1) show ?thesis by (auto simp: NewDelimiterCodec_def Let_def dc simp flip: dc_def)
qed

theorem delimiter_round_trip_witness:
  "\<exists>s'. Encode (NewDelimiterCodec [10] 8 []) (StringMsg [49, 50] :: unit message) (connection_Writer no_world)
      NewTextCodec = (Ok (), s') \<and>
    (\<forall>src rest. flat src = drop (length (sent no_world)) (sent (snd s')) @ rest \<longrightarrow>
      (\<exists>r'. Decode (NewDelimiterCodec [10] 8 []) (connection_Reader bufferReaderPool_New src) NewTextCodec
          = (text_dec (if ([] :: (delimiterCodec \<Rightarrow> delimiterCodec) list) = [] then [49, 50] else [49, 50] @ [10])
              :: unit message outcome, r') \<and> reader_inv r' \<and> reader_pend r' = rest))"
  by (rule delimiter_round_trip[OF tx.payload_contract_axioms])
    (simp_all add: text_dec_def sublist_code)

text \<open>
  C22: what happens to a text of any length in a well-formed packet. A new reader has 256
  bytes and holds the 5 bytes of the header when the payload is read; the decoding panics
  exactly for the lengths in the windows above the capacities \<open>256 \<cdot> 2 ^ k\<close> (252 to 502, 508 to
  758, 1020 to 1270, ...) and returns the text otherwise.
\<close>

theorem var_length_text_decode:
  assumes "length b < 2 ^ 32" and "pooled_ok p" and "flat src = length_header (length b) @ b @ rest"
  shows "fst (Decode NewVariableLengthCodec (connection_Reader p src) NewTextCodec)
    = (if \<exists>k. 256 * 2 ^ k < length b + 5 \<and> length b + 5 \<le> 256 * 2 ^ k + 251
       then Panic SliceBounds else Ok (StringMsg b))"
proof -
  obtain r1 where r1: "reader_Next (connection_Reader p src) 5 = (Ok (length_header (length b)), BufR r1)"
      "bufferReader_inv r1" "r_growable r1" "bufferReader_pend r1 = b @ rest"
      "readIndex r1 = 5" "writeIndex r1 = 5" "r_len r1 = 256"
    using connection_header[OF assms(2,3)] .
  have len: "length b = unat (of_nat (length b) :: uint32)" using assms(1) by (simp add: unat_of_nat)
  have g: "bufferReader_grown r1 n = double_until 256 (int n + 5 - 251)" for n
    using r1(5-7) by (simp add: bufferReader_grown_def algebra_simps)
  obtain c where c: "double_until 256 (int (length b) + 5 - 251) = Some c" "256 \<le> c"
    using double_until_Some[of 256] by force
  have "\<not> bufferReader_fits r1 (length b) \<longleftrightarrow>
      (\<exists>d. double_until 256 (int (length b) + 5 - 251) = Some d \<and> d < int (length b) + 5)"
    using r1 c by (auto simp: bufferReader_fits_def bufferReader_room_def g)
  also have "\<dots> \<longleftrightarrow> (\<exists>k. 256 * 2 ^ k < int (length b) + 5 \<and> int (length b) + 5 \<le> 256 * 2 ^ k + 251)"
    by (rule growth_window) simp
  also have "\<dots> \<longleftrightarrow> (\<exists>k. 256 * 2 ^ k < length b + 5 \<and> length b + 5 \<le> 256 * 2 ^ k + 251)"
    by (simp flip: of_nat_less_iff[where 'a = int] of_nat_le_iff[where 'a = int])
  finally have win: "bufferReader_fits r1 (length b) \<longleftrightarrow>
      \<not> (\<exists>k. 256 * 2 ^ k < length b + 5 \<and> length b + 5 \<le> 256 * 2 ^ k + 251)" by blast
  show ?thesis
    using r1(1) win
    by (simp add: NewVariableLengthCodec_def variableLengthCodec_Decode_def MaxVarintLen32_def
        text_frame[OF r1(2-4) len])
qed

theorem var_length_text_decode_witness:
  "fst (Decode NewVariableLengthCodec
      (connection_Reader bufferReaderPool_New \<lparr>chunks = [length_header 300, replicate 300 65], fin = EOF\<rparr>)
      NewTextCodec) = (Panic SliceBounds :: unit message outcome)"
proof -
  have "\<exists>k. 256 * 2 ^ k < length (replicate 300 (65 :: byte)) + 5 \<and>
      length (replicate 300 (65 :: byte)) + 5 \<le> 256 * 2 ^ k + 251"
    by (rule exI[of _ 0]) simp
  then show ?thesis
    using var_length_text_decode[of "replicate 300 65" bufferReaderPool_New
        "\<lparr>chunks = [length_header 300, replicate 300 65], fin = EOF\<rparr>" "[]", where 'a = unit]
    by (simp only: pooled_New) simp
qed

end
