(* ===== verification/ReaderTypes.thy ===== *)
theory ReaderTypes
  imports ReaderSession
begin

text \<open>
  What every operation of a reader keeps, however it ends: the indices of the buffer and the count of
  a limit reader stay in range, and a slice that is returned has the length that was asked for.
\<close>

section \<open>Conditions on outcomes\<close>

text \<open>\<open>ensures Q I m\<close>: a value and its state satisfy \<open>Q\<close>; the state of any other outcome satisfies \<open>I\<close>.\<close>

definition ensures :: "('a \<Rightarrow> 's \<Rightarrow> bool) \<Rightarrow> ('s \<Rightarrow> bool) \<Rightarrow> 'a outcome \<times> 's \<Rightarrow> bool" where
  "ensures Q I m \<longleftrightarrow> (case fst m of Ok a \<Rightarrow> Q a (snd m) | _ \<Rightarrow> I (snd m))"

lemma ensures_simps [simp]:
  "ensures Q I (Ok a, s) = Q a s" "ensures Q I (Err e, s) = I s" "ensures Q I (Panic p, s) = I s" "ensures Q I (Hang, s) = I s"
  by (simp_all add: ensures_def)

lemma ensures_and_then:
  assumes "ensures Q I m" and "\<And>a s. Q a s \<Longrightarrow> ensures R I (f a s)"
  shows "ensures R I (and_then m f)"
  using assms by (cases "(m, f)" rule: and_then.cases) auto

lemma ensures_mono: "ensures Q I m \<Longrightarrow> (\<And>a s. Q a s \<Longrightarrow> R a s) \<Longrightarrow> (\<And>s. I s \<Longrightarrow> J s) \<Longrightarrow> ensures R J m"
  by (auto simp: ensures_def split: outcome.splits)

lemma ensures_slice:
  "I s \<Longrightarrow> (0 \<le> lo \<Longrightarrow> lo \<le> hi \<Longrightarrow> hi \<le> int (length xs) \<Longrightarrow> Q (take (nat (hi - lo)) (drop (nat lo) xs)) s) \<Longrightarrow>
   ensures Q I (slice_expr xs lo hi, s)"
  by (auto simp: slice_expr_def)

section \<open>The buffered reader\<close>

lemma growth_typed:
  assumes "bufferReader_inv r" and "r_growable r" and "0 < want"
  shows "ensures (\<lambda>_ r'. bufferReader_inv r' \<and> readIndex r' = readIndex r \<and> writeIndex r' = writeIndex r)
    bufferReader_inv (bufferReader_growth r want)"
proof -
  have "0 < int (r_len r)" using assms(1,2) by (auto simp: bufferReader_inv_def)
  from double_until_Some[OF this, of "writeIndex r + want"] obtain c where "double_until (int (r_len r)) (writeIndex r + want) = Some c"
    by blast
  from growth_ok(1,2)[OF assms this] show ?thesis by simp
qed

lemma ReadFull_length: "ReadFull s n = (bs, err, s') \<Longrightarrow> length bs \<le> n \<and> (err = None \<longrightarrow> length bs = n)"
proof (cases "n \<le> length (flat s)")
  case True
  then obtain s1 where "ReadFull s n = (take n (flat s), None, s1)" by (rule ReadFull_enough)
  then show "ReadFull s n = (bs, err, s') \<Longrightarrow> ?thesis" using True by auto
qed (auto simp: ReadFull_short)

lemma fill_typed:
  assumes "bufferReader_inv r" and "0 < want"
  shows "ensures (\<lambda>_ r'. bufferReader_inv r' \<and> readIndex r' = readIndex r \<and> writeIndex r' = writeIndex r + want)
    bufferReader_inv (bufferReader_fill r want False)"
proof -
  obtain src where src: "r_decorator r = Some src" using assms(1) by (auto simp: bufferReader_inv_def)
  obtain bs err src' where rf: "ReadFull src (nat want) = (bs, err, src')" by (cases "ReadFull src (nat want)")
  have inv: "0 \<le> readIndex r" "readIndex r \<le> writeIndex r" "r_len r = length (r_buff r)" "r_growable r \<Longrightarrow> 0 < r_len r"
    using assms(1) by (auto simp: bufferReader_inv_def)
  show ?thesis
  proof (cases "writeIndex r + want \<le> int (length (r_buff r))")
    case True
    then have "nat (writeIndex r) \<le> length (r_buff r)" using assms(2) by simp
    then have l: "length (overwrite (nat (writeIndex r)) bs (r_buff r)) = length (r_buff r)" by simp
    show ?thesis
      using src rf inv True assms(2) l
      by (cases err) (auto simp: bufferReader_fill_def Let_def slice_expr_def bufferReader_inv_def)
  next
    case False
    then show ?thesis using assms(1) by (simp add: bufferReader_fill_def slice_expr_Panic)
  qed
qed

lemma ensureReadable_typed:
  assumes "bufferReader_inv r" and "0 < n"
  shows "ensures (\<lambda>_ r'. bufferReader_inv r' \<and> readIndex r' = readIndex r \<and> n \<le> writeIndex r' - readIndex r')
    bufferReader_inv (bufferReader_ensureReadable r n False)"
proof (cases "n \<le> writeIndex r - readIndex r")
  case True
  then show ?thesis using assms by (simp add: bufferReader_ensureReadable_def)
next
  case False
  let ?want = "n - (writeIndex r - readIndex r)"
  let ?d = "?want + writeIndex r - int (r_len r)"
  let ?grow = "if int (r_len r) - writeIndex r < ?want then bufferReader_growth r ?d else (Ok (), r)"
  let ?Q = "\<lambda>_ r'. bufferReader_inv r' \<and> readIndex r' = readIndex r \<and> writeIndex r' = writeIndex r"
  have step: "ensures (\<lambda>_ r'. bufferReader_inv r' \<and> readIndex r' = readIndex r \<and> n \<le> writeIndex r' - readIndex r')
      bufferReader_inv (and_then ?grow (\<lambda>_ r. bufferReader_fill r ?want False))"
    if g: "ensures ?Q bufferReader_inv ?grow"
    by (rule ensures_and_then[OF g]) (use False in \<open>auto intro!: ensures_mono[OF fill_typed]\<close>)
  show ?thesis
  proof (cases "r_growable r \<or> \<not> int (r_len r) - writeIndex r < ?want")
    case True
    then have "ensures ?Q bufferReader_inv ?grow" using growth_typed[of r ?d] assms(1) by auto
    from step[OF this] True False show ?thesis by (auto simp: bufferReader_ensureReadable_def Let_def)
  next
    case no: False
    then show ?thesis using False assms(1) by (simp add: bufferReader_ensureReadable_def Let_def)
  qed
qed

lemma bufferReader_Peek_typed:
  assumes "bufferReader_inv r" and "0 \<le> n"
  shows "ensures (\<lambda>bs r'. bufferReader_inv r' \<and> int (length bs) = n \<and> n \<le> writeIndex r' - readIndex r')
    bufferReader_inv (bufferReader_Peek r n)"
proof (cases "n = 0")
  case True
  then show ?thesis using assms(1) by (auto simp: bufferReader_Peek_def bufferReader_inv_def)
next
  case False
  have "ensures (\<lambda>bs r'. bufferReader_inv r' \<and> int (length bs) = n \<and> n \<le> writeIndex r' - readIndex r')
      bufferReader_inv (slice_expr (r_buff r1) (readIndex r1) (readIndex r1 + n), r1)"
    if "bufferReader_inv r1" "n \<le> writeIndex r1 - readIndex r1" for r1
    using that assms(2) by (intro ensures_slice) auto
  with False assms show ?thesis
    by (auto simp: bufferReader_Peek_def intro!: ensures_and_then[OF ensureReadable_typed])
qed

lemma inv_advance: "bufferReader_inv r \<Longrightarrow> 0 \<le> n \<Longrightarrow> n \<le> writeIndex r - readIndex r \<Longrightarrow> bufferReader_inv (r\<lparr>readIndex := readIndex r + n\<rparr>)"
  by (auto simp: bufferReader_inv_def)

lemma bufferReader_Next_typed:
  assumes "bufferReader_inv r" and "0 \<le> n"
  shows "ensures (\<lambda>bs r'. bufferReader_inv r' \<and> int (length bs) = n) bufferReader_inv (bufferReader_Next r n)"
  unfolding bufferReader_Next_def
  by (rule ensures_and_then[OF bufferReader_Peek_typed[OF assms]]) (simp add: inv_advance assms(2))

lemma bufferReader_Skip_typed:
  assumes "bufferReader_inv r" and "0 \<le> n"
  shows "ensures (\<lambda>_. bufferReader_inv) bufferReader_inv (bufferReader_Skip r n)"
  unfolding bufferReader_Skip_def
  by (rule ensures_and_then[OF bufferReader_Peek_typed[OF assms]]) (simp add: inv_advance assms(2))

text \<open>\<open>Read\<close> beyond the buffered bytes moves both indices over bytes that are not stored.\<close>

lemma fill_into_typed:
  assumes "bufferReader_inv r" and "readIndex r < writeIndex r" and "0 < want"
  shows "ensures (\<lambda>bs r'. int (length bs) = writeIndex r - readIndex r + want \<and>
      (\<exists>src. r' = r\<lparr>r_decorator := Some src, writeIndex := writeIndex r + want\<rparr>))
    bufferReader_inv (bufferReader_fill r want True)"
proof -
  obtain src where src: "r_decorator r = Some src" using assms(1) by (auto simp: bufferReader_inv_def)
  obtain bs err src' where rf: "ReadFull src (nat want) = (bs, err, src')" by (cases "ReadFull src (nat want)")
  have "slice_expr (r_buff r) (readIndex r) (readIndex r + (writeIndex r - readIndex r)) = Ok (buffered r)"
    using assms(1,2) by (auto simp: slice_expr_def bufferReader_inv_def buffered_def)
  with src rf assms ReadFull_length[OF rf] length_buffered[OF assms(1)] show ?thesis
    by (cases err) (auto simp: bufferReader_fill_def Let_def bufferReader_inv_def)
qed

lemma ensureReadable_into_typed:
  assumes "bufferReader_inv r" and "readIndex r < writeIndex r"
  shows "ensures (\<lambda>bs r'. length bs = n \<and> bufferReader_inv (r'\<lparr>readIndex := readIndex r' + int n\<rparr>))
    bufferReader_inv (bufferReader_ensureReadable r (int n) True)"
    (is "ensures ?R _ _")
proof (cases "int n \<le> writeIndex r - readIndex r")
  case True
  then show ?thesis
    using assms inv_advance[OF assms(1), of "int n"]
    by (auto simp: bufferReader_ensureReadable_def slice_expr_def bufferReader_inv_def)
next
  case False
  let ?want = "int n - (writeIndex r - readIndex r)"
  let ?d = "?want + writeIndex r - int (r_len r)"
  let ?grow = "if int (r_len r) - writeIndex r < ?want then bufferReader_growth r ?d else (Ok (), r)"
  let ?Q = "\<lambda>_ r'. bufferReader_inv r' \<and> readIndex r' = readIndex r \<and> writeIndex r' = writeIndex r"
  have read: "ensures ?R bufferReader_inv (bufferReader_fill r1 ?want True)" if "?Q () r1" for r1
  proof (rule ensures_mono[OF fill_into_typed])
    show "bufferReader_inv r1" "readIndex r1 < writeIndex r1" "0 < ?want" using that assms(2) False by auto
    fix bs :: bytes and r' assume "int (length bs) = writeIndex r1 - readIndex r1 + ?want \<and>
        (\<exists>src. r' = r1\<lparr>r_decorator := Some src, writeIndex := writeIndex r1 + ?want\<rparr>)"
    then show "?R bs r'" using that assms(2) by (auto simp: bufferReader_inv_def)
  qed
  show ?thesis
  proof (cases "r_growable r \<or> \<not> int (r_len r) - writeIndex r < ?want")
    case True
    then have "ensures ?Q bufferReader_inv ?grow" using growth_typed[of r ?d] assms(1) by auto
    from ensures_and_then[OF this read] True False show ?thesis
      by (auto simp: bufferReader_ensureReadable_def Let_def)
  next
    case no: False
    then show ?thesis using False assms(1) by (simp add: bufferReader_ensureReadable_def Let_def)
  qed
qed

lemma bufferReader_Read_typed:
  assumes "bufferReader_inv r"
  shows "ensures (\<lambda>bs r'. bufferReader_inv r' \<and> length bs \<le> n) bufferReader_inv (bufferReader_Read r n)"
proof (cases "readIndex r = writeIndex r")
  case True
  obtain src where src: "r_decorator r = Some src" using assms(1) by (auto simp: bufferReader_inv_def)
  obtain bs err src' where rd: "source_Read src n = ((bs, err), src')" by (cases "source_Read src n") auto
  then have "length bs \<le> n" by (auto simp: source_Read_def split: if_splits list.splits)
  with src rd True assms show ?thesis
    by (cases err) (auto simp: bufferReader_Read_def bufferReader_inv_def)
next
  case False
  then have "readIndex r < writeIndex r" using assms by (simp add: bufferReader_inv_def)
  then have "ensures (\<lambda>bs r'. bufferReader_inv r' \<and> length bs \<le> n) bufferReader_inv
      (and_then (bufferReader_ensureReadable r (int n) True) (\<lambda>bs r. (Ok bs, r\<lparr>readIndex := readIndex r + int n\<rparr>)))"
    by (intro ensures_and_then[OF ensureReadable_into_typed[OF assms]]) auto
  then show ?thesis using False by (simp add: bufferReader_Read_def)
qed

section \<open>Readers\<close>

text \<open>The layers of a reader are in place, and no limit reader may take more than its frame.\<close>

fun reader_typed :: "reader \<Rightarrow> bool" where
  "reader_typed (BufR r) = bufferReader_inv r"
| "reader_typed (LimR remain tot None) = False"
| "reader_typed (LimR remain tot (Some d)) = (uint remain \<le> tot \<and> reader_typed d)"

lemma remain_less:
  assumes "0 \<le> n" and "n \<le> uint (remain :: uint32)"
  shows "uint (remain - word_of_int n) = uint remain - n"
proof -
  have "uint (word_of_int n :: uint32) = n" using assms uint_lt2p[of remain] by (simp add: uint_word_of_int)
  with assms(2) uint_sub_lem[of "word_of_int n" remain] show ?thesis by simp
qed

lemma reader_Peek_typed:
  "reader_typed r \<Longrightarrow> 0 \<le> n \<Longrightarrow> ensures (\<lambda>bs r'. reader_typed r' \<and> int (length bs) = n) reader_typed (reader_Peek r n)"
proof (induction r n rule: reader_Peek.induct)
  case (1 r n)
  then show ?case
    using bufferReader_Peek_typed[of r n] by (cases "bufferReader_Peek r n"; cases "fst (bufferReader_Peek r n)") auto
next
  case (3 remain tot d n)
  then show ?case by (cases "reader_Peek d n"; cases "fst (reader_Peek d n)") auto
qed auto

lemma reader_Next_typed:
  "reader_typed r \<Longrightarrow> 0 \<le> n \<Longrightarrow> ensures (\<lambda>bs r'. reader_typed r' \<and> int (length bs) = n) reader_typed (reader_Next r n)"
proof (induction r n rule: reader_Next.induct)
  case (1 r n)
  then show ?case
    using bufferReader_Next_typed[of r n] by (cases "bufferReader_Next r n"; cases "fst (bufferReader_Next r n)") auto
next
  case (3 remain tot d n)
  then show ?case using remain_less[of n remain] by (cases "reader_Next d n"; cases "fst (reader_Next d n)") auto
qed auto

lemma reader_Skip_typed:
  "reader_typed r \<Longrightarrow> 0 \<le> n \<Longrightarrow> ensures (\<lambda>_. reader_typed) reader_typed (reader_Skip r n)"
proof (induction r n rule: reader_Skip.induct)
  case (1 r n)
  then show ?case
    using bufferReader_Skip_typed[of r n] by (cases "bufferReader_Skip r n"; cases "fst (bufferReader_Skip r n)") auto
next
  case (3 remain tot d n)
  then show ?case using remain_less[of n remain] by (cases "reader_Skip d n"; cases "fst (reader_Skip d n)") auto
qed auto

lemma reader_Read_typed:
  "reader_typed r \<Longrightarrow> ensures (\<lambda>bs r'. reader_typed r' \<and> length bs \<le> n) reader_typed (reader_Read r n)"
proof (induction r n rule: reader_Read.induct)
  case (1 r n)
  then show ?case
    using bufferReader_Read_typed[of r n] by (cases "bufferReader_Read r n"; cases "fst (bufferReader_Read r n)") auto
next
  case (3 remain tot d n)
  have "ensures (\<lambda>bs r'. reader_typed r' \<and> length bs \<le> n) reader_typed (reader_Read d n)" if "\<not> uint remain - int n < 0"
    using 3 that by simp
  then show ?case
    using 3(2) remain_less[of "int (length (case fst (reader_Read d n) of Ok bs \<Rightarrow> bs))" remain]
    by (cases "reader_Read d n"; cases "fst (reader_Read d n)") auto
qed auto

text \<open>
  C20: readers are used as they are meant to be. Every operation of a buffered or limit reader, nested
  to any depth, leaves it well formed whether it succeeds, fails or panics: the read index does not
  pass the write index, the bytes between them lie in the buffer, and a limit reader never has more
  left than its frame. \<open>Peek\<close> and \<open>Next\<close> return exactly as many bytes as were asked for, \<open>Read\<close> not more.
  A reader from the pool is well formed, and so is one wrapped by a limit reader; \<open>Release\<close> of a limit
  reader leaves the reader below well formed.
\<close>

theorem reader_operations_typed:
  assumes "reader_typed r" and "0 \<le> n" and "readIndex p = 0" and "writeIndex p = 0"
  shows "reader_typed (BufR (NewBufferReader p src)) \<and> reader_typed (NewLimitReader r k) \<and> 0 \<le> reader_Length r \<and>
    ensures (\<lambda>bs r'. reader_typed r' \<and> int (length bs) = n) reader_typed (reader_Peek r n) \<and>
    ensures (\<lambda>bs r'. reader_typed r' \<and> int (length bs) = n) reader_typed (reader_Next r n) \<and>
    ensures (\<lambda>_. reader_typed) reader_typed (reader_Skip r n) \<and>
    ensures (\<lambda>bs r'. reader_typed r' \<and> length bs \<le> m) reader_typed (reader_Read r m) \<and>
    (\<forall>out r' d. reader_Release r = (out, r', Some d) \<longrightarrow> reader_typed d)"
proof -
  have "reader_typed (BufR (NewBufferReader p src))" using assms(3,4) by (simp add: NewBufferReader_def bufferReader_inv_def)
  moreover have "reader_typed d" if "reader_Release r = (out, r', Some d)" for out r' d
    using that assms(1)
  proof (induction r rule: reader_Release.induct)
    case (3 remain tot e)
    have "ensures (\<lambda>_. reader_typed) reader_typed (reader_Skip e (uint remain))" using 3 by (intro reader_Skip_typed) auto
    with 3 show ?case by (cases "reader_Skip e (uint remain)"; cases "fst (reader_Skip e (uint remain))") (auto split: if_splits)
  qed (auto split: if_splits)
  moreover have "0 \<le> reader_Length r"
    using assms(1) uint_ge_0 by (induction r rule: reader_typed.induct) (auto simp: bufferReader_inv_def bufferReader_Length_def intro: order_trans)
  ultimately show ?thesis
    using reader_Peek_typed reader_Next_typed reader_Skip_typed reader_Read_typed assms(1,2) by (simp add: NewLimitReader_def)
qed

theorem reader_operations_typed_witness:
  "ensures (\<lambda>bs r'. reader_typed r' \<and> int (length bs) = 2) reader_typed
     (reader_Next (NewLimitReader (BufR (NewBufferReader bufferReaderPool_New \<lparr>chunks = [[1], [2, 3]], fin = EOF\<rparr>)) 4) 2)"
proof -
  have p: "readIndex bufferReaderPool_New = 0" "writeIndex bufferReaderPool_New = 0" by (simp_all add: bufferReaderPool_New_def)
  have "reader_typed (NewLimitReader (BufR (NewBufferReader bufferReaderPool_New \<lparr>chunks = [[1], [2, 3]], fin = EOF\<rparr>)) 4)"
    by (simp add: NewLimitReader_def NewBufferReader_def bufferReader_inv_def p)
  from reader_operations_typed[OF this _ p, of 2] show ?thesis by simp
qed

end
