(* ===== verification/WriterProps.thy ===== *)
theory WriterProps
  imports Append ReaderSession
begin

text \<open>
  Properties of the buffered writer: sequences of writes followed by a flush, a flush that the
  connection interrupts, and the use of a writer after a flush.
\<close>

primrec write_seq :: "bytes list \<Rightarrow> writer \<times> world \<Rightarrow> nat outcome \<times> writer \<times> world" where
  "write_seq [] s = (Ok 0, s)"
| "write_seq (bs # bss) s =
     and_then (writer_Write bs s) (\<lambda>n s1. and_then (write_seq bss s1) (\<lambda>m s2. (Ok (n + m), s2)))"

lemma write_seq_appends:
  "writer_inv s \<Longrightarrow> writer_live s \<Longrightarrow>
   \<exists>s'. write_seq bss s = (Ok (length (concat bss)), s') \<and> appends (concat bss) s s'"
proof (induction bss arbitrary: s)
  case Nil
  then show ?case by (cases s) (auto intro: appends_nil)
next
  case (Cons bs bss)
  obtain s1 where s1: "writer_Write bs s = (Ok (length bs), s1)" "appends bs s s1"
    using appends_Write[OF Cons.prems] .
  from Cons.IH[OF appendsD(1,2)[OF s1(2)]] obtain s2 where
    "write_seq bss s1 = (Ok (length (concat bss)), s2)" "appends (concat bss) s1 s2" by auto
  with s1 appends_trans[OF s1(2)] show ?case by (cases s2) auto
qed

text \<open>
  C8: a writer on a connection is a buffer in front of it. Any sequence of writes, through any
  chain of wrappers, succeeds without sending a byte, however often the buffer has to grow,
  and the following flush sends exactly the bytes written, in order.
\<close>

theorem writes_then_flush:
  assumes "writer_inv s" and "writer_live s" and "accepts (snd s)"
  shows "\<exists>s1 s2. write_seq bss s = (Ok (length (concat bss)), s1) \<and> sent (snd s1) = sent (snd s) \<and>
    writer_Flush s1 = (Ok (), s2) \<and> writer_staged s2 = [] \<and>
    sent (snd s2) = sent (snd s) @ writer_staged s @ concat bss"
proof -
  from write_seq_appends[OF assms(1,2), of bss] obtain s1 where
    s1: "write_seq bss s = (Ok (length (concat bss)), s1)" "appends (concat bss) s s1" by blast
  have "accepts (snd s1)" using s1(2) assms(3) by (simp add: accepts_def appends_def)
  from wr.flush_law[OF appendsD(1)[OF s1(2)] this] s1 appendsD(3,4)[OF s1(2)]
  show ?thesis by (cases s1) auto
qed

definition new_writer :: "writer \<times> world" where
  "new_writer = NewBufferWriter ConnW \<lparr>arr = \<lambda>_. [], brk = 0, sent = [], faults = []\<rparr>"

lemma new_writer_ok: "writer_inv new_writer" "writer_live new_writer" "writer_staged new_writer = []"
    "sent (snd new_writer) = []" "accepts (snd new_writer)"
proof -
  obtain w h where wh: "new_writer = (w, h)" by fastforce
  from NewBufferWriter_ok[OF wh[unfolded new_writer_def]]
  show "writer_inv new_writer" "writer_live new_writer" "writer_staged new_writer = []"
    "sent (snd new_writer) = []" "accepts (snd new_writer)"
    by (simp_all add: accepts_def wh)
qed

theorem writes_then_flush_witness:
  "\<exists>s1 s2. write_seq [replicate 200 1, replicate 200 2] new_writer
      = (Ok (length (concat [replicate 200 1, replicate 200 (2 :: byte)])), s1) \<and>
    sent (snd s1) = sent (snd new_writer) \<and>
    writer_Flush s1 = (Ok (), s2) \<and> writer_staged s2 = [] \<and>
    sent (snd s2) = sent (snd new_writer) @ writer_staged new_writer @
      concat [replicate 200 1, replicate 200 2]"
  by (rule writes_then_flush) (rule new_writer_ok)+

text \<open>
  A flush that the connection breaks off after \<open>k\<close> bytes returns the connection's error and
  keeps everything staged, so the next successful flush sends those \<open>k\<close> bytes a second time.
\<close>

theorem flush_error_resends:
  assumes "writer_inv (Writer f ConnW, h)" and "writer_staged (Writer f ConnW, h) \<noteq> []"
    and "faults h = Some (k, e) # fs" and "accepts (h\<lparr>faults := fs\<rparr>)"
  shows "\<exists>h1 s2. writer_Flush (Writer f ConnW, h) = (Err e, Writer f ConnW, h1) \<and>
    sent h1 = sent h @ take k (writer_staged (Writer f ConnW, h)) \<and>
    writer_Flush (Writer f ConnW, h1) = (Ok (), s2) \<and>
    sent (snd s2) = sent h @ take k (writer_staged (Writer f ConnW, h)) @ writer_staged (Writer f ConnW, h)"
proof -
  let ?bs = "staged f h"
  define h1 where "h1 = h\<lparr>sent := sent h @ take k ?bs, faults := fs\<rparr>"
  have inv: "wf_inv f h" "\<not> writeDirectly f" "w_growable f" using assms(1) by simp_all
  have ne: "preWriteIndex f \<noteq> w_index f" using assms(2) by (auto simp: staged_def)
  then have pos: "\<not> w_index f \<le> 0" using inv(1) by (auto simp: wf_inv_def)
  obtain sl where sl: "reslice (w_buff f) (preWriteIndex f) (w_index f) = Ok sl" "slice_get h sl = ?bs"
    using staged_reslice[OF inv(1) ne] .
  have fl: "writer_Flush (Writer f ConnW, h) = (Err e, Writer f ConnW, h1)"
    using inv ne pos sl assms(3) by (simp add: writer_Flush.simps conn_Write_def h1_def)
  have "wf_inv f h1" "staged f h1 = ?bs"
    using inv(1) by (auto simp: h1_def wf_inv_def staged_def slice_valid_def slice_get_def)
  then have "writer_inv (Writer f ConnW, h1)" "writer_staged (Writer f ConnW, h1) = ?bs"
    using inv by simp_all
  moreover have "accepts (snd (Writer f ConnW, h1))" using assms(4) by (simp add: accepts_def h1_def)
  ultimately show ?thesis
    using wr.flush_law[of "(Writer f ConnW, h1)"] fl by (auto simp: h1_def)
qed

definition one_byte_writer :: "writer \<times> world" where
  "one_byte_writer =
     (Writer \<lparr>w_buff = \<lparr>s_arr = 0, s_off = 0, s_len = 2, s_cap = 2\<rparr>, writeDirectly = False,
              preWriteIndex = 0, w_index = 2, w_growable = True\<rparr> ConnW,
      \<lparr>arr = \<lambda>_. [7, 8], brk = 1, sent = [], faults = [Some (1, ErrOther 0)]\<rparr>)"

theorem flush_error_resends_witness:
  "\<exists>h1 s2. writer_Flush one_byte_writer = (Err (ErrOther 0), fst one_byte_writer, h1) \<and> sent h1 = [7] \<and>
    writer_Flush (fst one_byte_writer, h1) = (Ok (), s2) \<and> sent (snd s2) = [7, 7, 8]"
proof -
  obtain f h where fh: "one_byte_writer = (Writer f ConnW, h)" by (simp add: one_byte_writer_def)
  have "writer_inv (Writer f ConnW, h)" "writer_staged (Writer f ConnW, h) = [7, 8]"
      "faults h = Some (1, ErrOther 0) # []" "accepts (h\<lparr>faults := []\<rparr>)" "sent h = []"
    using fh by (auto simp: one_byte_writer_def wf_inv_def slice_valid_def staged_def slice_get_def accepts_def)
  with flush_error_resends[of f h 1 "ErrOther 0" "[]"] show ?thesis by (simp add: fh)
qed

text \<open>
  C30: a writer must not be used after a flush that emptied its buffer exactly. \<^verbatim>\<open>Flush\<close> cuts the
  flushed part off the buffer; when a first write of \<open>256 \<cdot> 2 ^ k\<close> bytes has filled it, no
  capacity is left to double and the next write never returns.
\<close>

theorem write_after_full_flush_hangs:
  assumes "length bs = 256 * 2 ^ k" and "accepts h" and "cs \<noteq> []"
  shows "\<exists>s1 s2 s3. writer_Write bs (NewBufferWriter ConnW h) = (Ok (length bs), s1) \<and>
    writer_Flush s1 = (Ok (), s2) \<and> sent (snd s2) = sent h @ bs \<and> writer_Write cs s2 = (Hang, s3)"
proof -
  obtain w0 h0 where new: "NewBufferWriter ConnW h = (w0, h0)" by fastforce
  note ok = NewBufferWriter_ok[OF new]
  let ?n = "length bs"
  have n: "0 < ?n" "256 \<le> ?n" using assms(1) by simp_all
  have du: "double_until 256 (int ?n) = Some (int ?n)"
  proof -
    from double_until_power[of 256 "int ?n"] obtain j where j: "double_until 256 (int ?n) = Some (256 * 2 ^ j)"
        "int ?n \<le> 256 * 2 ^ j" "j = 0 \<or> 256 * 2 ^ (j - 1) < int ?n" by auto
    have "j = k"
    proof (rule antisym)
      show "k \<le> j" using j(2) assms(1) by simp
      show "j \<le> k" using j(3) assms(1) by (cases j) auto
    qed
    with j(1) assms(1) show ?thesis by simp
  qed
  from writer_Write_law[OF ok(1,2), of bs] obtain w1 h1 where
    w1: "writer_Write bs (w0, h0) = (Ok ?n, w1, h1)" and
    law: "writer_inv (w1, h1)" "writer_staged (w1, h1) = bs" "sent h1 = sent h" "faults h1 = faults h"
    using ok by auto
  have shape: "\<exists>b. w1 = Writer \<lparr>w_buff = b, writeDirectly = False, preWriteIndex = 0, w_index = int ?n,
      w_growable = True\<rparr> ConnW \<and> s_len b = ?n \<and> s_cap b = ?n"
    using w1 new n du by (auto simp: NewBufferWriter_def defaultBufferSize_def writer_store_def
        writer_checkWriteable_def make_slice_def reslice_def Let_def split: if_splits)
  then obtain b where b: "w1 = Writer \<lparr>w_buff = b, writeDirectly = False, preWriteIndex = 0,
      w_index = int ?n, w_growable = True\<rparr> ConnW" "s_len b = ?n" "s_cap b = ?n" by blast
  let ?f = "\<lparr>w_buff = b, writeDirectly = False, preWriteIndex = 0, w_index = int ?n, w_growable = True\<rparr>"
  have inv: "wf_inv ?f h1" "accepts h1" using law b(1) assms(2) by (simp_all add: accepts_def)
  have ne: "preWriteIndex ?f \<noteq> w_index ?f" using n by auto
  obtain sl where sl: "reslice b 0 (int ?n) = Ok sl" "slice_get h1 sl = bs"
    using staged_reslice[OF inv(1) ne] law(2) by (auto simp: b(1))
  define f2 h2 where "f2 = ?f\<lparr>w_buff := subslice b ?n 0, preWriteIndex := int ?n\<rparr>"
    and "h2 = h1\<lparr>sent := sent h1 @ bs, faults := tl (faults h1)\<rparr>"
  have "writer_Flush (w1, h1) = (Ok (), Writer f2 ConnW, h2)"
    using n sl b conn_Write_ok[OF inv(2)]
    by (simp add: writer_Flush.simps writer_cut_def reslice_def subslice_def f2_def h2_def b(1))
  moreover have "writer_Write cs (Writer f2 ConnW, h2) = (Hang, Writer f2 ConnW, h2)"
    using assms(3) b(3) double_until_hang[of "int ?n + int (length cs)"] n
    by (simp add: f2_def subslice_def writer_store_def writer_checkWriteable_def Let_def)
  ultimately show ?thesis using w1 law(3) new by (auto simp: h2_def)
qed

theorem write_after_full_flush_hangs_witness:
  "\<exists>s1 s2 s3. writer_Write (replicate 256 7) (NewBufferWriter ConnW \<lparr>arr = \<lambda>_. [], brk = 0, sent = [], faults = []\<rparr>)
      = (Ok (length (replicate 256 (7 :: byte))), s1) \<and>
    writer_Flush s1 = (Ok (), s2) \<and>
    sent (snd s2) = sent \<lparr>arr = \<lambda>_. [], brk = 0, sent = [], faults = []\<rparr> @ replicate 256 7 \<and>
    writer_Write [1] s2 = (Hang, s3)"
  by (rule write_after_full_flush_hangs[where k = 0]) (simp_all add: accepts_def)

end
