(* ===== verification/Channel.thy ===== *)
theory Channel
  imports Connection Payload
begin

text \<open>
  The package \<^verbatim>\<open>internal/channel\<close>: a channel (\<^verbatim>\<open>channel.go\<close>) with its pipeline of hooks and middlewares
  (\<^verbatim>\<open>pipeline.go\<close>) and its task counters (\<^verbatim>\<open>waitgroup.go\<close>), and \<^verbatim>\<open>Chain\<close> of \<^verbatim>\<open>func.go\<close>.

  Channels, pipelines and connections live on a heap, because a pipeline is shared through a
  \<^verbatim>\<open>sync.Pool\<close> and outlives its channel. Function values are named: a hook or middleware of the
  application is a number, one of the framework a constructor, and what a name does is an argument
  of the operations that call it. Code handed to the goroutine pool is a \<open>task\<close>.
\<close>

section \<open>Middlewares (func.go)\<close>

type_synonym chid = nat
type_synonym plid = nat
type_synonym connid = nat

text \<open>
  Contexts: a context with the channel of a connection, one with the identifier that the program
  under \<^verbatim>\<open>test/keepalive\<close> gives to a channel, one with a timeout, or one that the application made.
\<close>

datatype ctx = Background | WithChannel ctx chid | WithIdentifier ctx uint32 chid | WithTimeout nat | CustomCtx nat

type_synonym ('v, 's) Handler = "ctx \<Rightarrow> chid \<Rightarrow> 'v message \<Rightarrow> 's \<Rightarrow> unit outcome \<times> 's"
type_synonym ('v, 's) Middleware = "('v, 's) Handler \<Rightarrow> ('v, 's) Handler"

text \<open>The loop of \<open>Chain\<close>, with \<open>i\<close> middlewares still to be wrapped around \<open>nxt\<close>.\<close>

primrec Chain_loop :: "('h \<Rightarrow> 'h) list \<Rightarrow> nat \<Rightarrow> 'h \<Rightarrow> 'h" where
  "Chain_loop ms 0 nxt = nxt"
| "Chain_loop ms (Suc i) nxt = Chain_loop ms i ((ms ! i) nxt)"

definition Chain :: "('h \<Rightarrow> 'h) list \<Rightarrow> 'h \<Rightarrow> 'h" where
  "Chain ms nxt = Chain_loop ms (length ms) nxt"

section \<open>Task counters (waitgroup.go)\<close>

definition ReadEvent :: nat where "ReadEvent = 0"
definition WriteEvent :: nat where "WriteEvent = 1"

text \<open>The counters of the three \<^verbatim>\<open>sync.WaitGroup\<close>s; \<^verbatim>\<open>Wait\<close> returns when its counter is 0.\<close>

record WaitGroup =
  readTask :: int
  writeTask :: int
  allTask :: int

definition NewWaitGroup :: WaitGroup where
  "NewWaitGroup = \<lparr>readTask = 0, writeTask = 0, allTask = 0\<rparr>"

definition WaitGroup_Add :: "nat \<Rightarrow> WaitGroup \<Rightarrow> WaitGroup" where
  "WaitGroup_Add event wg =
     (if event = ReadEvent then wg\<lparr>readTask := readTask wg + 1, allTask := allTask wg + 1\<rparr>
      else if event = WriteEvent then wg\<lparr>writeTask := writeTask wg + 1, allTask := allTask wg + 1\<rparr>
      else wg)"

text \<open>A counter that becomes negative panics.\<close>

definition counter_Done :: "int \<Rightarrow> (int \<Rightarrow> WaitGroup \<Rightarrow> WaitGroup) \<Rightarrow> WaitGroup \<Rightarrow> unit outcome \<times> WaitGroup" where
  "counter_Done c upd wg = (if c - 1 < 0 then Panic NegativeCounter else Ok (), upd (c - 1) wg)"

definition WaitGroup_Done :: "nat \<Rightarrow> WaitGroup \<Rightarrow> unit outcome \<times> WaitGroup" where
  "WaitGroup_Done event wg =
     (if event = ReadEvent then
        and_then (counter_Done (readTask wg) (\<lambda>c wg. wg\<lparr>readTask := c\<rparr>) wg)
          (\<lambda>_ wg. counter_Done (allTask wg) (\<lambda>c wg. wg\<lparr>allTask := c\<rparr>) wg)
      else if event = WriteEvent then
        and_then (counter_Done (writeTask wg) (\<lambda>c wg. wg\<lparr>writeTask := c\<rparr>) wg)
          (\<lambda>_ wg. counter_Done (allTask wg) (\<lambda>c wg. wg\<lparr>allTask := c\<rparr>) wg)
      else (Ok (), wg))"

definition WaitReadTask :: "WaitGroup \<Rightarrow> bool" where "WaitReadTask wg \<longleftrightarrow> readTask wg = 0"
definition WaitWriteTask :: "WaitGroup \<Rightarrow> bool" where "WaitWriteTask wg \<longleftrightarrow> writeTask wg = 0"
definition WaitGroup_Wait :: "WaitGroup \<Rightarrow> bool" where "WaitGroup_Wait wg \<longleftrightarrow> allTask wg = 0"

section \<open>State\<close>

definition Client :: nat where "Client = 1"
definition Server :: nat where "Server = 2"

definition inactive :: uint32 where "inactive = 0"
definition readable :: uint32 where "readable = 1"
definition writeable :: uint32 where "writeable = 2"
definition readWriteMode :: uint32 where "readWriteMode = 3"

lemmas state_defs = inactive_def readable_def writeable_def readWriteMode_def

text \<open>A zero \<^verbatim>\<open>time.Time\<close> is \<open>None\<close>; \<open>ch_done\<close> says whether the Go channel \<^verbatim>\<open>done\<close> is closed.\<close>

record channel =
  ch_ctx :: ctx
  ch_conn :: connid
  ch_state :: uint32
  ch_done :: bool
  ch_pl :: plid
  ch_tasks :: WaitGroup
  ch_side :: nat
  lastRead :: int
  lastWrite :: int
  ch_idle :: "int option"

text \<open>
  The names of functions: hooks on closing (the transport's \<^verbatim>\<open>closeChannel\<close> or one of the
  application), inbound and outbound middlewares, and the handler at the end of the outbound chain.
\<close>

datatype closedHook = CloseChannelHook | UserClosed nat
datatype inMw = KeepaliveMw | RecorderIn | RouterMw "nat option" | UserIn nat
datatype outMw = RecorderOut | UserOut nat
datatype outHandler = TransOutbound

record pipeline =
  onChannelChain :: "nat list"
  onChannelClosedChain :: "closedHook list"
  inbound :: "inMw list"
  outbound :: "outMw list"
  router :: "inMw option"
  outboundHandler :: "outHandler option"
  pl_ch :: "chid option"
  chocc :: "closedHook list"
  chIn :: "inMw list"
  chOut :: "outMw list"

text \<open>
  The goroutines of the program that wait for a task of their own: the two stages of \<open>Close\<close>, the
  two stages of the idle watch that \<open>addTask\<close> starts, the handling of a decoded message, and the
  closing of a channel when the transport shuts down.
\<close>

datatype 'v task =
    CloseWaitRead chid ctx "go_error option"
  | CloseWaitWrite chid ctx
  | IdleWait chid
  | IdleFin chid
  | InboundTask chid "'v message"
  | CloseChannelTask ctx chid "go_error option"

record 'v chan_sys =
  chans :: "chid \<Rightarrow> channel"
  nextCh :: chid
  pls :: "plid \<Rightarrow> pipeline"
  nextPl :: plid
  pool :: "plid list"
  poolNew :: "pipeline option"
  conns :: "connid \<Rightarrow> connection"
  clock :: int
  tasks :: "'v task list"
  ctxDone :: "ctx \<Rightarrow> bool"

definition upd_ch :: "chid \<Rightarrow> (channel \<Rightarrow> channel) \<Rightarrow> ('v, 'z) chan_sys_scheme \<Rightarrow> ('v, 'z) chan_sys_scheme" where
  "upd_ch c f s = s\<lparr>chans := (chans s)(c := f (chans s c))\<rparr>"

definition upd_pl :: "plid \<Rightarrow> (pipeline \<Rightarrow> pipeline) \<Rightarrow> ('v, 'z) chan_sys_scheme \<Rightarrow> ('v, 'z) chan_sys_scheme" where
  "upd_pl p f s = s\<lparr>pls := (pls s)(p := f (pls s p))\<rparr>"

definition Submit :: "'v task \<Rightarrow> ('v, 'z) chan_sys_scheme \<Rightarrow> ('v, 'z) chan_sys_scheme" where
  "Submit x s = s\<lparr>tasks := tasks s @ [x]\<rparr>"

section \<open>Pipelines (pipeline.go)\<close>

text \<open>
  \<open>NewPipelineFactory\<close> sets the constructor of the one global pool; the factory it returns takes a
  pipeline out of the pool (\<open>pick\<close>, which \<^verbatim>\<open>sync.Pool\<close> chooses) or makes a new one.
\<close>

definition NewPipelineFactory ::
    "nat list \<Rightarrow> closedHook list \<Rightarrow> inMw list \<Rightarrow> outMw list \<Rightarrow> inMw option \<Rightarrow> outHandler option \<Rightarrow>
     ('v, 'z) chan_sys_scheme \<Rightarrow> ('v, 'z) chan_sys_scheme" where
  "NewPipelineFactory onChannel onChannelClosed inb outb rt outh s =
     s\<lparr>poolNew := Some \<lparr>onChannelChain = onChannel, onChannelClosedChain = onChannelClosed, inbound = inb,
        outbound = outb, router = rt, outboundHandler = outh, pl_ch = None, chocc = [], chIn = [], chOut = []\<rparr>\<rparr>"

definition pool_Get :: "plid option \<Rightarrow> ('v, 'z) chan_sys_scheme \<Rightarrow> plid outcome \<times> ('v, 'z) chan_sys_scheme" where
  "pool_Get pick s =
     (case pick of
        Some p \<Rightarrow> (if p \<in> set (pool s) then (Ok p, s\<lparr>pool := remove1 p (pool s)\<rparr>) else (Hang, s))
      | None \<Rightarrow>
          (case poolNew s of
             None \<Rightarrow> (Panic TypeAssertion, s)
           | Some pl \<Rightarrow> (Ok (nextPl s), s\<lparr>pls := (pls s)(nextPl s := pl), nextPl := nextPl s + 1\<rparr>)))"

definition pipeline_factory ::
    "plid option \<Rightarrow> chid \<Rightarrow> ('v, 'z) chan_sys_scheme \<Rightarrow> plid outcome \<times> ('v, 'z) chan_sys_scheme" where
  "pipeline_factory pick ch s =
     and_then (pool_Get pick s) (\<lambda>p s. (Ok p, upd_pl p (\<lambda>pl. pl\<lparr>pl_ch := Some ch\<rparr>) s))"

definition pipeline_AddOnChannelClosed :: "closedHook list \<Rightarrow> pipeline \<Rightarrow> pipeline" where
  "pipeline_AddOnChannelClosed hs pl = (if 0 < length hs then pl\<lparr>chocc := chocc pl @ hs\<rparr> else pl)"

definition pipeline_AddInbound :: "inMw list \<Rightarrow> pipeline \<Rightarrow> pipeline" where
  "pipeline_AddInbound ms pl = (if 0 < length ms then pl\<lparr>chIn := chIn pl @ ms\<rparr> else pl)"

definition pipeline_AddOutbound :: "outMw list \<Rightarrow> pipeline \<Rightarrow> pipeline" where
  "pipeline_AddOutbound ms pl = (if 0 < length ms then pl\<lparr>chOut := chOut pl @ ms\<rparr> else pl)"

definition SetContext :: "chid \<Rightarrow> ctx \<Rightarrow> ('v, 'z) chan_sys_scheme \<Rightarrow> ('v, 'z) chan_sys_scheme" where
  "SetContext c x = upd_ch c (\<lambda>ch. ch\<lparr>ch_ctx := x\<rparr>)"

definition active :: "chid \<Rightarrow> ('v, 'z) chan_sys_scheme \<Rightarrow> ('v, 'z) chan_sys_scheme" where
  "active c = upd_ch c (\<lambda>ch. ch\<lparr>ch_state := readWriteMode\<rparr>)"

text \<open>
  The loop of \<open>FireOnChannel\<close>. A hook may return a nil context, which is passed on to the next hook
  but not stored.
\<close>

fun fire_onChannel ::
    "(nat \<Rightarrow> ctx option \<Rightarrow> chid \<Rightarrow> ('v, 'z) chan_sys_scheme \<Rightarrow> ctx option outcome \<times> ('v, 'z) chan_sys_scheme) \<Rightarrow>
     nat list \<Rightarrow> ctx option \<Rightarrow> chid \<Rightarrow> ('v, 'z) chan_sys_scheme \<Rightarrow> unit outcome \<times> ('v, 'z) chan_sys_scheme" where
  "fire_onChannel hook [] x c s = (Ok (), s)"
| "fire_onChannel hook (h # hs) x c s =
     and_then (hook h x c s) (\<lambda>x' s. fire_onChannel hook hs x' c
       (case x' of None \<Rightarrow> s | Some y \<Rightarrow> SetContext c y s))"

definition FireOnChannel ::
    "(nat \<Rightarrow> ctx option \<Rightarrow> chid \<Rightarrow> ('v, 'z) chan_sys_scheme \<Rightarrow> ctx option outcome \<times> ('v, 'z) chan_sys_scheme) \<Rightarrow>
     plid \<Rightarrow> ctx \<Rightarrow> ('v, 'z) chan_sys_scheme \<Rightarrow> unit outcome \<times> ('v, 'z) chan_sys_scheme" where
  "FireOnChannel hook p x s =
     (case pl_ch (pls s p) of
        None \<Rightarrow> (Panic NilDereference, s)
      | Some c \<Rightarrow> and_then (fire_onChannel hook (onChannelChain (pls s p)) (Some x) c (SetContext c x s))
                   (\<lambda>_ s. (Ok (), active c s)))"

text \<open>A hook on closing has no result; it may panic.\<close>

fun fire_onChannelClosed ::
    "(closedHook \<Rightarrow> ctx \<Rightarrow> chid \<Rightarrow> go_error option \<Rightarrow> ('v, 'z) chan_sys_scheme \<Rightarrow> unit outcome \<times> ('v, 'z) chan_sys_scheme) \<Rightarrow>
     closedHook list \<Rightarrow> chid \<Rightarrow> go_error option \<Rightarrow> ('v, 'z) chan_sys_scheme \<Rightarrow> unit outcome \<times> ('v, 'z) chan_sys_scheme" where
  "fire_onChannelClosed hook [] c err s = (Ok (), s)"
| "fire_onChannelClosed hook (h # hs) c err s =
     and_then (hook h (ch_ctx (chans s c)) c err s) (\<lambda>_ s. fire_onChannelClosed hook hs c err s)"

definition FireOnChannelClosed ::
    "(closedHook \<Rightarrow> ctx \<Rightarrow> chid \<Rightarrow> go_error option \<Rightarrow> ('v, 'z) chan_sys_scheme \<Rightarrow> unit outcome \<times> ('v, 'z) chan_sys_scheme) \<Rightarrow>
     plid \<Rightarrow> go_error option \<Rightarrow> ('v, 'z) chan_sys_scheme \<Rightarrow> unit outcome \<times> ('v, 'z) chan_sys_scheme" where
  "FireOnChannelClosed hook p err s =
     (let hooks = onChannelClosedChain (pls s p) @ chocc (pls s p)
      in case pl_ch (pls s p) of
           None \<Rightarrow> (if hooks = [] then (Ok (), s) else (Panic NilDereference, s))
         | Some c \<Rightarrow> fire_onChannelClosed hook hooks c err s)"

definition emptyHandler :: "('v, 's) Handler" where
  "emptyHandler x c m s = (Ok (), s)"

definition FireInbound ::
    "(inMw \<Rightarrow> ('v, ('v, 'z) chan_sys_scheme) Middleware) \<Rightarrow> plid \<Rightarrow> 'v message \<Rightarrow>
     ('v, 'z) chan_sys_scheme \<Rightarrow> unit outcome \<times> ('v, 'z) chan_sys_scheme" where
  "FireInbound mw p m s =
     (let pl = pls s p;
          mws = Chain [Chain (map mw (inbound pl)), Chain (map mw (chIn pl))];
          mws = (case router pl of None \<Rightarrow> mws | Some r \<Rightarrow> Chain [mws, mw r])
      in case pl_ch pl of
           None \<Rightarrow> (Panic NilDereference, s)
         | Some c \<Rightarrow> mws emptyHandler (ch_ctx (chans s c)) c m s)"

definition FireOutbound ::
    "(outMw \<Rightarrow> ('v, ('v, 'z) chan_sys_scheme) Middleware) \<Rightarrow> (outHandler \<Rightarrow> ('v, ('v, 'z) chan_sys_scheme) Handler) \<Rightarrow>
     plid \<Rightarrow> 'v message \<Rightarrow> ('v, 'z) chan_sys_scheme \<Rightarrow> unit outcome \<times> ('v, 'z) chan_sys_scheme" where
  "FireOutbound mw oh p m s =
     (let pl = pls s p;
          mws = Chain [Chain (map mw (chOut pl)), Chain (map mw (outbound pl))];
          handler = (case outboundHandler pl of None \<Rightarrow> emptyHandler | Some h \<Rightarrow> oh h)
      in case pl_ch pl of
           None \<Rightarrow> (Panic NilDereference, s)
         | Some c \<Rightarrow> mws handler (ch_ctx (chans s c)) c m s)"

definition pipeline_Outbound ::
    "(outHandler \<Rightarrow> ('v, ('v, 'z) chan_sys_scheme) Handler) \<Rightarrow>
     plid \<Rightarrow> 'v message \<Rightarrow> ('v, 'z) chan_sys_scheme \<Rightarrow> unit outcome \<times> ('v, 'z) chan_sys_scheme" where
  "pipeline_Outbound oh p m s =
     (case (outboundHandler (pls s p), pl_ch (pls s p)) of
        (Some h, Some c) \<Rightarrow> oh h (ch_ctx (chans s c)) c m s
      | _ \<Rightarrow> (Panic NilDereference, s))"

definition pipeline_Release :: "plid \<Rightarrow> ('v, 'z) chan_sys_scheme \<Rightarrow> ('v, 'z) chan_sys_scheme" where
  "pipeline_Release p s =
     (let s = upd_pl p (\<lambda>pl. pl\<lparr>pl_ch := None, chocc := [], chIn := [], chOut := []\<rparr>) s
      in s\<lparr>pool := p # pool s\<rparr>)"

section \<open>Channels (channel.go)\<close>

definition NewChannel ::
    "connid \<Rightarrow> nat \<Rightarrow> plid option \<Rightarrow> ('v, 'z) chan_sys_scheme \<Rightarrow> chid outcome \<times> ('v, 'z) chan_sys_scheme" where
  "NewChannel con sd pick s =
     (let c = nextCh s;
          s1 = s\<lparr>nextCh := c + 1, chans := (chans s)(c :=
                 \<lparr>ch_ctx = Background, ch_conn = con, ch_state = inactive, ch_done = False, ch_pl = 0,
                  ch_tasks = NewWaitGroup, ch_side = sd, lastRead = 0, lastWrite = 0,
                  ch_idle = Some (clock s)\<rparr>)\<rparr>
      in and_then (pipeline_factory pick c s1) (\<lambda>p s. (Ok c, upd_ch c (\<lambda>ch. ch\<lparr>ch_pl := p\<rparr>) s)))"

definition channel_Context :: "chid \<Rightarrow> ('v, 'z) chan_sys_scheme \<Rightarrow> ctx" where
  "channel_Context c s = ch_ctx (chans s c)"

definition channel_RemoteAddr :: "chid \<Rightarrow> ('v, 'z) chan_sys_scheme \<Rightarrow> string" where
  "channel_RemoteAddr c s = connection_RemoteAddr (conns s (ch_conn (chans s c)))"

definition channel_LocalAddr :: "chid \<Rightarrow> ('v, 'z) chan_sys_scheme \<Rightarrow> string" where
  "channel_LocalAddr c s = connection_LocalAddr (conns s (ch_conn (chans s c)))"

definition calState :: "uint32 \<Rightarrow> channel \<Rightarrow> bool" where
  "calState st ch \<longleftrightarrow> ch_state ch AND st = st"

definition Readable :: "channel \<Rightarrow> bool" where "Readable ch \<longleftrightarrow> calState readable ch"
definition Writeable :: "channel \<Rightarrow> bool" where "Writeable ch \<longleftrightarrow> calState writeable ch"

definition channel_IsActive :: "chid \<Rightarrow> ('v, 'z) chan_sys_scheme \<Rightarrow> bool" where
  "channel_IsActive c s \<longleftrightarrow>
     ch_state (chans s c) AND readWriteMode \<noteq> 0 \<and> connection_IsActive (conns s (ch_conn (chans s c)))"

definition channel_Write ::
    "(outMw \<Rightarrow> ('v, ('v, 'z) chan_sys_scheme) Middleware) \<Rightarrow> (outHandler \<Rightarrow> ('v, ('v, 'z) chan_sys_scheme) Handler) \<Rightarrow>
     chid \<Rightarrow> 'v message \<Rightarrow> ('v, 'z) chan_sys_scheme \<Rightarrow> unit outcome \<times> ('v, 'z) chan_sys_scheme" where
  "channel_Write mw oh c m s =
     (if calState writeable (chans s c) then FireOutbound mw oh (ch_pl (chans s c)) m s
      else (Err ErrChannelWriterClosed, s))"

text \<open>\<open>close\<close> when nobody interferes: the compare-and-swap succeeds in the first round.\<close>

definition channel_close :: "uint32 \<Rightarrow> channel \<Rightarrow> channel" where
  "channel_close st ch =
     (if ch_state ch AND st = st then ch\<lparr>ch_state := ch_state ch XOR st\<rparr> else ch)"

definition CloseReader :: "channel \<Rightarrow> channel" where "CloseReader ch = channel_close readable ch"
definition CloseWriter :: "channel \<Rightarrow> channel" where "CloseWriter ch = channel_close writeable ch"

definition channel_Close ::
    "ctx \<Rightarrow> go_error option \<Rightarrow> chid \<Rightarrow> ('v, 'z) chan_sys_scheme \<Rightarrow> unit outcome \<times> ('v, 'z) chan_sys_scheme" where
  "channel_Close x err c s =
     (if ch_state (chans s c) = inactive then (Err ErrChannelClosed, s)
      else
        let s1 = upd_ch c (\<lambda>ch. ch\<lparr>ch_state := inactive\<rparr>) s;
            s2 = upd_ch c (channel_close inactive) s1
        in (Ok (), Submit (CloseWaitRead c x err) s2))"

text \<open>The deferred function of the goroutine of \<open>Close\<close>.\<close>

definition close_finish :: "chid \<Rightarrow> ('v, 'z) chan_sys_scheme \<Rightarrow> unit outcome \<times> ('v, 'z) chan_sys_scheme" where
  "close_finish c s =
     (if ch_done (chans s c) then (Panic CloseOfClosedChannel, s)
      else
        let s1 = upd_ch c (\<lambda>ch. ch\<lparr>ch_done := True\<rparr>) s;
            s2 = pipeline_Release (ch_pl (chans s1 c)) s1;
            k = ch_conn (chans s2 c)
        in (Ok (), s2\<lparr>conns := (conns s2)(k := connection_Close (conns s2 k))\<rparr>))"

text \<open>
  The goroutine of \<open>Close\<close> once the read tasks are done: the hooks, and then either the end, or the
  wait for the write tasks. A hook that panics runs the deferred function, too; one that never
  returns keeps it from running.
\<close>

definition close_hooks ::
    "(closedHook \<Rightarrow> ctx \<Rightarrow> chid \<Rightarrow> go_error option \<Rightarrow> ('v, 'z) chan_sys_scheme \<Rightarrow> unit outcome \<times> ('v, 'z) chan_sys_scheme) \<Rightarrow>
     chid \<Rightarrow> ctx \<Rightarrow> go_error option \<Rightarrow> ('v, 'z) chan_sys_scheme \<Rightarrow> unit outcome \<times> ('v, 'z) chan_sys_scheme" where
  "close_hooks hook c x err s =
     (case FireOnChannelClosed hook (ch_pl (chans s c)) err s of
        (Ok _, s1) \<Rightarrow>
          (if err \<noteq> None then close_finish c s1 else (Ok (), Submit (CloseWaitWrite c x) s1))
      | (Hang, s1) \<Rightarrow> (Hang, s1)
      | (out, s1) \<Rightarrow> and_then (close_finish c s1) (\<lambda>_ s2. (out, s2)))"

definition channel_AddOnChannelClosed :: "closedHook list \<Rightarrow> chid \<Rightarrow> ('v, 'z) chan_sys_scheme \<Rightarrow> ('v, 'z) chan_sys_scheme" where
  "channel_AddOnChannelClosed hs c s = upd_pl (ch_pl (chans s c)) (pipeline_AddOnChannelClosed hs) s"

definition channel_AddInboundMiddleware :: "inMw list \<Rightarrow> chid \<Rightarrow> ('v, 'z) chan_sys_scheme \<Rightarrow> ('v, 'z) chan_sys_scheme" where
  "channel_AddInboundMiddleware ms c s = upd_pl (ch_pl (chans s c)) (pipeline_AddInbound ms) s"

definition channel_AddOutboundMiddleware :: "outMw list \<Rightarrow> chid \<Rightarrow> ('v, 'z) chan_sys_scheme \<Rightarrow> ('v, 'z) chan_sys_scheme" where
  "channel_AddOutboundMiddleware ms c s = upd_pl (ch_pl (chans s c)) (pipeline_AddOutbound ms) s"

definition IdleTime :: "channel \<Rightarrow> int option" where "IdleTime ch = ch_idle ch"
definition LastRead :: "channel \<Rightarrow> int" where "LastRead ch = lastRead ch"
definition LastWrite :: "channel \<Rightarrow> int" where "LastWrite ch = lastWrite ch"
definition Side :: "channel \<Rightarrow> nat" where "Side ch = ch_side ch"

text \<open>Both \<open>Reader\<close> and \<open>Writer\<close> ask whether the channel is readable.\<close>

definition channel_Reader :: "bufferReader \<Rightarrow> chid \<Rightarrow> ('v, 'z) chan_sys_scheme \<Rightarrow> reader outcome" where
  "channel_Reader pooled c s =
     (if \<not> calState readable (chans s c) then Err ErrChannelReaderClosed
      else Ok (connection_Reader pooled (c_source (conns s (ch_conn (chans s c))))))"

definition channel_Writer :: "chid \<Rightarrow> ('v, 'z) chan_sys_scheme \<Rightarrow> (writer \<times> world) outcome" where
  "channel_Writer c s =
     (if \<not> calState readable (chans s c) then Err ErrChannelWriterClosed
      else Ok (connection_Writer (c_world (conns s (ch_conn (chans s c))))))"

definition channel_Activate ::
    "(nat \<Rightarrow> ctx option \<Rightarrow> chid \<Rightarrow> ('v, 'z) chan_sys_scheme \<Rightarrow> ctx option outcome \<times> ('v, 'z) chan_sys_scheme) \<Rightarrow>
     ctx \<Rightarrow> chid \<Rightarrow> ('v, 'z) chan_sys_scheme \<Rightarrow> unit outcome \<times> ('v, 'z) chan_sys_scheme" where
  "channel_Activate hook x c s = FireOnChannel hook (ch_pl (chans s c)) x s"

definition TriggerInbound ::
    "(inMw \<Rightarrow> ('v, ('v, 'z) chan_sys_scheme) Middleware) \<Rightarrow> 'v message \<Rightarrow> chid \<Rightarrow>
     ('v, 'z) chan_sys_scheme \<Rightarrow> unit outcome \<times> ('v, 'z) chan_sys_scheme" where
  "TriggerInbound mw m c s = FireInbound mw (ch_pl (chans s c)) m s"

definition WriteDirectly ::
    "(outHandler \<Rightarrow> ('v, ('v, 'z) chan_sys_scheme) Handler) \<Rightarrow> 'v message \<Rightarrow> chid \<Rightarrow>
     ('v, 'z) chan_sys_scheme \<Rightarrow> unit outcome \<times> ('v, 'z) chan_sys_scheme" where
  "WriteDirectly oh m c s = pipeline_Outbound oh (ch_pl (chans s c)) m s"

definition addTask :: "nat \<Rightarrow> chid \<Rightarrow> ('v, 'z) chan_sys_scheme \<Rightarrow> ('v, 'z) chan_sys_scheme" where
  "addTask event c s =
     (let s1 = upd_ch c (\<lambda>ch. ch\<lparr>ch_tasks := WaitGroup_Add event (ch_tasks ch)\<rparr>) s;
          s2 = (if event = ReadEvent then upd_ch c (\<lambda>ch. ch\<lparr>lastRead := clock s\<rparr>) s1
                else if event = WriteEvent then upd_ch c (\<lambda>ch. ch\<lparr>lastWrite := clock s\<rparr>) s1
                else s1)
      in if ch_idle (chans s2 c) = None then s2
         else Submit (IdleWait c) (upd_ch c (\<lambda>ch. ch\<lparr>ch_idle := None\<rparr>) s2))"

definition tasks_Done :: "nat \<Rightarrow> chid \<Rightarrow> ('v, 'z) chan_sys_scheme \<Rightarrow> unit outcome \<times> ('v, 'z) chan_sys_scheme" where
  "tasks_Done event c s =
     (case WaitGroup_Done event (ch_tasks (chans s c)) of
        (out, wg) \<Rightarrow> (out, upd_ch c (\<lambda>ch. ch\<lparr>ch_tasks := wg\<rparr>) s))"

text \<open>
  \<open>Recorder\<close> in two halves, before and after the handler it wraps. The second one is a plain statement
  of the middleware, not a deferred one: a handler that panics unwinds past it.
\<close>

definition Recorder_enter :: "nat \<Rightarrow> chid \<Rightarrow> ('v, 'z) chan_sys_scheme \<Rightarrow> ('v, 'z) chan_sys_scheme" where
  "Recorder_enter event c s = addTask event c s"

definition Recorder_leave ::
    "nat \<Rightarrow> chid \<Rightarrow> unit outcome \<Rightarrow> ('v, 'z) chan_sys_scheme \<Rightarrow> unit outcome \<times> ('v, 'z) chan_sys_scheme" where
  "Recorder_leave event c out s =
     (case out of
        Ok _ \<Rightarrow> tasks_Done event c s
      | Err e \<Rightarrow> and_then (tasks_Done event c s) (\<lambda>_ s1. (Err e, s1))
      | _ \<Rightarrow> (out, s))"

definition Recorder :: "nat \<Rightarrow> ('v, ('v, 'z) chan_sys_scheme) Middleware" where
  "Recorder event handler x c m s =
     (case handler x c m (Recorder_enter event c s) of (out, s1) \<Rightarrow> Recorder_leave event c out s1)"

end
