(* ===== verification/ChannelProps.thy ===== *)
theory ChannelProps
  imports Channel
begin

text \<open>
  Properties of channels that concern one operation: the order in which a pipeline runs its
  middlewares, what the state bits allow, and the interleavings of the atomic steps in which
  \<^verbatim>\<open>Close\<close>, \<^verbatim>\<open>CloseReader\<close> and \<^verbatim>\<open>CloseWriter\<close> change the state word.
\<close>

section \<open>Chains\<close>

lemma Chain_loop_take: "i \<le> length ms \<Longrightarrow> Chain_loop ms i h = foldr (\<lambda>m n. m n) (take i ms) h"
  by (induction i arbitrary: h) (simp_all add: take_Suc_conv_app_nth)

lemma Chain_foldr: "Chain ms h = foldr (\<lambda>m n. m n) ms h"
  by (simp add: Chain_def Chain_loop_take)

lemma Chain_Nil [simp]: "Chain [] h = h"
  by (simp add: Chain_foldr)

lemma Chain_append [simp]: "Chain (xs @ ys) h = Chain xs (Chain ys h)"
  by (simp add: Chain_foldr)

lemma Chain_Cons [simp]: "Chain (m # ms) h = m (Chain ms h)"
  by (simp add: Chain_foldr)

text \<open>A system with one channel on one connection.\<close>

definition conn0 :: connection where
  "conn0 = WrapConnection \<lparr>chunks = [], fin = EOF\<rparr> \<lparr>arr = \<lambda>_. [], brk = 0, sent = [], faults = []\<rparr> ''a'' ''b''"

definition channel0 :: channel where
  "channel0 = \<lparr>ch_ctx = Background, ch_conn = 0, ch_state = readWriteMode, ch_done = False, ch_pl = 0,
     ch_tasks = NewWaitGroup, ch_side = Server, lastRead = 0, lastWrite = 0, ch_idle = Some 0\<rparr>"

definition pipeline0 :: pipeline where
  "pipeline0 = \<lparr>onChannelChain = [], onChannelClosedChain = [], inbound = [RecorderIn], outbound = [RecorderOut],
     router = Some (RouterMw (Some 0)), outboundHandler = Some TransOutbound, pl_ch = Some 0, chocc = [],
     chIn = [UserIn 1], chOut = [UserOut 2]\<rparr>"

definition sys0 :: "unit chan_sys" where
  "sys0 = \<lparr>chans = (\<lambda>_. channel0), nextCh = 1, pls = (\<lambda>_. pipeline0), nextPl = 1, pool = [], poolNew = None,
     conns = (\<lambda>_. conn0), clock = 0, tasks = [], ctxDone = (\<lambda>_. False)\<rparr>"

lemmas sys0_defs = sys0_def pipeline0_def channel0_def

text \<open>
  A middleware that does something before it calls the next handler, and nothing afterwards:
  \<open>f\<close> is that step.
\<close>

definition before :: "(ctx \<Rightarrow> chid \<Rightarrow> 'v message \<Rightarrow> 's \<Rightarrow> unit outcome \<times> 's) \<Rightarrow> ('v, 's) Middleware" where
  "before f nxt x c m s = and_then (f x c m s) (\<lambda>_ s. nxt x c m s)"

primrec in_order :: "(ctx \<Rightarrow> chid \<Rightarrow> 'v message \<Rightarrow> 's \<Rightarrow> unit outcome \<times> 's) list \<Rightarrow> ctx \<Rightarrow> chid \<Rightarrow> 'v message \<Rightarrow> 's \<Rightarrow> unit outcome \<times> 's" where
  "in_order [] x c m s = (Ok (), s)"
| "in_order (f # fs) x c m s = and_then (f x c m s) (\<lambda>_ s. in_order fs x c m s)"

lemma and_then_assoc: "and_then (and_then r f) g = and_then r (\<lambda>a s. and_then (f a s) g)"
  by (cases "(r, f)" rule: and_then.cases) auto

lemma Chain_before: "Chain (map (before \<circ> f) ms) h x c m s = and_then (in_order (map f ms) x c m s) (\<lambda>_ s. h x c m s)"
  by (induction ms arbitrary: s) (simp_all add: before_def and_then_assoc)

text \<open>
  C18: inbound messages pass the common middlewares, then those of the channel, then the router, each
  in the order they were added; outbound messages pass those of the channel first and the common
  ones after them, then the outbound handler. An error of one of them stops the rest.
\<close>


theorem pipeline_order:
  assumes "pl_ch (pls s p) = Some c" and "x = ch_ctx (chans s c)"
  shows "FireInbound (before \<circ> f) p m s =
      in_order (map f (inbound (pls s p) @ chIn (pls s p) @ (case router (pls s p) of None \<Rightarrow> [] | Some r \<Rightarrow> [r]))) x c m s
    \<and> FireOutbound (before \<circ> g) oh p m s =
      and_then (in_order (map g (chOut (pls s p) @ outbound (pls s p))) x c m s)
        (\<lambda>_ s'. case outboundHandler (pls s p) of None \<Rightarrow> (Ok (), s') | Some h \<Rightarrow> oh h x c m s')"
proof
  have unit: "and_then r (\<lambda>_ s. (Ok (), s)) = r" for r :: "unit outcome \<times> ('a, 'b) chan_sys_scheme"
    by (cases r; cases "fst r") auto
  let ?pl = "pls s p"
  have "FireInbound (before \<circ> f) p m s =
      Chain (map (before \<circ> f) (inbound ?pl @ chIn ?pl @ (case router ?pl of None \<Rightarrow> [] | Some r \<Rightarrow> [r]))) emptyHandler x c m s"
    using assms by (simp add: FireInbound_def Let_def split: option.split)
  then show "FireInbound (before \<circ> f) p m s =
      in_order (map f (inbound ?pl @ chIn ?pl @ (case router ?pl of None \<Rightarrow> [] | Some r \<Rightarrow> [r]))) x c m s"
    by (simp only: Chain_before emptyHandler_def unit)
  let ?h = "case outboundHandler ?pl of None \<Rightarrow> emptyHandler | Some h \<Rightarrow> oh h"
  have "FireOutbound (before \<circ> g) oh p m s = Chain (map (before \<circ> g) (chOut ?pl @ outbound ?pl)) ?h x c m s"
    using assms by (simp add: FireOutbound_def Let_def)
  moreover have "?h x c m s' = (case outboundHandler ?pl of None \<Rightarrow> (Ok (), s') | Some h \<Rightarrow> oh h x c m s')" for s'
    by (simp add: emptyHandler_def split: option.split)
  ultimately show "FireOutbound (before \<circ> g) oh p m s =
      and_then (in_order (map g (chOut ?pl @ outbound ?pl)) x c m s)
        (\<lambda>_ s'. case outboundHandler ?pl of None \<Rightarrow> (Ok (), s') | Some h \<Rightarrow> oh h x c m s')"
    by (simp only: Chain_before)
qed

theorem pipeline_order_witness:
  "FireInbound (before \<circ> (\<lambda>_ _ _ _ s. (Ok (), s))) 0 NilMsg sys0 =
     in_order (map (\<lambda>_ _ _ _ s. (Ok (), s)) [RecorderIn, UserIn 1, RouterMw (Some 0)]) Background 0 NilMsg sys0 \<and>
   FireOutbound (before \<circ> (\<lambda>_ _ _ _ s. (Ok (), s))) (\<lambda>_ _ _ _ s. (Err EOF, s)) 0 NilMsg sys0 =
     and_then (in_order (map (\<lambda>_ _ _ _ s. (Ok (), s)) [UserOut 2, RecorderOut]) Background 0 NilMsg sys0)
       (\<lambda>_ s'. (Err EOF, s'))"
  using pipeline_order[of sys0 0 0 Background "\<lambda>_ _ _ _ s. (Ok (), s)" NilMsg "\<lambda>_ _ _ _ s. (Ok (), s)"
      "\<lambda>_ _ _ _ s. (Err EOF, s)"]
  by (simp add: sys0_defs)

section \<open>The state word under interleaving\<close>

text \<open>
  A goroutine inside \<^verbatim>\<open>Close\<close> or inside the loop of \<^verbatim>\<open>close\<close> (for the reader's or the writer's bit).
  Every load and every compare-and-swap of the state word is one step.
\<close>

datatype side_bit = RBit | WBit

fun bit_of :: "side_bit \<Rightarrow> uint32" where
  "bit_of RBit = readable"
| "bit_of WBit = writeable"

datatype caller =
    CloseStart | CloseLoaded uint32 | CloseReturned "unit outcome"
  | BitStart side_bit | BitLoaded side_bit uint32 | BitReturned

fun caller_step :: "caller \<Rightarrow> uint32 \<Rightarrow> caller \<times> uint32" where
  "caller_step CloseStart w = (if w = inactive then (CloseReturned (Err ErrChannelClosed), w) else (CloseLoaded w, w))"
| "caller_step (CloseLoaded old) w =
     (if w = old then (CloseReturned (Ok ()), inactive) else (CloseReturned (Err ErrChannelClosed), w))"
| "caller_step (BitStart b) w = (if w AND bit_of b = bit_of b then (BitLoaded b w, w) else (BitReturned, w))"
| "caller_step (BitLoaded b old) w = (if w = old then (BitReturned, old XOR bit_of b) else (BitStart b, w))"
| "caller_step (CloseReturned r) w = (CloseReturned r, w)"
| "caller_step BitReturned w = (BitReturned, w)"

fun returned :: "caller \<Rightarrow> bool" where
  "returned (CloseReturned _) = True"
| "returned BitReturned = True"
| "returned _ = False"

text \<open>Any of the goroutines makes a step.\<close>

inductive race_step :: "uint32 \<times> caller list \<Rightarrow> uint32 \<times> caller list \<Rightarrow> bool" where
  race: "i < length ts \<Longrightarrow> \<not> returned (ts ! i) \<Longrightarrow> caller_step (ts ! i) w = (t, w') \<Longrightarrow>
    race_step (w, ts) (w', ts[i := t])"

inductive_cases race_stepE: "race_step s s'"

fun at_start :: "caller \<Rightarrow> bool" where
  "at_start CloseStart = True"
| "at_start (BitStart b) = True"
| "at_start _ = False"

definition race_init :: "uint32 \<times> caller list \<Rightarrow> bool" where
  "race_init s \<longleftrightarrow> list_all at_start (snd s)"

text \<open>The sequential operations are the runs without interference.\<close>

lemma sequential_close:
  "channel_close (bit_of b) ch =
     (if ch_state ch AND bit_of b = bit_of b
      then ch\<lparr>ch_state := snd (caller_step (fst (caller_step (BitStart b) (ch_state ch))) (ch_state ch))\<rparr> else ch)"
  by (simp add: channel_close_def)

text \<open>What a goroutine has loaded, and who has won.\<close>

fun caller_ok :: "caller \<Rightarrow> bool" where
  "caller_ok (CloseLoaded old) = (old \<noteq> inactive)"
| "caller_ok (BitLoaded b old) = (old AND bit_of b = bit_of b)"
| "caller_ok _ = True"

definition winners :: "caller list \<Rightarrow> nat" where
  "winners ts = length (filter (\<lambda>t. t = CloseReturned (Ok ())) ts)"

definition race_inv :: "uint32 \<times> caller list \<Rightarrow> bool" where
  "race_inv s \<longleftrightarrow> list_all caller_ok (snd s) \<and> winners (snd s) \<le> 1 \<and> (0 < winners (snd s) \<longrightarrow> fst s = inactive)"

lemma winners_update:
  assumes "i < length ts" and "\<not> returned (ts ! i)"
  shows "winners (ts[i := t]) = winners ts + of_bool (t = CloseReturned (Ok ()))"
proof -
  have ts: "ts = take i ts @ ts ! i # drop (Suc i) ts" using assms(1) by (rule id_take_nth_drop)
  have "ts ! i \<noteq> CloseReturned (Ok ())" using assms(2) by auto
  then have "winners ts = winners (take i ts) + winners (drop (Suc i) ts)"
    by (subst ts) (simp add: winners_def)
  moreover have "winners (ts[i := t]) = winners (take i ts) + of_bool (t = CloseReturned (Ok ())) + winners (drop (Suc i) ts)"
    using assms(1) by (simp add: upd_conv_take_nth_drop winners_def)
  ultimately show ?thesis by simp
qed

lemma bit_of_nonzero [simp]: "bit_of b \<noteq> 0"
  by (cases b) (simp_all add: state_defs)

lemma caller_step_ok:
  assumes "caller_step t w = (t', w')" and "caller_ok t" and "\<not> returned t"
  shows "caller_ok t'" and "t' = CloseReturned (Ok ()) \<Longrightarrow> w \<noteq> inactive \<and> w' = inactive"
    and "w = inactive \<Longrightarrow> w' = inactive" and "w' AND NOT w = 0"
proof -
  have "(w XOR b) AND NOT w = 0" if "w AND b = b" for b :: uint32
  proof (rule bit_word_eqI)
    fix n assume "n < LENGTH(32)"
    have "bit (w AND b) n = bit b n" using that by simp
    then show "bit ((w XOR b) AND NOT w) n = bit (0 :: uint32) n"
      using \<open>n < LENGTH(32)\<close> by (auto simp: bit_simps)
  qed
  then show "caller_ok t'" "t' = CloseReturned (Ok ()) \<Longrightarrow> w \<noteq> inactive \<and> w' = inactive"
      "w = inactive \<Longrightarrow> w' = inactive" "w' AND NOT w = 0"
    using assms by (cases t; auto simp: state_defs split: if_splits)+
qed

lemma race_inv_step: "race_step s s' \<Longrightarrow> race_inv s \<Longrightarrow> race_inv s'"
proof (erule race_stepE)
  fix i ts w t w'
  assume s: "s = (w, ts)" "s' = (w', ts[i := t])" "i < length ts" "\<not> returned (ts ! i)"
      "caller_step (ts ! i) w = (t, w')" and inv: "race_inv s"
  have "caller_ok (ts ! i)" using inv s by (simp add: race_inv_def list_all_length)
  note ok = caller_step_ok[OF s(5) this s(4)]
  have "list_all caller_ok (ts[i := t])"
    using inv s ok(1) by (simp add: race_inv_def list_all_length nth_list_update)
  moreover have "winners (ts[i := t]) \<le> 1 \<and> (0 < winners (ts[i := t]) \<longrightarrow> w' = inactive)"
    using inv s ok(2,3) by (auto simp: race_inv_def winners_update)
  ultimately show "race_inv s'" using s by (simp add: race_inv_def)
qed

lemma race_init_inv: "race_init s \<Longrightarrow> race_inv s"
proof -
  assume i: "race_init s"
  have "caller_ok t \<and> t \<noteq> CloseReturned (Ok ())" if "at_start t" for t using that by (cases t) auto
  with i have "list_all caller_ok (snd s)" "winners (snd s) = 0"
    by (auto simp: race_init_def race_inv_def winners_def list_all_iff filter_empty_conv)
  then show ?thesis by (simp add: race_inv_def)
qed

lemma race_inv_steps: "race_step\<^sup>*\<^sup>* s s' \<Longrightarrow> race_inv s \<Longrightarrow> race_inv s'"
  by (induction rule: rtranclp_induct) (auto intro: race_inv_step)

lemma race_bits: "race_step\<^sup>*\<^sup>* s s' \<Longrightarrow> race_inv s \<Longrightarrow> fst s' AND NOT (fst s) = 0"
proof (induction rule: rtranclp_induct)
  case (step s1 s2)
  from step(2) obtain i ts w t w' where s: "s1 = (w, ts)" "s2 = (w', ts[i := t])" "i < length ts"
      "\<not> returned (ts ! i)" "caller_step (ts ! i) w = (t, w')" by (rule race_stepE)
  have "race_inv s1" using race_inv_steps step by blast
  then have "caller_ok (ts ! i)" using s by (simp add: race_inv_def list_all_length)
  from caller_step_ok(4)[OF s(5) this s(4)] have a: "w' AND NOT w = 0" .
  have b: "w AND NOT (fst s) = 0" using step s by simp
  have "w' AND NOT (fst s) = 0"
  proof (rule bit_word_eqI)
    fix n assume n: "n < LENGTH(32)"
    have "bit (w' AND NOT w) n = bit (0 :: uint32) n" "bit (w AND NOT (fst s)) n = bit (0 :: uint32) n"
      using a b by simp_all
    then show "bit (w' AND NOT (fst s)) n = bit (0 :: uint32) n" using n by (auto simp: bit_simps)
  qed
  then show ?case using s by simp
qed simp

text \<open>
  C11: in every interleaving of any number of calls of \<^verbatim>\<open>Close\<close>, \<^verbatim>\<open>CloseReader\<close> and \<^verbatim>\<open>CloseWriter\<close> at most
  one \<^verbatim>\<open>Close\<close> succeeds (so its goroutine is started at most once), the channel is inactive from then
  on, and no bit of the state ever comes back.
\<close>

theorem close_succeeds_at_most_once:
  assumes "race_init s" and "race_step\<^sup>*\<^sup>* s s'"
  shows "winners (snd s') \<le> 1 \<and> (0 < winners (snd s') \<longrightarrow> fst s' = inactive) \<and> fst s' AND NOT (fst s) = 0"
  using race_inv_steps[OF assms(2) race_init_inv[OF assms(1)]] race_bits[OF assms(2) race_init_inv[OF assms(1)]]
  by (simp add: race_inv_def)

theorem close_succeeds_at_most_once_witness:
  "winners (snd (inactive, [CloseReturned (Ok ()), CloseLoaded 3])) \<le> 1 \<and>
   fst (inactive, [CloseReturned (Ok ()), CloseLoaded 3]) AND NOT (fst (readWriteMode, [CloseStart, CloseStart])) = 0"
proof -
  have "race_step (3, [CloseStart, CloseStart]) (3, [CloseLoaded 3, CloseStart])"
    using race[of 0 "[CloseStart, CloseStart]" 3] by (simp add: state_defs)
  moreover have "race_step (3, [CloseLoaded 3, CloseStart]) (3, [CloseLoaded 3, CloseLoaded 3])"
    using race[of 1 "[CloseLoaded 3, CloseStart]" 3] by (simp add: state_defs)
  moreover have "race_step (3, [CloseLoaded 3, CloseLoaded 3]) (inactive, [CloseReturned (Ok ()), CloseLoaded 3])"
    using race[of 0 "[CloseLoaded 3, CloseLoaded 3]" 3] by (simp add: state_defs)
  ultimately have "race_step\<^sup>*\<^sup>* (readWriteMode, [CloseStart, CloseStart]) (inactive, [CloseReturned (Ok ()), CloseLoaded 3])"
    by (simp add: readWriteMode_def)
  from close_succeeds_at_most_once[OF _ this] show ?thesis by (simp add: race_init_def)
qed

text \<open>
  \<^verbatim>\<open>Close\<close> can fail on an open channel. When \<^verbatim>\<open>CloseReader\<close> changes the state between the load and
  the compare-and-swap of \<^verbatim>\<open>Close\<close>, \<^verbatim>\<open>Close\<close> reports that the channel has been closed, while it is still
  open for writing and nobody is going to close it.
\<close>

theorem close_fails_spuriously:
  "\<exists>s'. race_step\<^sup>*\<^sup>* (readWriteMode, [CloseStart, BitStart RBit]) s' \<and>
     s' = (writeable, [CloseReturned (Err ErrChannelClosed), BitReturned])"
proof -
  have "race_step (3, [CloseStart, BitStart RBit]) (3, [CloseLoaded 3, BitStart RBit])"
    using race[of 0 "[CloseStart, BitStart RBit]" 3] by (simp add: state_defs)
  moreover have "race_step (3, [CloseLoaded 3, BitStart RBit]) (3, [CloseLoaded 3, BitLoaded RBit 3])"
    using race[of 1 "[CloseLoaded 3, BitStart RBit]" 3] by (simp add: state_defs)
  moreover have "race_step (3, [CloseLoaded 3, BitLoaded RBit 3]) (2, [CloseLoaded 3, BitReturned])"
    using race[of 1 "[CloseLoaded 3, BitLoaded RBit 3]" 3] by (simp add: state_defs)
  moreover have "race_step (2, [CloseLoaded 3, BitReturned]) (2, [CloseReturned (Err ErrChannelClosed), BitReturned])"
    using race[of 0 "[CloseLoaded 3, BitReturned]" 2] by (simp add: state_defs)
  ultimately show ?thesis by (simp add: state_defs)
qed

section \<open>Termination\<close>

text \<open>
  How far a goroutine is from its end: a stale load costs another round.
\<close>

fun remaining :: "uint32 \<Rightarrow> caller \<Rightarrow> nat" where
  "remaining w CloseStart = 2"
| "remaining w (CloseLoaded _) = 1"
| "remaining w (BitStart _) = 2"
| "remaining w (BitLoaded _ old) = (if w = old then 1 else 3)"
| "remaining w _ = 0"

definition work :: "uint32 \<times> caller list \<Rightarrow> nat" where
  "work s = sum_list (map (remaining (fst s)) (snd s))"

lemma less_bits:
  assumes "w' AND NOT w = 0" and "w' \<noteq> w"
  shows "w' < (w :: uint32)"
proof -
  have "w' AND w = w'"
  proof (rule bit_word_eqI)
    fix n assume n: "n < LENGTH(32)"
    have "bit (w' AND NOT w) n = bit (0 :: uint32) n" using assms(1) by simp
    then show "bit (w' AND w) n = bit w' n" using n by (auto simp: bit_simps)
  qed
  then have "w' \<le> w" by (metis word_and_le1)
  with assms(2) show ?thesis by simp
qed

lemma caller_step_remaining:
  assumes "caller_step t w = (t', w)" and "\<not> returned t" and "caller_ok t"
  shows "remaining w t' < remaining w t"
proof -
  have "w XOR bit_of b \<noteq> w" for b by (metis bit_of_nonzero xor_self_eq bit.xor_left_self)
  with assms show ?thesis by (cases t) (auto simp: state_defs split: if_splits)
qed

lemma race_step_measure:
  assumes "race_step s s'" and "race_inv s"
  shows "(s', s) \<in> measures [\<lambda>s. unat (fst s), work]"
proof -
  from assms(1) obtain i ts w t w' where s: "s = (w, ts)" "s' = (w', ts[i := t])" "i < length ts"
      "\<not> returned (ts ! i)" "caller_step (ts ! i) w = (t, w')" by (rule race_stepE)
  have ok: "caller_ok (ts ! i)" using assms(2) s by (simp add: race_inv_def list_all_length)
  have "w' < w \<or> w' = w" using less_bits[OF caller_step_ok(4)[OF s(5) ok s(4)]] by blast
  moreover have "work s' < work s" if "w' = w"
  proof -
    have ts: "ts = take i ts @ ts ! i # drop (Suc i) ts" using s(3) by (rule id_take_nth_drop)
    have "remaining w t < remaining w (ts ! i)"
      using caller_step_remaining[OF _ s(4) ok] s(5) that by simp
    then have "sum_list (map (remaining w) (take i ts @ t # drop (Suc i) ts)) <
        sum_list (map (remaining w) (take i ts @ ts ! i # drop (Suc i) ts))"
      by simp
    then show ?thesis
      using s that ts by (simp add: work_def upd_conv_take_nth_drop)
  qed
  ultimately show ?thesis using s by (auto simp: word_less_nat_alt)
qed

text \<open>
  C17: the loops of \<^verbatim>\<open>close\<close> end. However the goroutines are scheduled, there is no infinite sequence
  of steps: a compare-and-swap only fails when another one succeeded, which clears a bit.
\<close>

theorem close_loops_terminate:
  assumes "race_init (f 0)"
  shows "\<exists>n. \<not> race_step (f n) (f (Suc n))"
proof (rule ccontr)
  assume "\<not> ?thesis"
  then have st: "race_step (f n) (f (Suc n))" for n by blast
  have inv: "race_inv (f n)" for n
    by (induction n) (use race_init_inv[OF assms] race_inv_step[OF st] in auto)
  have "(f (Suc n), f n) \<in> measures [\<lambda>s. unat (fst s), work]" for n
    using race_step_measure[OF st inv] .
  moreover have "wf (measures [\<lambda>s :: uint32 \<times> caller list. unat (fst s), work])" by simp
  ultimately show False by (meson wf_iff_no_infinite_down_chain)
qed

theorem close_loops_terminate_witness:
  "\<exists>n. \<not> race_step ((\<lambda>_. (readWriteMode, [BitStart RBit, BitStart WBit])) n)
     ((\<lambda>_. (readWriteMode, [BitStart RBit, BitStart WBit])) (Suc n))"
  by (rule close_loops_terminate) (simp add: race_init_def)

section \<open>What the bits allow\<close>

text \<open>
  The writer of a channel is guarded by the wrong bit. After \<^verbatim>\<open>CloseReader\<close> alone nothing can be
  written any more, although \<^verbatim>\<open>Writeable\<close> still says yes; after \<^verbatim>\<open>CloseWriter\<close> alone \<^verbatim>\<open>Write\<close> is refused
  but the writer that \<^verbatim>\<open>WriteDirectly\<close> uses is still handed out.
\<close>

theorem writer_guarded_by_reader_bit:
  assumes "ch_state (chans s c) = readWriteMode"
  shows "Writeable (chans (upd_ch c CloseReader s) c) \<and>
    channel_Writer c (upd_ch c CloseReader s) = Err ErrChannelWriterClosed \<and>
    channel_Write mw oh c m (upd_ch c CloseWriter s) = (Err ErrChannelWriterClosed, upd_ch c CloseWriter s) \<and>
    channel_Writer c (upd_ch c CloseWriter s) = Ok (connection_Writer (c_world (conns s (ch_conn (chans s c)))))"
proof -
  have r: "chans (upd_ch c CloseReader s) c = (chans s c)\<lparr>ch_state := 2\<rparr>"
    and w: "chans (upd_ch c CloseWriter s) c = (chans s c)\<lparr>ch_state := 1\<rparr>"
    using assms by (simp_all add: upd_ch_def CloseReader_def CloseWriter_def channel_close_def state_defs)
  have "conns (upd_ch c CloseWriter s) = conns s" by (simp add: upd_ch_def)
  then show ?thesis
    by (simp add: Writeable_def channel_Writer_def channel_Write_def calState_def r w)
      (simp add: state_defs)
qed

theorem writer_guarded_by_reader_bit_witness:
  "Writeable (chans (upd_ch 0 CloseReader sys0) 0) \<and>
    channel_Writer 0 (upd_ch 0 CloseReader sys0) = Err ErrChannelWriterClosed \<and>
    channel_Write (\<lambda>_ h. h) (\<lambda>_ _ _ _ s. (Ok (), s)) 0 NilMsg (upd_ch 0 CloseWriter sys0) =
      (Err ErrChannelWriterClosed, upd_ch 0 CloseWriter sys0) \<and>
    channel_Writer 0 (upd_ch 0 CloseWriter sys0) = Ok (connection_Writer (c_world conn0))"
  using writer_guarded_by_reader_bit[of sys0 0 "\<lambda>_ h. h" "\<lambda>_ _ _ _ s. (Ok (), s)" NilMsg]
  by (simp add: sys0_defs)

section \<open>Pipelines that are used again\<close>

text \<open>
  C36: a closed channel still holds its pipeline. Once the pipeline is back in the pool, a message of
  the closed channel that is still on its way runs into a nil channel; and once a new channel has
  taken the pipeline from the pool, that message is handled as a message of the new channel, with
  the new channel's context and middlewares.
\<close>

theorem released_pipeline_misroutes:
  assumes "close_finish c s = (Ok (), s1)" and "c < nextCh s"
    and "NewChannel con sd (Some (ch_pl (chans s c))) s1 = (Ok d, s2)"
  shows "TriggerInbound mw m c s1 = (Panic NilDereference, s1) \<and>
    d \<noteq> c \<and> TriggerInbound mw m c s2 = TriggerInbound mw m d s2"
proof -
  have s1: "ch_pl (chans s1 c) = ch_pl (chans s c)" "pl_ch (pls s1 (ch_pl (chans s c))) = None" "nextCh s1 = nextCh s"
    using assms(1) by (auto simp: close_finish_def Let_def pipeline_Release_def upd_ch_def upd_pl_def split: if_splits)
  have d: "d = nextCh s" "ch_pl (chans s2 d) = ch_pl (chans s c)" "ch_pl (chans s2 c) = ch_pl (chans s c)"
    using assms(2,3) s1(1,3)
    by (auto simp: NewChannel_def Let_def pipeline_factory_def pool_Get_def upd_ch_def upd_pl_def split: if_splits)
  show ?thesis using s1 d assms(2) by (simp add: TriggerInbound_def FireInbound_def Let_def)
qed

theorem released_pipeline_misroutes_witness:
  "\<exists>s1 s2. close_finish 0 sys0 = (Ok (), s1) \<and> NewChannel 7 Server (Some 0) s1 = (Ok 1, s2) \<and>
     TriggerInbound (\<lambda>_ h. h) (StringMsg []) 0 s2 = TriggerInbound (\<lambda>_ h. h) (StringMsg []) 1 s2"
proof -
  obtain s1 where c: "close_finish 0 sys0 = (Ok (), s1)" and p: "pool s1 = [0]" "nextCh s1 = 1"
    by (simp add: close_finish_def Let_def sys0_defs pipeline_Release_def upd_ch_def upd_pl_def)
  have "\<exists>s2. NewChannel 7 Server (Some (ch_pl (chans sys0 0))) s1 = (Ok 1, s2)"
    using p by (simp add: NewChannel_def Let_def pipeline_factory_def pool_Get_def sys0_defs)
  then obtain s2 where n: "NewChannel 7 Server (Some (ch_pl (chans sys0 0))) s1 = (Ok 1, s2)" ..
  have "0 < nextCh sys0" and "ch_pl (chans sys0 0) = 0" by (simp_all add: sys0_defs)
  with released_pipeline_misroutes[OF c _ n] c n show ?thesis by metis
qed

end
