(* ===== verification/ChannelLife.thy ===== *)
theory ChannelLife
  imports ChannelProps
begin

text \<open>
  The life of channels under interleaving: tasks that begin, end or panic, calls of \<^verbatim>\<open>Close\<close>, and the
  goroutines of \<^verbatim>\<open>Close\<close> and of the idle watch, in any order.
\<close>

section \<open>Steps\<close>

text \<open>
  The handlers that are running: \<open>(c, e)\<close> stands for a handler between the two halves of
  \<^verbatim>\<open>Recorder(e)\<close> on channel \<open>c\<close>; \<open>leaked\<close> are those that ended with a panic.
\<close>

record 's life =
  lsys :: 's
  inflight :: "(chid \<times> nat) list"
  leaked :: "(chid \<times> nat) list"

definition drop_task :: "'v task \<Rightarrow> ('v, 'z) chan_sys_scheme \<Rightarrow> ('v, 'z) chan_sys_scheme" where
  "drop_task x s = s\<lparr>tasks := remove1 x (tasks s)\<rparr>"

inductive life_step ::
    "(closedHook \<Rightarrow> ctx \<Rightarrow> chid \<Rightarrow> go_error option \<Rightarrow> ('v, 'z) chan_sys_scheme \<Rightarrow> unit outcome \<times> ('v, 'z) chan_sys_scheme) \<Rightarrow>
     ('v, 'z) chan_sys_scheme life \<Rightarrow> ('v, 'z) chan_sys_scheme life \<Rightarrow> bool"
  for hook where
  begin_task: "e \<in> {ReadEvent, WriteEvent} \<Longrightarrow>
    life_step hook l (l\<lparr>lsys := Recorder_enter e c (lsys l), inflight := (c, e) # inflight l\<rparr>)"
| end_task: "(c, e) \<in> set (inflight l) \<Longrightarrow> out = Ok () \<or> out = Err er \<Longrightarrow> Recorder_leave e c out (lsys l) = (out', s') \<Longrightarrow>
    life_step hook l (l\<lparr>lsys := s', inflight := remove1 (c, e) (inflight l)\<rparr>)"
| panic_task: "(c, e) \<in> set (inflight l) \<Longrightarrow> Recorder_leave e c (Panic p) (lsys l) = (out', s') \<Longrightarrow>
    life_step hook l (l\<lparr>lsys := s', inflight := remove1 (c, e) (inflight l), leaked := (c, e) # leaked l\<rparr>)"
| call_Close: "channel_Close x err c (lsys l) = (out, s') \<Longrightarrow> life_step hook l (l\<lparr>lsys := s'\<rparr>)"
| call_CloseReader: "life_step hook l (l\<lparr>lsys := upd_ch c CloseReader (lsys l)\<rparr>)"
| call_CloseWriter: "life_step hook l (l\<lparr>lsys := upd_ch c CloseWriter (lsys l)\<rparr>)"
| reads_done: "CloseWaitRead c x err \<in> set (tasks (lsys l)) \<Longrightarrow> WaitReadTask (ch_tasks (chans (lsys l) c)) \<Longrightarrow>
    close_hooks hook c x err (drop_task (CloseWaitRead c x err) (lsys l)) = (out, s') \<Longrightarrow>
    life_step hook l (l\<lparr>lsys := s'\<rparr>)"
| writes_done: "CloseWaitWrite c x \<in> set (tasks (lsys l)) \<Longrightarrow>
    WaitWriteTask (ch_tasks (chans (lsys l) c)) \<or> ctxDone (lsys l) x \<Longrightarrow>
    close_finish c (drop_task (CloseWaitWrite c x) (lsys l)) = (out, s') \<Longrightarrow>
    life_step hook l (l\<lparr>lsys := s'\<rparr>)"
| idle_wait: "IdleWait c \<in> set (tasks (lsys l)) \<Longrightarrow> WaitGroup_Wait (ch_tasks (chans (lsys l) c)) \<Longrightarrow>
    life_step hook l (l\<lparr>lsys := Submit (IdleFin c) (drop_task (IdleWait c) (lsys l))\<rparr>)"
| idle_fin: "IdleFin c \<in> set (tasks (lsys l)) \<Longrightarrow>
    life_step hook l (l\<lparr>lsys := upd_ch c (\<lambda>ch. ch\<lparr>ch_idle := Some (clock (lsys l))\<rparr>) (drop_task (IdleFin c) (lsys l))\<rparr>)"
| idle_done: "x = IdleWait c \<or> x = IdleFin c \<Longrightarrow> x \<in> set (tasks (lsys l)) \<Longrightarrow> ch_done (chans (lsys l) c) \<Longrightarrow>
    life_step hook l (l\<lparr>lsys := drop_task x (lsys l)\<rparr>)"
| time_passes: "clock (lsys l) \<le> n \<Longrightarrow> life_step hook l (l\<lparr>lsys := (lsys l)\<lparr>clock := n\<rparr>\<rparr>)"
| ctx_ends: "life_step hook l (l\<lparr>lsys := (lsys l)\<lparr>ctxDone := (ctxDone (lsys l))(x := True)\<rparr>\<rparr>)"

section \<open>Invariant\<close>

fun is_closer :: "chid \<Rightarrow> 'v task \<Rightarrow> bool" where
  "is_closer c (CloseWaitRead d x err) = (d = c)"
| "is_closer c (CloseWaitWrite d x) = (d = c)"
| "is_closer c _ = False"

definition closers :: "chid \<Rightarrow> ('v, 'z) chan_sys_scheme \<Rightarrow> nat" where
  "closers c s = length (filter (is_closer c) (tasks s))"

definition linked_pl :: "('v, 'z) chan_sys_scheme \<Rightarrow> bool" where
  "linked_pl s \<longleftrightarrow> (\<forall>c. \<not> ch_done (chans s c) \<longrightarrow> pl_ch (pls s (ch_pl (chans s c))) = Some c)"

text \<open>The counters are right for a list of handlers that have begun and not been counted down.\<close>

definition counted :: "(chid \<times> nat) list \<Rightarrow> chid \<Rightarrow> WaitGroup \<Rightarrow> bool" where
  "counted hs c wg \<longleftrightarrow>
     readTask wg = int (count_list hs (c, ReadEvent)) \<and> writeTask wg = int (count_list hs (c, WriteEvent)) \<and>
     allTask wg = int (count_list hs (c, ReadEvent) + count_list hs (c, WriteEvent))"

definition closing_ok :: "('v, 'z) chan_sys_scheme \<Rightarrow> bool" where
  "closing_ok s \<longleftrightarrow>
     (\<forall>c. closers c s + of_bool (ch_done (chans s c)) \<le> 1 \<and>
        (0 < closers c s + of_bool (ch_done (chans s c)) \<longrightarrow> ch_state (chans s c) = inactive))"

definition life_inv :: "('v, 'z) chan_sys_scheme life \<Rightarrow> bool" where
  "life_inv l \<longleftrightarrow>
     snd ` set (inflight l) \<subseteq> {ReadEvent, WriteEvent} \<and>
     (\<forall>c. counted (inflight l @ leaked l) c (ch_tasks (chans (lsys l) c))) \<and>
     closing_ok (lsys l) \<and> linked_pl (lsys l)"

text \<open>
  At the start there are channels that are open and linked to their pipelines; addresses without a
  channel count as closed. No handler is running.
\<close>

definition life_init :: "('v, 'z) chan_sys_scheme life \<Rightarrow> bool" where
  "life_init l \<longleftrightarrow>
     inflight l = [] \<and> leaked l = [] \<and> (\<forall>c. closers c (lsys l) = 0) \<and>
     (\<forall>c. ch_tasks (chans (lsys l) c) = NewWaitGroup \<and>
       (ch_done (chans (lsys l) c) \<longrightarrow> ch_state (chans (lsys l) c) = inactive)) \<and> linked_pl (lsys l)"

lemma life_init_inv: "life_init l \<Longrightarrow> life_inv l"
  by (auto simp: life_init_def life_inv_def counted_def NewWaitGroup_def closing_ok_def)

section \<open>Effect of the operations\<close>

lemma upd_ch_simps [simp]:
  "chans (upd_ch c f s) d = (if d = c then f (chans s c) else chans s d)"
  "tasks (upd_ch c f s) = tasks s" "pls (upd_ch c f s) = pls s" "clock (upd_ch c f s) = clock s"
  "pool (upd_ch c f s) = pool s" "nextCh (upd_ch c f s) = nextCh s"
  "conns (upd_ch c f s) = conns s" "ctxDone (upd_ch c f s) = ctxDone s" "closers k (upd_ch c f s) = closers k s"
  by (simp_all add: upd_ch_def closers_def)

lemma Submit_simps [simp]:
  "chans (Submit x s) = chans s" "pls (Submit x s) = pls s" "tasks (Submit x s) = tasks s @ [x]"
  "conns (Submit x s) = conns s" "clock (Submit x s) = clock s" "ctxDone (Submit x s) = ctxDone s"
  "pool (Submit x s) = pool s" "nextCh (Submit x s) = nextCh s"
  "closers k (Submit x s) = closers k s + of_bool (is_closer k x)"
  by (simp_all add: Submit_def closers_def)

lemma drop_task_simps [simp]: "chans (drop_task x s) = chans s" "pls (drop_task x s) = pls s"
  by (simp_all add: drop_task_def)

lemma length_filter_remove1: "x \<in> set xs \<Longrightarrow> length (filter P xs) = length (filter P (remove1 x xs)) + of_bool (P x)"
  by (induction xs) auto

lemma closers_drop: "x \<in> set (tasks s) \<Longrightarrow> closers k s = closers k (drop_task x s) + of_bool (is_closer k x)"
  by (simp add: closers_def drop_task_def length_filter_remove1)

text \<open>The part of the state the invariant speaks of.\<close>

definition same_life :: "('v, 'z) chan_sys_scheme \<Rightarrow> ('v, 'z) chan_sys_scheme \<Rightarrow> bool" where
  "same_life s s' \<longleftrightarrow> pls s' = pls s \<and> (\<forall>c. closers c s' = closers c s \<and> ch_state (chans s' c) = ch_state (chans s c) \<and>
     ch_done (chans s' c) = ch_done (chans s c) \<and> ch_pl (chans s' c) = ch_pl (chans s c))"

lemma closing_okD:
  assumes "closing_ok s"
  shows "closers c s + of_bool (ch_done (chans s c)) \<le> 1"
    and "0 < closers c s \<Longrightarrow> ch_state (chans s c) = inactive" and "ch_done (chans s c) \<Longrightarrow> ch_state (chans s c) = inactive"
  using assms by (simp_all add: closing_ok_def)

lemma closing_okI:
  assumes "\<And>c. closers c s + of_bool (ch_done (chans s c)) \<le> 1"
    and "\<And>c. 0 < closers c s \<Longrightarrow> ch_state (chans s c) = inactive"
    and "\<And>c. ch_done (chans s c) \<Longrightarrow> ch_state (chans s c) = inactive"
  shows "closing_ok s"
  unfolding closing_ok_def using assms by (metis add_cancel_right_left neq0_conv of_bool_eq_0_iff)

lemma same_life_ok: "same_life s s' \<Longrightarrow> closing_ok s \<Longrightarrow> closing_ok s'"
  "same_life s s' \<Longrightarrow> linked_pl s \<Longrightarrow> linked_pl s'"
  by (simp_all add: same_life_def closing_ok_def linked_pl_def)

lemma addTask_life:
  "same_life s (addTask e c s)"
  "ch_tasks (chans (addTask e c s) d) = (if d = c then WaitGroup_Add e (ch_tasks (chans s c)) else ch_tasks (chans s d))"
  by (auto simp: addTask_def Let_def same_life_def)

lemma tasks_Done_life:
  "tasks_Done e c s = (out, s') \<Longrightarrow> same_life s s' \<and>
   ch_tasks (chans s' d) = (if d = c then snd (WaitGroup_Done e (ch_tasks (chans s c))) else ch_tasks (chans s d))"
  by (auto simp: tasks_Done_def same_life_def split: prod.splits if_splits)

text \<open>A handler that returns is counted down, one that panics is not.\<close>

lemma Recorder_leave_returns:
  assumes "Recorder_leave e c out s = (out', s')" and "out = Ok () \<or> out = Err er"
  shows "\<exists>o1. tasks_Done e c s = (o1, s')"
proof -
  obtain o1 s1 where d: "tasks_Done e c s = (o1, s1)" by fastforce
  with assms show ?thesis by (cases o1) (auto simp: Recorder_leave_def)
qed

lemma Recorder_leave_panics [simp]: "Recorder_leave e c (Panic p) s = (Panic p, s)"
  by (simp add: Recorder_leave_def)

lemmas enter_life = addTask_life[folded Recorder_enter_def]

lemma events_distinct [simp]: "ReadEvent \<noteq> WriteEvent" "WriteEvent \<noteq> ReadEvent"
  by (simp_all add: ReadEvent_def WriteEvent_def)

lemma counted_Add:
  assumes "counted hs c wg" and "e \<in> {ReadEvent, WriteEvent}"
  shows "counted ((c, e) # hs) c (WaitGroup_Add e wg)"
  using assms by (auto simp: counted_def WaitGroup_Add_def)

lemma count_remove1: "x \<in> set xs \<Longrightarrow> count_list xs y = count_list (remove1 x xs) y + of_bool (x = y)"
  by (induction xs) auto

lemma counted_Done:
  assumes "counted (hs @ ls) c wg" and e: "e \<in> {ReadEvent, WriteEvent}" and "(c, e) \<in> set hs"
  shows "counted (remove1 (c, e) hs @ ls) c (snd (WaitGroup_Done e wg))" and "fst (WaitGroup_Done e wg) = Ok ()"
proof -
  let ?n = "count_list hs" and ?m = "count_list (remove1 (c, e) hs)" and ?l = "count_list ls"
  have r: "?n (c, ReadEvent) = ?m (c, ReadEvent) + of_bool (e = ReadEvent)"
    and w: "?n (c, WriteEvent) = ?m (c, WriteEvent) + of_bool (e = WriteEvent)"
    using count_remove1[OF assms(3), of "(c, ReadEvent)"] count_remove1[OF assms(3), of "(c, WriteEvent)"]
    by (simp_all del: count_list_remove1)
  have wg: "readTask wg = int (?m (c, ReadEvent) + of_bool (e = ReadEvent) + ?l (c, ReadEvent))"
    "writeTask wg = int (?m (c, WriteEvent) + of_bool (e = WriteEvent) + ?l (c, WriteEvent))"
    "allTask wg = int (?m (c, ReadEvent) + of_bool (e = ReadEvent) + ?l (c, ReadEvent) +
      (?m (c, WriteEvent) + of_bool (e = WriteEvent) + ?l (c, WriteEvent)))"
    using assms(1) r w by (simp_all add: counted_def del: count_list_remove1)
  consider "e = ReadEvent" | "e = WriteEvent" using e by blast
  then show "fst (WaitGroup_Done e wg) = Ok ()" "counted (remove1 (c, e) hs @ ls) c (snd (WaitGroup_Done e wg))"
    by (cases; simp add: counted_def WaitGroup_Done_def counter_Done_def wg del: count_list_remove1)+
qed

lemma counted_other: "counted hs c wg \<Longrightarrow> d \<noteq> c \<Longrightarrow> counted ((d, e) # hs) c wg"
  by (simp add: counted_def)

lemma counted_remove_other:
  assumes "counted (hs @ ls) c wg" and "d \<noteq> c" and "(d, e) \<in> set hs"
  shows "counted (remove1 (d, e) hs @ ls) c wg"
proof -
  have "count_list (remove1 (d, e) hs) (c, k) = count_list hs (c, k)" for k
    using count_remove1[OF assms(3), of "(c, k)"] assms(2) by simp
  with assms(1) show ?thesis by (simp add: counted_def)
qed

lemma channel_Close_cases:
  assumes "channel_Close x err c s = (out, s')"
  shows "ch_state (chans s c) = inactive \<and> s' = s \<or>
    ch_state (chans s c) \<noteq> inactive \<and> s' = Submit (CloseWaitRead c x err) (upd_ch c (\<lambda>ch. ch\<lparr>ch_state := inactive\<rparr>) s)"
proof -
  have "upd_ch c (channel_close inactive) (upd_ch c (\<lambda>ch. ch\<lparr>ch_state := inactive\<rparr>) s) =
      upd_ch c (\<lambda>ch. ch\<lparr>ch_state := inactive\<rparr>) s"
    by (simp add: upd_ch_def channel_close_def inactive_def)
  with assms show ?thesis by (auto simp: channel_Close_def Let_def split: if_splits)
qed

lemma channel_Close_life:
  assumes "channel_Close x err c s = (out, s')" and "closing_ok s"
  shows "closing_ok s'" and "linked_pl s \<Longrightarrow> linked_pl s'" and "ch_tasks (chans s' d) = ch_tasks (chans s d)"
proof -
  let ?t = "Submit (CloseWaitRead c x err) (upd_ch c (\<lambda>ch. ch\<lparr>ch_state := inactive\<rparr>) s)"
  consider "s' = s" | "ch_state (chans s c) \<noteq> inactive" "s' = ?t"
    using channel_Close_cases[OF assms(1)] by blast
  then show "closing_ok s'"
  proof cases
    case 2
    have "closers c s + of_bool (ch_done (chans s c)) = 0" using assms(2) 2(1) by (auto simp: closing_ok_def)
    with assms(2) show ?thesis unfolding 2(2) closing_ok_def by simp
  qed (use assms(2) in simp)
  show "linked_pl s \<Longrightarrow> linked_pl s'" "ch_tasks (chans s' d) = ch_tasks (chans s d)"
    using channel_Close_cases[OF assms(1)] by (auto simp: linked_pl_def)
qed

lemma channel_close_life:
  assumes "closing_ok s"
  shows "closing_ok (upd_ch c (channel_close (bit_of b)) s)"
    and "linked_pl s \<Longrightarrow> linked_pl (upd_ch c (channel_close (bit_of b)) s)"
    and "ch_tasks (chans (upd_ch c (channel_close (bit_of b)) s) d) = ch_tasks (chans s d)"
proof -
  have "ch_state (channel_close (bit_of b) ch) = inactive" if "ch_state ch = inactive" for ch
    using that by (cases b) (simp_all add: channel_close_def state_defs)
  moreover have "ch_done (channel_close (bit_of b) ch) = ch_done ch" "ch_pl (channel_close (bit_of b) ch) = ch_pl ch"
      "ch_tasks (channel_close (bit_of b) ch) = ch_tasks ch" for ch
    by (simp_all add: channel_close_def)
  ultimately show "closing_ok (upd_ch c (channel_close (bit_of b)) s)"
      "linked_pl s \<Longrightarrow> linked_pl (upd_ch c (channel_close (bit_of b)) s)"
      "ch_tasks (chans (upd_ch c (channel_close (bit_of b)) s) d) = ch_tasks (chans s d)"
    using assms by (auto simp: closing_ok_def linked_pl_def)
qed

lemma closing_ok_drop:
  assumes "closing_ok s" and "x \<in> set (tasks s)"
  shows "closing_ok (drop_task x s)"
proof (rule closing_okI)
  fix k
  have le: "closers k (drop_task x s) \<le> closers k s" using closers_drop[OF assms(2), of k] by simp
  then show "closers k (drop_task x s) + of_bool (ch_done (chans (drop_task x s) k)) \<le> 1"
    using closing_okD(1)[OF assms(1), of k] by simp
  show "ch_state (chans (drop_task x s) k) = inactive" if "0 < closers k (drop_task x s)"
    using closing_okD(2)[OF assms(1), of k] that le by simp
qed (use closing_okD(3)[OF assms(1)] in simp)

text \<open>The end of the goroutine of \<open>Close\<close>: \<open>s\<close> is the state after its task was taken.\<close>

lemma close_finish_life:
  assumes "close_finish c s = (out, s')" and "closing_ok s" and "linked_pl s"
    and "ch_state (chans s c) = inactive" and "closers c s = 0" and "\<not> ch_done (chans s c)"
  shows "out = Ok ()" and "closing_ok s'" and "linked_pl s'" and "ch_tasks (chans s' d) = ch_tasks (chans s d)"
    and "ch_done (chans s' d) = (d = c \<or> ch_done (chans s d))" and "tasks s' = tasks s"
proof -
  let ?s1 = "upd_ch c (\<lambda>ch. ch\<lparr>ch_done := True\<rparr>) s"
  have s': "out = Ok ()" "chans s' = chans ?s1" "tasks s' = tasks s"
      "pls s' = (pls s)(ch_pl (chans s c) := (pls s (ch_pl (chans s c)))\<lparr>pl_ch := None, chocc := [], chIn := [], chOut := []\<rparr>)"
    using assms(1,6) by (auto simp: close_finish_def Let_def pipeline_Release_def upd_pl_def)
  then show "out = Ok ()" "ch_tasks (chans s' d) = ch_tasks (chans s d)"
      "ch_done (chans s' d) = (d = c \<or> ch_done (chans s d))" "tasks s' = tasks s" by simp_all
  show "closing_ok s'" using assms(2,4,5) s' by (auto simp: closing_ok_def closers_def)
  show "linked_pl s'"
    unfolding linked_pl_def
  proof (intro allI impI)
    fix k assume k: "\<not> ch_done (chans s' k)"
    then have "k \<noteq> c" "\<not> ch_done (chans s k)" using s' by (auto split: if_splits)
    with assms(3,6) have "pl_ch (pls s (ch_pl (chans s k))) = Some k" "pl_ch (pls s (ch_pl (chans s c))) = Some c"
      by (simp_all add: linked_pl_def)
    then have "ch_pl (chans s k) \<noteq> ch_pl (chans s c)" using \<open>k \<noteq> c\<close> by auto
    with \<open>pl_ch (pls s (ch_pl (chans s k))) = Some k\<close> \<open>k \<noteq> c\<close> show "pl_ch (pls s' (ch_pl (chans s' k))) = Some k"
      using s' by simp
  qed
qed

text \<open>
  A handler of an inbound message that panicked is never counted down: the goroutine of \<open>Close\<close>
  does not pass its first stage any more.
\<close>

definition stuck :: "chid \<Rightarrow> ('v, 'z) chan_sys_scheme life \<Rightarrow> bool" where
  "stuck c l \<longleftrightarrow> (c, ReadEvent) \<in> set (leaked l) \<and> \<not> ch_done (chans (lsys l) c) \<and>
     (\<forall>x. CloseWaitWrite c x \<notin> set (tasks (lsys l)))"

section \<open>The interface to the hooks\<close>

text \<open>
  What closing relies on: a hook that is called for a closed channel leaves the channels, their
  pipelines and the goroutines alone.
\<close>

locale closing_hooks =
  fixes hook :: "closedHook \<Rightarrow> ctx \<Rightarrow> chid \<Rightarrow> go_error option \<Rightarrow> ('v, 'z) chan_sys_scheme \<Rightarrow>
      unit outcome \<times> ('v, 'z) chan_sys_scheme"
  assumes hook_frame: "ch_state (chans s c) = inactive \<Longrightarrow> hook h x c err s = (out, s') \<Longrightarrow>
      chans s' = chans s \<and> tasks s' = tasks s \<and> pls s' = pls s"
begin

lemma fire_frame:
  "fire_onChannelClosed hook hs c err s = (out, s') \<Longrightarrow> ch_state (chans s c) = inactive \<Longrightarrow>
   chans s' = chans s \<and> tasks s' = tasks s \<and> pls s' = pls s"
proof (induction hs arbitrary: s)
  case (Cons h hs)
  obtain o1 s1 where h: "hook h (ch_ctx (chans s c)) c err s = (o1, s1)" by fastforce
  note f = hook_frame[OF Cons.prems(2) h]
  show ?case
  proof (cases o1)
    case (Ok a)
    with Cons.prems(1) h have "fire_onChannelClosed hook hs c err s1 = (out, s')" by simp
    from Cons.IH[OF this] f Cons.prems(2) show ?thesis by simp
  qed (use Cons.prems(1) h f in simp_all)
qed simp

lemma FireOnChannelClosed_frame:
  assumes "FireOnChannelClosed hook p err s = (out, s')" and "pl_ch (pls s p) = Some c"
    and "ch_state (chans s c) = inactive"
  shows "chans s' = chans s \<and> tasks s' = tasks s \<and> pls s' = pls s"
  using assms fire_frame by (simp add: FireOnChannelClosed_def Let_def)

lemma frame_life:
  assumes "chans s' = chans s \<and> tasks s' = tasks s \<and> pls s' = pls s"
  shows "closing_ok s \<Longrightarrow> closing_ok s'" and "linked_pl s \<Longrightarrow> linked_pl s'" and "closers c s' = closers c s"
  using assms by (simp_all add: closing_ok_def linked_pl_def closers_def)

text \<open>The first stage of the goroutine of \<open>Close\<close>.\<close>

lemma close_hooks_life:
  assumes "close_hooks hook c x err s = (out, s')" and "closing_ok s" and "linked_pl s"
    and st: "ch_state (chans s c) = inactive" "closers c s = 0" "\<not> ch_done (chans s c)"
  shows "closing_ok s'" and "linked_pl s'" and "ch_tasks (chans s' d) = ch_tasks (chans s d)"
    and "d \<noteq> c \<Longrightarrow> ch_done (chans s' d) = ch_done (chans s d)"
    and "set (tasks s') \<subseteq> insert (CloseWaitWrite c x) (set (tasks s))"
proof -
  let ?f = "FireOnChannelClosed hook (ch_pl (chans s c)) err s"
  obtain o1 s1 where f: "?f = (o1, s1)" by fastforce
  have "pl_ch (pls s (ch_pl (chans s c))) = Some c" using assms(3) st(3) by (simp add: linked_pl_def)
  note fr = FireOnChannelClosed_frame[OF f this st(1)]
  note fl = frame_life[OF fr]
  have s1: "closing_ok s1" "linked_pl s1" "ch_state (chans s1 c) = inactive" "closers c s1 = 0"
      "\<not> ch_done (chans s1 c)" using fl assms fr by simp_all
  obtain o2 s2 where e: "close_finish c s1 = (o2, s2)" by fastforce
  note fin = close_finish_life[OF e s1]
  have "s' = s1 \<or> s' = s2 \<or> s' = Submit (CloseWaitWrite c x) s1"
    using assms(1) f e fin(1) by (cases o1) (auto simp: close_hooks_def split: if_splits)
  moreover have "closing_ok (Submit (CloseWaitWrite c x) s1)"
  proof (rule closing_okI)
    fix k
    show "closers k (Submit (CloseWaitWrite c x) s1) + of_bool (ch_done (chans (Submit (CloseWaitWrite c x) s1) k)) \<le> 1"
      using closing_okD(1)[OF s1(1), of k] s1(4,5) by (cases "c = k") simp_all
  qed (use closing_okD[OF s1(1)] s1(3) in \<open>auto split: if_splits\<close>)
  moreover have "linked_pl (Submit (CloseWaitWrite c x) s1)" using s1(2) by (simp add: linked_pl_def)
  ultimately show "closing_ok s'" "linked_pl s'" "ch_tasks (chans s' d) = ch_tasks (chans s d)"
      "d \<noteq> c \<Longrightarrow> ch_done (chans s' d) = ch_done (chans s d)"
      "set (tasks s') \<subseteq> insert (CloseWaitWrite c x) (set (tasks s))"
    using fin(2-6) fr s1(1,2) by auto
qed

lemma closer_facts:
  assumes "closing_ok s" and "x \<in> set (tasks s)" and "is_closer c x"
  shows "ch_state (chans s c) = inactive" and "\<not> ch_done (chans s c)" and "closers c (drop_task x s) = 0"
    and "closing_ok (drop_task x s)"
proof -
  have n: "closers c s = closers c (drop_task x s) + 1" using closers_drop[OF assms(2), of c] assms(3) by simp
  with closing_okD[OF assms(1), of c] show "ch_state (chans s c) = inactive" "\<not> ch_done (chans s c)"
      "closers c (drop_task x s) = 0" by simp_all
  show "closing_ok (drop_task x s)" using closing_ok_drop[OF assms(1,2)] .
qed

lemma life_inv_counted:
  assumes "life_inv l" and "closing_ok s'" and "linked_pl s'"
    and "\<And>c. ch_tasks (chans s' c) = ch_tasks (chans (lsys l) c)"
  shows "life_inv (l\<lparr>lsys := s'\<rparr>)"
  using assms by (simp add: life_inv_def)

lemma life_inv_step:
  assumes "life_step hook l l'" and inv: "life_inv l"
  shows "life_inv l'"
  using assms(1)
proof cases
  case (begin_task e c)
  have "counted ((c, e) # inflight l @ leaked l) d (ch_tasks (chans (Recorder_enter e c (lsys l)) d))" for d
    using inv begin_task(2) counted_Add[of "inflight l @ leaked l" c _ e] counted_other[of "inflight l @ leaked l" d _ c e]
    by (simp add: life_inv_def enter_life)
  with inv begin_task show ?thesis
    using same_life_ok[OF enter_life(1)[of "lsys l" e c]] by (simp add: life_inv_def)
next
  case (end_task c e out er out' s')
  obtain o1 where o1: "tasks_Done e c (lsys l) = (o1, s')" using Recorder_leave_returns[OF end_task(4,3)] by blast
  have e: "e \<in> {ReadEvent, WriteEvent}" using inv end_task(2) by (force simp: life_inv_def)
  have d: "same_life (lsys l) s'" "ch_tasks (chans s' d) = (if d = c then snd (WaitGroup_Done e (ch_tasks (chans (lsys l) c)))
      else ch_tasks (chans (lsys l) d))" for d using tasks_Done_life[OF o1] by simp_all
  have "counted (remove1 (c, e) (inflight l) @ leaked l) d (ch_tasks (chans s' d))" for d
    using inv counted_Done(1)[OF _ e end_task(2)] counted_remove_other[OF _ _ end_task(2)]
    by (simp add: life_inv_def d(2))
  moreover have "snd ` set (remove1 (c, e) (inflight l)) \<subseteq> {ReadEvent, WriteEvent}"
    using inv set_remove1_subset[of "(c, e)" "inflight l"] by (force simp: life_inv_def)
  ultimately show ?thesis
    using inv end_task(1) same_life_ok[OF d(1)] by (simp add: life_inv_def)
next
  case (panic_task c e p out' s')
  have s': "s' = lsys l" using panic_task(3) by simp
  have "count_list (remove1 (c, e) (inflight l) @ (c, e) # leaked l) y = count_list (inflight l @ leaked l) y" for y
    using count_remove1[OF panic_task(2), of y] by (simp del: count_list_remove1)
  then have "counted (remove1 (c, e) (inflight l) @ (c, e) # leaked l) d wg = counted (inflight l @ leaked l) d wg" for d wg
    by (simp only: counted_def)
  moreover have "snd ` set (remove1 (c, e) (inflight l)) \<subseteq> {ReadEvent, WriteEvent}"
    using inv set_remove1_subset[of "(c, e)" "inflight l"] by (force simp: life_inv_def)
  ultimately show ?thesis using inv panic_task(1) s' by (simp add: life_inv_def)
next
  case (call_Close x err c out s')
  have "closing_ok (lsys l)" "linked_pl (lsys l)" using inv by (simp_all add: life_inv_def)
  with channel_Close_life[OF call_Close(2)] show ?thesis
    unfolding call_Close(1) by (intro life_inv_counted[OF inv]) simp_all
next
  case (call_CloseReader c)
  have "closing_ok (lsys l)" "linked_pl (lsys l)" using inv by (simp_all add: life_inv_def)
  moreover have "CloseReader = channel_close (bit_of RBit)" by (simp add: CloseReader_def fun_eq_iff)
  ultimately show ?thesis
    unfolding call_CloseReader using channel_close_life[of "lsys l" c RBit] by (intro life_inv_counted[OF inv]) simp_all
next
  case (call_CloseWriter c)
  have "closing_ok (lsys l)" "linked_pl (lsys l)" using inv by (simp_all add: life_inv_def)
  moreover have "CloseWriter = channel_close (bit_of WBit)" by (simp add: CloseWriter_def fun_eq_iff)
  ultimately show ?thesis
    unfolding call_CloseWriter using channel_close_life[of "lsys l" c WBit] by (intro life_inv_counted[OF inv]) simp_all
next
  case (reads_done c x err out s')
  have ok: "closing_ok (lsys l)" "linked_pl (lsys l)" using inv by (simp_all add: life_inv_def)
  note f = closer_facts[OF ok(1) reads_done(2), of c, simplified]
  have "linked_pl (drop_task (CloseWaitRead c x err) (lsys l))" using ok(2) by (simp add: linked_pl_def)
  from close_hooks_life[OF reads_done(4) f(4) this] f show ?thesis
    unfolding reads_done(1) by (intro life_inv_counted[OF inv]) simp_all
next
  case (writes_done c x out s')
  have ok: "closing_ok (lsys l)" "linked_pl (lsys l)" using inv by (simp_all add: life_inv_def)
  note f = closer_facts[OF ok(1) writes_done(2), of c, simplified]
  have "linked_pl (drop_task (CloseWaitWrite c x) (lsys l))" using ok(2) by (simp add: linked_pl_def)
  from close_finish_life[OF writes_done(4) f(4) this] f show ?thesis
    unfolding writes_done(1) by (intro life_inv_counted[OF inv]) simp_all
next
  case (idle_wait c)
  have "same_life (lsys l) (Submit (IdleFin c) (drop_task (IdleWait c) (lsys l)))"
    using closers_drop[OF idle_wait(2)] by (simp add: same_life_def)
  with inv show ?thesis
    unfolding idle_wait(1) using same_life_ok by (intro life_inv_counted[OF inv]) (auto simp: life_inv_def)
next
  case (idle_fin c)
  have "same_life (lsys l) (upd_ch c (\<lambda>ch. ch\<lparr>ch_idle := Some (clock (lsys l))\<rparr>) (drop_task (IdleFin c) (lsys l)))"
    using closers_drop[OF idle_fin(2)] by (simp add: same_life_def)
  with inv show ?thesis
    unfolding idle_fin(1) using same_life_ok by (intro life_inv_counted[OF inv]) (auto simp: life_inv_def)
next
  case (idle_done x c)
  have "same_life (lsys l) (drop_task x (lsys l))"
    using closers_drop[OF idle_done(3)] idle_done(2) by (auto simp: same_life_def)
  with inv show ?thesis
    unfolding idle_done(1) using same_life_ok by (intro life_inv_counted[OF inv]) (auto simp: life_inv_def)
next
  case (time_passes n)
  have "same_life (lsys l) ((lsys l)\<lparr>clock := n\<rparr>)" by (simp add: same_life_def closers_def)
  with inv show ?thesis
    unfolding time_passes(1) using same_life_ok by (intro life_inv_counted[OF inv]) (auto simp: life_inv_def)
next
  case (ctx_ends x)
  have "same_life (lsys l) ((lsys l)\<lparr>ctxDone := (ctxDone (lsys l))(x := True)\<rparr>)" by (simp add: same_life_def closers_def)
  with inv show ?thesis
    unfolding ctx_ends using same_life_ok by (intro life_inv_counted[OF inv]) (auto simp: life_inv_def)
qed

lemma life_inv_steps: "(life_step hook)\<^sup>*\<^sup>* l l' \<Longrightarrow> life_inv l \<Longrightarrow> life_inv l'"
  by (induction rule: rtranclp_induct) (auto intro: life_inv_step)

lemma stuck_waits: "life_inv l \<Longrightarrow> stuck c l \<Longrightarrow> \<not> WaitReadTask (ch_tasks (chans (lsys l) c))"
proof -
  assume a: "life_inv l" "stuck c l"
  have "0 < count_list (leaked l) (c, ReadEvent)" using a(2) by (metis count_list_0_iff neq0_conv stuck_def)
  then show ?thesis using a(1) by (auto simp: life_inv_def counted_def WaitReadTask_def)
qed

lemma stuck_sys:
  assumes "stuck c l" and "leaked l' = leaked l" and "\<not> ch_done (chans (lsys l') c)"
    and "\<And>x. CloseWaitWrite c x \<in> set (tasks (lsys l')) \<Longrightarrow> CloseWaitWrite c x \<in> set (tasks (lsys l))"
  shows "stuck c l'"
  using assms by (auto simp: stuck_def)

lemma stuck_step:
  assumes "life_step hook l l'" and inv: "life_inv l" and st: "stuck c l"
  shows "stuck c l'"
proof -
  have nd: "\<not> ch_done (chans (lsys l) c)" "\<And>x. CloseWaitWrite c x \<notin> set (tasks (lsys l))"
    using st by (simp_all add: stuck_def)
  have ok: "closing_ok (lsys l)" "linked_pl (lsys l)" using inv by (simp_all add: life_inv_def)
  from assms(1) show ?thesis
  proof cases
    case (begin_task e d)
    with nd show ?thesis by (intro stuck_sys[OF st]) (auto simp: Recorder_enter_def addTask_def Let_def split: if_splits)
  next
    case (end_task d e out er out' s')
    obtain o1 where "tasks_Done e d (lsys l) = (o1, s')" using Recorder_leave_returns[OF end_task(4,3)] by blast
    with end_task nd show ?thesis by (intro stuck_sys[OF st]) (auto simp: tasks_Done_def split: prod.splits if_splits)
  next
    case (panic_task d e p out' s')
    with st show ?thesis by (simp add: stuck_def)
  next
    case (call_Close x err d out s')
    with channel_Close_cases[OF call_Close(2)] nd show ?thesis
      by (intro stuck_sys[OF st]) (auto split: if_splits)
  next
    case (call_CloseReader d)
    with nd show ?thesis by (intro stuck_sys[OF st]) (auto simp: CloseReader_def channel_close_def split: if_splits)
  next
    case (call_CloseWriter d)
    with nd show ?thesis by (intro stuck_sys[OF st]) (auto simp: CloseWriter_def channel_close_def split: if_splits)
  next
    case (reads_done d x err out s')
    note f = closer_facts[OF ok(1) reads_done(2), of d, simplified]
    have "linked_pl (drop_task (CloseWaitRead d x err) (lsys l))" using ok(2) by (simp add: linked_pl_def)
    note h = close_hooks_life[OF reads_done(4) f(4) this]
    have "d \<noteq> c" using stuck_waits[OF inv st] reads_done(3) by blast
    moreover have "set (tasks s') \<subseteq> insert (CloseWaitWrite d x) (set (tasks (lsys l)))"
      using h(5) f set_remove1_subset[of _ "tasks (lsys l)"] by (fastforce simp: drop_task_def)
    ultimately show ?thesis
      using h(4)[of c] f reads_done(1) nd(1) by (intro stuck_sys[OF st]) auto
  next
    case (writes_done d x out s')
    note f = closer_facts[OF ok(1) writes_done(2), of d, simplified]
    have "linked_pl (drop_task (CloseWaitWrite d x) (lsys l))" using ok(2) by (simp add: linked_pl_def)
    note h = close_finish_life[OF writes_done(4) f(4) this]
    have "d \<noteq> c" using writes_done(2) nd(2) by blast
    then show ?thesis
      using h(5,6) f writes_done(1) nd(1) set_remove1_subset[of _ "tasks (lsys l)"]
      by (intro stuck_sys[OF st]) (auto simp: drop_task_def dest: notin_set_remove1)
  next
    case (idle_wait d)
    with nd show ?thesis by (intro stuck_sys[OF st]) (auto simp: drop_task_def dest: notin_set_remove1 split: if_splits)
  next
    case (idle_fin d)
    with nd show ?thesis by (intro stuck_sys[OF st]) (auto simp: drop_task_def dest: notin_set_remove1 split: if_splits)
  next
    case (idle_done x d)
    with nd show ?thesis by (intro stuck_sys[OF st]) (auto simp: drop_task_def dest: notin_set_remove1 split: if_splits)
  next
    case (time_passes n)
    then show ?thesis by (intro stuck_sys[OF st]) (simp_all add: nd)
  next
    case (ctx_ends x)
    then show ?thesis by (intro stuck_sys[OF st]) (simp_all add: nd)
  qed
qed

lemma stuck_steps: "(life_step hook)\<^sup>*\<^sup>* l l' \<Longrightarrow> life_inv l \<Longrightarrow> stuck c l \<Longrightarrow> stuck c l'"
proof (induction rule: rtranclp_induct)
  case (step l1 l2)
  then show ?case using stuck_step life_inv_steps by blast
qed

end

section \<open>Watching the hooks\<close>

text \<open>
  To say when hooks are called, the state is given a log of the calls, and \<open>beh\<close> says how each call
  ends: it may return, panic or never return.
\<close>

record 'v watched_sys = "'v chan_sys" +
  hook_log :: "(closedHook \<times> chid) list"

definition watch ::
    "(closedHook \<Rightarrow> ctx \<Rightarrow> chid \<Rightarrow> go_error option \<Rightarrow> unit outcome) \<Rightarrow>
     closedHook \<Rightarrow> ctx \<Rightarrow> chid \<Rightarrow> go_error option \<Rightarrow> ('v, 'z) watched_sys_scheme \<Rightarrow>
     unit outcome \<times> ('v, 'z) watched_sys_scheme" where
  "watch beh h x c err s = (beh h x c err, s\<lparr>hook_log := hook_log s @ [(h, c)]\<rparr>)"

interpretation watched: closing_hooks "watch beh"
  by unfold_locales (auto simp: watch_def)

definition hooks_of :: "chid \<Rightarrow> ('v, 'z) chan_sys_scheme \<Rightarrow> closedHook list" where
  "hooks_of c s = onChannelClosedChain (pls s (ch_pl (chans s c))) @ chocc (pls s (ch_pl (chans s c)))"

text \<open>The hooks of \<open>c\<close> were called in this order, all of them or up to one that did not return.\<close>

definition called :: "chid \<Rightarrow> closedHook list \<Rightarrow> ('v, 'z) watched_sys_scheme \<Rightarrow> ('v, 'z) watched_sys_scheme \<Rightarrow> bool" where
  "called c hs s s' \<longleftrightarrow> hook_log s' = hook_log s @ map (\<lambda>h. (h, c)) hs"

lemma fire_called:
  "fire_onChannelClosed (watch beh) hs c err s = (out, s') \<Longrightarrow>
   \<exists>xs ys. hs = xs @ ys \<and> called c xs s s' \<and> (xs = [] \<longrightarrow> hs = []) \<and> (out = Ok () \<longrightarrow> ys = [])"
proof (induction hs arbitrary: s)
  case (Cons h hs)
  obtain o1 s1 where h: "watch beh h (ch_ctx (chans s c)) c err s = (o1, s1)" by fastforce
  then have l: "hook_log s1 = hook_log s @ [(h, c)]" by (auto simp: watch_def)
  have stop: ?case if "s' = s1" "out = o1" "o1 \<noteq> Ok ()"
    using that l by (intro exI[of _ "[h]"] exI[of _ hs]) (simp add: called_def)
  show ?case
  proof (cases o1)
    case (Ok a)
    then have "fire_onChannelClosed (watch beh) hs c err s1 = (out, s')" using Cons.prems h by simp
    from Cons.IH[OF this] obtain xs ys where "hs = xs @ ys" "called c xs s1 s'" "out = Ok () \<longrightarrow> ys = []" by blast
    then show ?thesis using l by (intro exI[of _ "h # xs"] exI[of _ ys]) (simp add: called_def)
  next
    case (Err e)
    show ?thesis by (rule stop) (use Cons.prems h Err in auto)
  next
    case (Panic q)
    show ?thesis by (rule stop) (use Cons.prems h Panic in auto)
  next
    case Hang
    show ?thesis by (rule stop) (use Cons.prems h Hang in auto)
  qed
qed (simp add: called_def)

lemma log_simps [simp]:
  "hook_log (upd_ch c f s) = hook_log s" "hook_log (Submit x s) = hook_log s" "hook_log (drop_task x s) = hook_log s"
  by (simp_all add: upd_ch_def Submit_def drop_task_def)

lemma close_finish_log: "close_finish c s = (out, s') \<Longrightarrow> hook_log s' = hook_log s"
  by (auto simp: close_finish_def Let_def pipeline_Release_def upd_pl_def split: if_splits)

text \<open>The first stage of the goroutine of \<open>Close\<close>, with what it does to the log.\<close>

lemma close_hooks_log:
  assumes "close_hooks (watch beh) c x err s = (out, s')" and "pl_ch (pls s (ch_pl (chans s c))) = Some c"
    and "ch_state (chans s c) = inactive"
  obtains xs ys where "hooks_of c s = xs @ ys" and "called c xs s s'" and "xs = [] \<longrightarrow> hooks_of c s = []"
    and "\<And>d y. CloseWaitWrite d y \<in> set (tasks s') \<Longrightarrow> CloseWaitWrite d y \<in> set (tasks s) \<or> d = c \<and> ys = []"
    and "\<And>d y e. CloseWaitRead d y e \<in> set (tasks s') \<Longrightarrow> CloseWaitRead d y e \<in> set (tasks s)"
proof -
  obtain o1 s1 where f: "FireOnChannelClosed (watch beh) (ch_pl (chans s c)) err s = (o1, s1)" by fastforce
  then have "fire_onChannelClosed (watch beh) (hooks_of c s) c err s = (o1, s1)"
    using assms(2) by (simp add: FireOnChannelClosed_def Let_def hooks_of_def)
  from fire_called[OF this] obtain xs ys where xs: "hooks_of c s = xs @ ys" "called c xs s s1"
      "xs = [] \<longrightarrow> hooks_of c s = []" "o1 = Ok () \<longrightarrow> ys = []" by blast
  have t: "tasks s1 = tasks s" using watched.FireOnChannelClosed_frame[OF f assms(2,3)] by simp
  obtain o2 s2 where e: "close_finish c s1 = (o2, s2)" by fastforce
  have "tasks s2 = tasks s1" using e by (auto simp: close_finish_def Let_def pipeline_Release_def upd_pl_def upd_ch_def split: if_splits)
  moreover have "s' = s1 \<or> s' = s2 \<or> s' = Submit (CloseWaitWrite c x) s1 \<and> o1 = Ok ()"
    using assms(1) f e by (cases o1; cases o2) (auto simp: close_hooks_def split: if_splits)
  ultimately show thesis
    using xs t close_finish_log[OF e] by (intro that[of xs ys]) (auto simp: called_def)
qed


text \<open>Steps that fire no hook.\<close>

definition quiet :: "('v, 'z) watched_sys_scheme \<Rightarrow> ('v, 'z) watched_sys_scheme \<Rightarrow> bool" where
  "quiet s s' \<longleftrightarrow> hook_log s' = hook_log s \<and>
     (\<forall>c. ch_state (chans s c) = inactive \<longrightarrow> ch_state (chans s' c) = inactive) \<and>
     (\<forall>c x err. CloseWaitRead c x err \<in> set (tasks s') \<longrightarrow> CloseWaitRead c x err \<in> set (tasks s) \<or> ch_state (chans s c) \<noteq> inactive) \<and>
     (\<forall>c x. CloseWaitWrite c x \<in> set (tasks s') \<longrightarrow> CloseWaitWrite c x \<in> set (tasks s) \<and> hooks_of c s' = hooks_of c s)"




text \<open>Every step is quiet but the one that fires the hooks of a channel.\<close>

lemma writes_done_quiet:
  assumes inv: "closing_ok s" "linked_pl s" and t: "CloseWaitWrite c x \<in> set (tasks s)"
    and f: "close_finish c (drop_task (CloseWaitWrite c x) s) = (out, s')"
  shows "quiet s s'"
proof -
  note cf = closing_hooks.closer_facts[OF watched.closing_hooks_axioms inv(1) t, of c, simplified]
  let ?s0 = "drop_task (CloseWaitWrite c x) s"
  have l0: "linked_pl ?s0" using inv(2) by (simp add: linked_pl_def)
  have st0: "ch_state (chans ?s0 c) = inactive" "\<not> ch_done (chans ?s0 c)" using cf by simp_all
  note e = close_finish_life[OF f cf(4) l0 st0(1) cf(3) st0(2)]
  have sub: "set (tasks s') \<subseteq> set (tasks s)" using e(6) set_remove1_subset by (fastforce simp: drop_task_def)
  have no: "CloseWaitWrite c y \<notin> set (tasks s')" for y using cf(3) e(6) by (auto simp: closers_def filter_empty_conv)
  have p: "pls s' = (pls s)(ch_pl (chans s c) := (pls s (ch_pl (chans s c)))\<lparr>pl_ch := None, chocc := [], chIn := [], chOut := []\<rparr>)"
    "ch_pl (chans s' d) = ch_pl (chans s d)" "ch_state (chans s' d) = ch_state (chans s d)" for d
    using f cf(2) by (auto simp: close_finish_def Let_def pipeline_Release_def upd_pl_def)
  have "hooks_of d s' = hooks_of d s" if d: "CloseWaitWrite d y \<in> set (tasks s')" for d y
  proof -
    have "\<not> ch_done (chans s d)"
      using closing_hooks.closer_facts(2)[OF watched.closing_hooks_axioms inv(1) subsetD[OF sub d], of d] by simp
    with inv(2) cf(2) have "pl_ch (pls s (ch_pl (chans s d))) = Some d" "pl_ch (pls s (ch_pl (chans s c))) = Some c"
      by (simp_all add: linked_pl_def)
    moreover have "d \<noteq> c" using d no by blast
    ultimately have "ch_pl (chans s d) \<noteq> ch_pl (chans s c)" by auto
    then show ?thesis using p by (simp add: hooks_of_def)
  qed
  then show ?thesis
    using close_finish_log[OF f] sub p(3) by (auto simp: quiet_def)
qed

lemma life_step_quiet:
  assumes "life_step (watch beh) l l'" and inv: "closing_ok (lsys l)" "linked_pl (lsys l)"
  obtains (quiet) "quiet (lsys l) (lsys l')"
  | (fires) c x err out where "CloseWaitRead c x err \<in> set (tasks (lsys l))" "WaitReadTask (ch_tasks (chans (lsys l) c))"
      "close_hooks (watch beh) c x err (drop_task (CloseWaitRead c x err) (lsys l)) = (out, lsys l')"
  using assms(1)
proof cases
  case (begin_task e c)
  then show thesis
    by (intro quiet) (auto simp: quiet_def hooks_of_def Recorder_enter_def addTask_def Let_def split: if_splits)
next
  case (end_task c e out er out' s')
  obtain o1 where "tasks_Done e c (lsys l) = (o1, s')" using Recorder_leave_returns[OF end_task(4,3)] by blast
  with end_task show thesis
    by (intro quiet) (auto simp: quiet_def hooks_of_def tasks_Done_def split: prod.splits if_splits)
next
  case (panic_task c e p out' s')
  then show thesis by (intro quiet) (simp add: quiet_def)
next
  case (call_Close x err c out s')
  with channel_Close_cases[OF call_Close(2)] show thesis
    by (intro quiet) (auto simp: quiet_def hooks_of_def split: if_splits)
next
  case (call_CloseReader c)
  then show thesis
    by (intro quiet) (auto simp: quiet_def hooks_of_def CloseReader_def channel_close_def state_defs split: if_splits)
next
  case (call_CloseWriter c)
  then show thesis
    by (intro quiet) (auto simp: quiet_def hooks_of_def CloseWriter_def channel_close_def state_defs split: if_splits)
next
  case (reads_done c x err out s')
  then show thesis by (intro fires) simp_all
next
  case (writes_done c x out s')
  then show thesis using writes_done_quiet[OF inv] by (intro quiet) simp
next
  case (idle_wait c)
  then show thesis by (intro quiet) (auto simp: quiet_def hooks_of_def drop_task_def Submit_def dest: notin_set_remove1)
next
  case (idle_fin c)
  then show thesis by (intro quiet) (auto simp: quiet_def hooks_of_def drop_task_def upd_ch_def dest: notin_set_remove1)
next
  case (idle_done x c)
  then show thesis by (intro quiet) (auto simp: quiet_def hooks_of_def drop_task_def dest: notin_set_remove1)
next
  case (time_passes n)
  then show thesis by (intro quiet) (simp add: quiet_def hooks_of_def)
next
  case (ctx_ends x)
  then show thesis by (intro quiet) (simp add: quiet_def hooks_of_def)
qed

text \<open>The step that fires the hooks of \<open>c\<close>.\<close>

lemma fires_effect:
  assumes inv: "closing_ok s" "linked_pl s" and t: "CloseWaitRead c x err \<in> set (tasks s)"
    and f: "close_hooks (watch beh) c x err (drop_task (CloseWaitRead c x err) s) = (out, s')"
  obtains xs ys where "hooks_of c s = xs @ ys" and "called c xs s s'" and "xs = [] \<longrightarrow> hooks_of c s = []"
    and "\<And>d y. CloseWaitWrite d y \<in> set (tasks s') \<Longrightarrow> CloseWaitWrite d y \<in> set (tasks s) \<or> d = c \<and> ys = []"
    and "\<And>d y e. CloseWaitRead d y e \<in> set (tasks s') \<Longrightarrow> CloseWaitRead d y e \<in> set (tasks s) \<and> d \<noteq> c"
    and "ch_state (chans s c) = inactive" and "\<not> ch_done (chans s c)" and "pl_ch (pls s (ch_pl (chans s c))) = Some c"
proof -
  let ?s0 = "drop_task (CloseWaitRead c x err) s"
  note cf = closing_hooks.closer_facts[OF watched.closing_hooks_axioms inv(1) t, of c, simplified]
  have p: "pl_ch (pls s (ch_pl (chans s c))) = Some c" using inv(2) cf(2) by (simp add: linked_pl_def)
  have p0: "pl_ch (pls ?s0 (ch_pl (chans ?s0 c))) = Some c" "ch_state (chans ?s0 c) = inactive" using p cf(1) by simp_all
  have no: "CloseWaitRead c y e \<notin> set (tasks ?s0)" for y e using cf(3) by (auto simp: closers_def filter_empty_conv)
  have sub: "set (tasks ?s0) \<subseteq> set (tasks s)" by (simp add: drop_task_def set_remove1_subset)
  have h: "hooks_of c ?s0 = hooks_of c s" by (simp add: hooks_of_def)
  show thesis
  proof (rule close_hooks_log[OF f p0])
    fix xs ys
    assume a: "hooks_of c ?s0 = xs @ ys" "called c xs ?s0 s'" "xs = [] \<longrightarrow> hooks_of c ?s0 = []"
      and w: "\<And>d y. CloseWaitWrite d y \<in> set (tasks s') \<Longrightarrow> CloseWaitWrite d y \<in> set (tasks ?s0) \<or> d = c \<and> ys = []"
      and r: "\<And>d y e. CloseWaitRead d y e \<in> set (tasks s') \<Longrightarrow> CloseWaitRead d y e \<in> set (tasks ?s0)"
    show thesis
    proof (rule that[of xs ys])
      show "called c xs s s'" using a(2) by (simp add: called_def)
      show "CloseWaitWrite d y \<in> set (tasks s) \<or> d = c \<and> ys = []" if "CloseWaitWrite d y \<in> set (tasks s')" for d y
        using w[OF that] sub by blast
      show "CloseWaitRead d y e \<in> set (tasks s) \<and> d \<noteq> c" if "CloseWaitRead d y e \<in> set (tasks s')" for d y e
        using r[OF that] sub no by blast
    qed (use a(1,3) h cf(1,2) p in simp_all)
  qed
qed








section \<open>Properties\<close>


text \<open>Channel 0 is open and has two hooks, which return.\<close>

definition life0 :: "unit watched_sys life" where
  "life0 = \<lparr>lsys = \<lparr>chans = (\<lambda>_. channel0\<lparr>ch_done := True, ch_state := inactive\<rparr>)(0 := channel0), nextCh = 1,
       pls = (\<lambda>_. pipeline0\<lparr>onChannelClosedChain := [UserClosed 3], chocc := [UserClosed 4]\<rparr>), nextPl = 1, pool = [],
       poolNew = None, conns = (\<lambda>_. conn0), clock = 0, tasks = [], ctxDone = (\<lambda>_. False), hook_log = []\<rparr>,
     inflight = [], leaked = []\<rparr>"

definition returns0 :: "closedHook \<Rightarrow> ctx \<Rightarrow> chid \<Rightarrow> go_error option \<Rightarrow> unit outcome" where
  "returns0 h x c err = Ok ()"

lemma life0_init: "life_init life0" "hook_log (lsys life0) = []"
  by (simp_all add: life_init_def life0_def sys0_defs closers_def linked_pl_def)


text \<open>
  C37: an inbound handler that panics before the hooks of its channel were called keeps the channel
  from ever being closed. The panic unwinds past the second half of \<^verbatim>\<open>Recorder\<close>, so the task is not
  counted down; from then on, whatever happens, the goroutine of \<^verbatim>\<open>Close\<close> does not get past its wait for
  the readers: no hook is called, and its deferred function, which closes \<^verbatim>\<open>done\<close> and the connection,
  does not run. (An outbound handler that panics leaves the other counter up, which only keeps a
  closing without an error waiting, and only until the context is done.)
\<close>

theorem panicking_handler_blocks_close:
  assumes "life_init l" and "hook_log (lsys l) = []" and "(life_step (watch beh))\<^sup>*\<^sup>* l l1"
    and "(c, ReadEvent) \<in> set (inflight l1)" and "c \<notin> snd ` set (hook_log (lsys l1))"
    and "\<not> ch_done (chans (lsys l1) c)" and "\<forall>x. CloseWaitWrite c x \<notin> set (tasks (lsys l1))"
    and "Recorder_leave ReadEvent c (Panic p) (lsys l1) = (out, s2)"
    and "(life_step (watch beh))\<^sup>*\<^sup>* (l1\<lparr>lsys := s2, inflight := remove1 (c, ReadEvent) (inflight l1),
      leaked := (c, ReadEvent) # leaked l1\<rparr>) l3"
  shows "out = Panic p \<and> \<not> WaitReadTask (ch_tasks (chans (lsys l3) c)) \<and> \<not> ch_done (chans (lsys l3) c) \<and>
    c \<notin> snd ` set (hook_log (lsys l3))"
proof -
  let ?l2 = "l1\<lparr>lsys := s2, inflight := remove1 (c, ReadEvent) (inflight l1), leaked := (c, ReadEvent) # leaked l1\<rparr>"
  have i1: "life_inv l1" using watched.life_inv_steps[OF assms(3) life_init_inv[OF assms(1)]] .
  have i2: "life_inv ?l2" using watched.life_inv_step[OF panic_task[OF assms(4,8)] i1] .
  have o: "out = Panic p" "s2 = lsys l1" using assms(8) by simp_all
  have s2: "stuck c ?l2" using assms(6,7) o(2) by (simp add: stuck_def)
  have n2: "c \<notin> snd ` set (hook_log (lsys ?l2))" using assms(5) o(2) by simp
  have "stuck c l3 \<and> life_inv l3 \<and> c \<notin> snd ` set (hook_log (lsys l3))"
    using assms(9)
  proof (induction rule: rtranclp_induct)
    case base
    show ?case using s2 i2 n2 by blast
  next
    case (step l4 l5)
    have ok: "closing_ok (lsys l4)" "linked_pl (lsys l4)" using step.IH by (simp_all add: life_inv_def)
    have "c \<notin> snd ` set (hook_log (lsys l5))"
    proof (rule life_step_quiet[OF step.hyps(2) ok])
      assume "quiet (lsys l4) (lsys l5)"
      with step.IH show ?thesis by (simp add: quiet_def)
    next
      fix d x err o2
      assume t: "CloseWaitRead d x err \<in> set (tasks (lsys l4))" and w: "WaitReadTask (ch_tasks (chans (lsys l4) d))"
        and f: "close_hooks (watch beh) d x err (drop_task (CloseWaitRead d x err) (lsys l4)) = (o2, lsys l5)"
      have "d \<noteq> c" using w watched.stuck_waits step.IH by blast
      moreover obtain xs where "called d xs (lsys l4) (lsys l5)" by (rule fires_effect[OF ok t f])
      ultimately show ?thesis using step.IH by (auto simp: called_def)
    qed
    with step show ?case using watched.stuck_step watched.life_inv_step by blast
  qed
  with o watched.stuck_waits[of l3 c] show ?thesis by (simp add: stuck_def)
qed

text \<open>A handler begins and panics, and the channel is closed.\<close>

theorem panicking_handler_blocks_close_witness:
  "\<exists>l3. (life_step (watch returns0))\<^sup>*\<^sup>* life0 l3 \<and> CloseWaitRead 0 Background None \<in> set (tasks (lsys l3)) \<and>
     \<not> WaitReadTask (ch_tasks (chans (lsys l3) 0)) \<and> hook_log (lsys l3) = []"
proof -
  let ?w = "watch returns0"
  let ?s1 = "Recorder_enter ReadEvent 0 (lsys life0)"
  let ?l1 = "life0\<lparr>lsys := ?s1, inflight := [(0, ReadEvent)]\<rparr>"
  let ?l2 = "?l1\<lparr>lsys := ?s1, inflight := remove1 (0, ReadEvent) (inflight ?l1), leaked := (0, ReadEvent) # leaked ?l1\<rparr>"
  have b: "(life_step ?w)\<^sup>*\<^sup>* life0 ?l1"
    using begin_task[of ReadEvent ?w life0 0] by (simp add: life0_def r_into_rtranclp)
  have s: "ch_state (chans ?s1 0) \<noteq> inactive" "tasks ?s1 = [IdleWait 0]" "\<not> ch_done (chans ?s1 0)" "hook_log ?s1 = []"
    by (simp_all add: Recorder_enter_def addTask_def Let_def life0_def sys0_defs state_defs)
  have p: "Recorder_leave ReadEvent 0 (Panic NilDereference) (lsys ?l1) = (Panic NilDereference, ?s1)" by simp
  obtain o3 s3 where c: "channel_Close Background None 0 ?s1 = (o3, s3)" by fastforce
  then have t: "CloseWaitRead 0 Background None \<in> set (tasks s3)" "hook_log s3 = []"
    using channel_Close_cases[OF c] s by auto
  have r2: "life_step ?w ?l1 ?l2" by (rule panic_task[OF _ p]) simp
  have r3: "life_step ?w ?l2 (?l2\<lparr>lsys := s3\<rparr>)" by (rule call_Close[where c = 0]) (use c in simp)
  have "\<not> WaitReadTask (ch_tasks (chans (lsys (?l2\<lparr>lsys := s3\<rparr>)) 0))"
    using panicking_handler_blocks_close[OF life0_init b _ _ _ _ p r_into_rtranclp[of "life_step ?w", OF r3]] s by simp
  moreover have "(life_step ?w)\<^sup>*\<^sup>* life0 (?l2\<lparr>lsys := s3\<rparr>)" using b r2 r3 by (meson rtranclp.rtrancl_into_rtrancl)
  ultimately show ?thesis using t by (intro exI[of _ "?l2\<lparr>lsys := s3\<rparr>"]) simp
qed

end
