(* ===== verification/Headlist.thy ===== *)
theory Headlist
  imports Prelude
begin

text \<open>
  The intrusive doubly linked list of \<^verbatim>\<open>internal/timewheel/list.go\<close>, on a heap of \<open>Head\<close> structs.
  A list is a ring through its head; \<open>dlist\<close> relates the heap to the list of its elements, and
  every operation is shown to do to that list what its name says.
\<close>

section \<open>Heads and operations\<close>

type_synonym ptr = nat

record Head =
  Next :: ptr
  Prev :: ptr
  hlen :: int

type_synonym heads = "ptr \<Rightarrow> Head"

abbreviation set_next :: "ptr \<Rightarrow> ptr \<Rightarrow> heads \<Rightarrow> heads" where
  "set_next p v H \<equiv> H(p := (H p)\<lparr>Next := v\<rparr>)"

abbreviation set_prev :: "ptr \<Rightarrow> ptr \<Rightarrow> heads \<Rightarrow> heads" where
  "set_prev p v H \<equiv> H(p := (H p)\<lparr>Prev := v\<rparr>)"

abbreviation set_len :: "ptr \<Rightarrow> int \<Rightarrow> heads \<Rightarrow> heads" where
  "set_len p v H \<equiv> H(p := (H p)\<lparr>hlen := v\<rparr>)"

definition Head_Init :: "ptr \<Rightarrow> heads \<Rightarrow> heads" where
  "Head_Init h H = set_len h 0 (set_prev h h (set_next h h H))"

definition dl_add :: "ptr \<Rightarrow> ptr \<Rightarrow> ptr \<Rightarrow> heads \<Rightarrow> heads" where
  "dl_add new prev nx H =
     set_next prev new (set_prev new prev (set_next new nx (set_prev nx new H)))"

definition dl_del :: "ptr \<Rightarrow> ptr \<Rightarrow> heads \<Rightarrow> heads" where
  "dl_del prev nx H = set_next prev nx (set_prev nx prev H)"

definition delEntry :: "ptr \<Rightarrow> heads \<Rightarrow> heads" where
  "delEntry entry H = dl_del (Prev (H entry)) (Next (H entry)) H"

definition Head_Add :: "ptr \<Rightarrow> ptr \<Rightarrow> heads \<Rightarrow> heads" where
  "Head_Add h new H = (let H1 = set_len h (hlen (H h) + 1) H in dl_add new h (Next (H1 h)) H1)"

definition Head_AddTail :: "ptr \<Rightarrow> ptr \<Rightarrow> heads \<Rightarrow> heads" where
  "Head_AddTail h new H = (let H1 = set_len h (hlen (H h) + 1) H in dl_add new (Prev (H1 h)) h H1)"

definition Head_Del :: "ptr \<Rightarrow> ptr \<Rightarrow> heads \<Rightarrow> heads" where
  "Head_Del h pos H =
     (let H1 = set_len h (hlen (H h) - 1) H in dl_del (Prev (H1 pos)) (Next (H1 pos)) H1)"

definition Head_Len :: "ptr \<Rightarrow> heads \<Rightarrow> int" where
  "Head_Len h H = hlen (H h)"

definition Head_Replace :: "ptr \<Rightarrow> ptr \<Rightarrow> heads \<Rightarrow> heads" where
  "Head_Replace old new H =
     (let H1 = set_next new (Next (H old)) H;
          H2 = set_prev (Next (H1 new)) new H1;
          H3 = set_prev new (Prev (H2 old)) H2;
          H4 = set_next (Prev (H3 new)) new H3
      in set_len new (hlen (H4 old)) H4)"

definition Head_ReplaceInit :: "ptr \<Rightarrow> ptr \<Rightarrow> heads \<Rightarrow> heads" where
  "Head_ReplaceInit h new H = Head_Init h (Head_Replace h new H)"

definition Head_DelInit :: "ptr \<Rightarrow> ptr \<Rightarrow> heads \<Rightarrow> heads" where
  "Head_DelInit h pos H = Head_Init pos (delEntry pos (set_len h (hlen (H h) - 1) H))"

definition Head_Move :: "ptr \<Rightarrow> ptr \<Rightarrow> heads \<Rightarrow> heads" where
  "Head_Move h pos H = Head_Add h pos (delEntry pos H)"

definition Head_MoveTail :: "ptr \<Rightarrow> ptr \<Rightarrow> heads \<Rightarrow> heads" where
  "Head_MoveTail h pos H = Head_AddTail h pos (delEntry pos H)"

definition Head_IsLast :: "ptr \<Rightarrow> heads \<Rightarrow> bool" where
  "Head_IsLast h H \<longleftrightarrow> Next (H h) = h"

definition Head_Empty :: "ptr \<Rightarrow> heads \<Rightarrow> bool" where
  "Head_Empty h H \<longleftrightarrow> hlen (H h) = 0"

definition Head_RotateLeft :: "ptr \<Rightarrow> heads \<Rightarrow> heads" where
  "Head_RotateLeft h H = (if \<not> Head_Empty h H then Head_MoveTail h (Next (H h)) H else H)"

text \<open>
  \<^verbatim>\<open>Entry\<close>, \<^verbatim>\<open>NextEntry\<close> and \<^verbatim>\<open>PrevEntry\<close> convert the address of an embedded \<open>Head\<close> to the address of
  the struct around it; here a struct is identified by the address of its \<open>Head\<close>.
\<close>

definition Head_FirstEntryOrNil :: "ptr \<Rightarrow> heads \<Rightarrow> ptr option" where
  "Head_FirstEntryOrNil h H = (if hlen (H h) = 0 then None else Some (Next (H h)))"

definition Head_LastEntry :: "ptr \<Rightarrow> heads \<Rightarrow> ptr" where
  "Head_LastEntry h H = Prev (H h)"

text \<open>
  The traversals call \<open>f\<close> on every element; \<open>f\<close> may change the state \<open>s\<close>, which contains the heap.
  They may run forever on a list that is not a ring through \<open>h\<close>, which is the value \<open>None\<close>.
\<close>

partial_function (option) ForEach_loop ::
    "('s \<Rightarrow> heads) \<Rightarrow> (ptr \<Rightarrow> 's \<Rightarrow> 's) \<Rightarrow> ptr \<Rightarrow> ptr \<Rightarrow> 's \<Rightarrow> 's option" where
  "ForEach_loop heap f h pos s =
     (if pos \<noteq> h then (let s' = f pos s in ForEach_loop heap f h (Next (heap s' pos)) s') else Some s)"

definition Head_ForEach :: "('s \<Rightarrow> heads) \<Rightarrow> (ptr \<Rightarrow> 's \<Rightarrow> 's) \<Rightarrow> ptr \<Rightarrow> 's \<Rightarrow> 's option" where
  "Head_ForEach heap f h s = ForEach_loop heap f h (Next (heap s h)) s"

partial_function (option) ForEachPrev_loop ::
    "('s \<Rightarrow> heads) \<Rightarrow> (ptr \<Rightarrow> 's \<Rightarrow> 's) \<Rightarrow> ptr \<Rightarrow> ptr \<Rightarrow> 's \<Rightarrow> 's option" where
  "ForEachPrev_loop heap f h pos s =
     (if pos \<noteq> h then (let s' = f pos s in ForEachPrev_loop heap f h (Prev (heap s' pos)) s') else Some s)"

definition Head_ForEachPrev :: "('s \<Rightarrow> heads) \<Rightarrow> (ptr \<Rightarrow> 's \<Rightarrow> 's) \<Rightarrow> ptr \<Rightarrow> 's \<Rightarrow> 's option" where
  "Head_ForEachPrev heap f h s = ForEachPrev_loop heap f h (Prev (heap s h)) s"

partial_function (option) ForEachSafe_loop ::
    "('s \<Rightarrow> heads) \<Rightarrow> (ptr \<Rightarrow> 's \<Rightarrow> 's) \<Rightarrow> ptr \<Rightarrow> ptr \<Rightarrow> ptr \<Rightarrow> 's \<Rightarrow> 's option" where
  "ForEachSafe_loop heap f h pos n s =
     (if pos \<noteq> h
      then (let s' = f pos s; pos' = n; n' = Next (heap s' pos') in ForEachSafe_loop heap f h pos' n' s')
      else Some s)"

definition Head_ForEachSafe :: "('s \<Rightarrow> heads) \<Rightarrow> (ptr \<Rightarrow> 's \<Rightarrow> 's) \<Rightarrow> ptr \<Rightarrow> 's \<Rightarrow> 's option" where
  "Head_ForEachSafe heap f h s =
     (let pos = Next (heap s h); n = Next (heap s pos) in ForEachSafe_loop heap f h pos n s)"

partial_function (option) ForEachPrevSafe_loop ::
    "('s \<Rightarrow> heads) \<Rightarrow> (ptr \<Rightarrow> 's \<Rightarrow> 's) \<Rightarrow> ptr \<Rightarrow> ptr \<Rightarrow> ptr \<Rightarrow> 's \<Rightarrow> 's option" where
  "ForEachPrevSafe_loop heap f h pos n s =
     (if pos \<noteq> h
      then (let s' = f pos s; pos' = n; n' = Prev (heap s' pos') in ForEachPrevSafe_loop heap f h pos' n' s')
      else Some s)"

definition Head_ForEachPrevSafe :: "('s \<Rightarrow> heads) \<Rightarrow> (ptr \<Rightarrow> 's \<Rightarrow> 's) \<Rightarrow> ptr \<Rightarrow> 's \<Rightarrow> 's option" where
  "Head_ForEachPrevSafe heap f h s =
     (let pos = Prev (heap s h); n = Prev (heap s pos) in ForEachPrevSafe_loop heap f h pos n s)"

section \<open>The list a ring represents\<close>

fun linked :: "heads \<Rightarrow> ptr list \<Rightarrow> bool" where
  "linked H (a # b # l) \<longleftrightarrow> Next (H a) = b \<and> Prev (H b) = a \<and> linked H (b # l)"
| "linked H _ \<longleftrightarrow> True"

definition ring :: "heads \<Rightarrow> ptr \<Rightarrow> ptr list \<Rightarrow> bool" where
  "ring H h xs \<longleftrightarrow> distinct (h # xs) \<and> linked H (h # xs @ [h])"

definition dlist :: "heads \<Rightarrow> ptr \<Rightarrow> ptr list \<Rightarrow> bool" where
  "dlist H h xs \<longleftrightarrow> ring H h xs \<and> hlen (H h) = int (length xs)"

lemma linked_split: "linked H (l @ a # r) \<longleftrightarrow> linked H (l @ [a]) \<and> linked H (a # r)"
  by (induction l rule: induct_list012) auto

lemma linked_cong:
  "(\<And>a. a \<in> set (butlast l) \<Longrightarrow> Next (H' a) = Next (H a)) \<Longrightarrow>
   (\<And>a. a \<in> set (tl l) \<Longrightarrow> Prev (H' a) = Prev (H a)) \<Longrightarrow> linked H' l = linked H l"
  by (induction l rule: induct_list012) auto

text \<open>A ring depends on its own heads only, and not on the length field.\<close>

lemma ring_cong:
  assumes "\<And>p. p \<in> set (h # xs) \<Longrightarrow> Next (H' p) = Next (H p) \<and> Prev (H' p) = Prev (H p)"
  shows "ring H' h xs \<longleftrightarrow> ring H h xs"
  unfolding ring_def using assms by (intro conj_cong refl linked_cong) (auto simp: in_set_butlastD)

lemma dlist_cong:
  assumes "\<And>p. p \<in> set (h # xs) \<Longrightarrow> H' p = H p"
  shows "dlist H' h xs \<longleftrightarrow> dlist H h xs"
  using assms ring_cong[of h xs H' H] by (simp add: dlist_def)

lemma ring_set_len [simp]: "ring (set_len p n H) h xs = ring H h xs"
  by (rule ring_cong) simp

text \<open>The neighbours of a position between \<open>l\<close> and \<open>r\<close>.\<close>

abbreviation before :: "ptr \<Rightarrow> ptr list \<Rightarrow> ptr" where
  "before h l \<equiv> last (h # l)"

abbreviation behind :: "ptr \<Rightarrow> ptr list \<Rightarrow> ptr" where
  "behind h r \<equiv> hd (r @ [h])"

lemma neighbours:
  obtains L R where "h # l = L @ [before h l]" and "r @ [h] = behind h r # R"
    and "set L \<subseteq> set (h # l)" and "set R \<subseteq> set (h # r)"
proof -
  have "h # l = butlast (h # l) @ [before h l]" "r @ [h] = behind h r # tl (r @ [h])"
    by simp_all
  moreover have "set (butlast (h # l)) \<subseteq> set (h # l)" by (meson in_set_butlastD subsetI)
  moreover have "set (tl (r @ [h])) \<subseteq> set (h # r)" by (cases r) auto
  ultimately show thesis by (rule that)
qed

lemma before_in: "before h l \<in> set (h # l)"
  by (metis last_in_set list.distinct(1))

lemma behind_in: "behind h r \<in> set (h # r)"
  by (cases r) auto

lemma ring_at:
  "ring H h (l @ r) \<longleftrightarrow> distinct (h # l @ r) \<and> linked H (h # l) \<and> linked H (r @ [h]) \<and>
     Next (H (before h l)) = behind h r \<and> Prev (H (behind h r)) = before h l"
proof -
  obtain L R where LR: "h # l = L @ [before h l]" "r @ [h] = behind h r # R"
    using neighbours by metis
  have "h # (l @ r) @ [h] = (h # l) @ r @ [h]" by simp
  also have "\<dots> = L @ before h l # behind h r # R" using LR by simp
  finally have "linked H (h # (l @ r) @ [h]) \<longleftrightarrow> linked H (L @ [before h l]) \<and>
      Next (H (before h l)) = behind h r \<and> Prev (H (behind h r)) = before h l \<and> linked H (behind h r # R)"
    using linked_split[of H L "before h l" "behind h r # R"] by (simp only: linked.simps(1))
  with LR show ?thesis unfolding ring_def by auto
qed

lemma linked_left_cong:
  assumes "\<And>a. a \<in> set (h # l) \<Longrightarrow> a \<noteq> before h l \<Longrightarrow> Next (H' a) = Next (H a)"
    and "\<And>a. a \<in> set l \<Longrightarrow> Prev (H' a) = Prev (H a)" and "distinct (h # l)"
  shows "linked H' (h # l) = linked H (h # l)"
proof (rule linked_cong)
  fix a assume a: "a \<in> set (butlast (h # l))"
  have "distinct (butlast (h # l) @ [before h l])"
    using assms(3) by (metis append_butlast_last_id list.distinct(1))
  with a have "a \<noteq> before h l" by (metis disjoint_iff distinct_append list.set_intros(1))
  with a assms(1) show "Next (H' a) = Next (H a)" by (meson in_set_butlastD)
qed (use assms(2) in simp)

lemma linked_right_cong:
  assumes "\<And>a. a \<in> set r \<Longrightarrow> Next (H' a) = Next (H a)"
    and "\<And>a. a \<in> set (h # r) \<Longrightarrow> a \<noteq> behind h r \<Longrightarrow> Prev (H' a) = Prev (H a)" and "distinct (h # r)"
  shows "linked H' (r @ [h]) = linked H (r @ [h])"
proof (rule linked_cong)
  fix a assume a: "a \<in> set (tl (r @ [h]))"
  then have "a \<noteq> behind h r" "a \<in> set (h # r)" using assms(3) by (cases r; auto)+
  with assms(2) show "Prev (H' a) = Prev (H a)" by blast
qed (use assms(1) in simp)

section \<open>What the operations do to the list\<close>

lemma ring_insert:
  assumes "ring H h (l @ r)" and new: "new \<notin> set (h # l @ r)"
  shows "ring (dl_add new (before h l) (behind h r) H) h (l @ new # r)"
proof -
  define a b where "a = before h l" and "b = behind h r"
  define H' where "H' = dl_add new a b H"
  from assms(1) have r: "distinct (h # l @ r)" "linked H (h # l)" "linked H (r @ [h])"
    by (simp_all add: ring_at)
  have ab: "a \<in> set (h # l)" "b \<in> set (h # r)" unfolding a_def b_def by (rule before_in, rule behind_in)
  have d: "distinct (h # l)" "distinct (h # r)" "set l \<inter> set r = {}" using r(1) by auto
  have nab: "new \<noteq> a" "new \<noteq> b" using ab new by auto
  have N: "Next (H' p) = (if p = a then new else if p = new then b else Next (H p))"
    and P: "Prev (H' p) = (if p = new then a else if p = b then new else Prev (H p))" for p
    using nab by (auto simp: dl_add_def H'_def)
  have "linked H' (h # l) = linked H (h # l)"
    by (rule linked_left_cong[of h l H' H, folded a_def]) (use ab new d r(1) in \<open>auto simp: N P\<close>)
  moreover have "linked H' (r @ [h]) = linked H (r @ [h])"
    by (rule linked_right_cong[of r H' H h, folded b_def]) (use ab new d r(1) in \<open>auto simp: N P\<close>)
  moreover obtain R where "r @ [h] = b # R" unfolding b_def by (metis neighbours)
  ultimately have "linked H' (h # l)" "linked H' (new # r @ [h])" "Next (H' a) = new" "Prev (H' new) = a"
    using r nab by (simp_all add: N P)
  then show ?thesis
    unfolding a_def[symmetric] b_def[symmetric] H'_def[symmetric]
    using r(1) new by (subst ring_at) (simp add: a_def[symmetric] del: last.simps)
qed

lemma ring_delete:
  assumes "ring H h (l @ x # r)"
  shows "Prev (H x) = before h l" and "Next (H x) = behind h r"
    and "ring (dl_del (before h l) (behind h r) H) h (l @ r)"
proof -
  define a b where "a = before h l" and "b = behind h r"
  define H' where "H' = dl_del a b H"
  from assms have r: "distinct (h # l @ x # r)" "linked H (h # l)" "linked H (x # r @ [h])"
      "Prev (H x) = a" by (simp_all add: ring_at a_def)
  obtain R where R: "r @ [h] = b # R" unfolding b_def by (metis neighbours)
  from r(3) have nx: "Next (H x) = b" "linked H (r @ [h])" by (simp_all add: R)
  show "Prev (H x) = before h l" "Next (H x) = behind h r" using r(4) nx(1) by (simp_all only: a_def b_def)
  have ab: "a \<in> set (h # l)" "b \<in> set (h # r)" unfolding a_def b_def by (rule before_in, rule behind_in)
  have d: "distinct (h # l)" "distinct (h # r)" "set l \<inter> set r = {}" using r(1) by auto
  have N: "Next (H' p) = (if p = a then b else Next (H p))"
    and P: "Prev (H' p) = (if p = b then a else Prev (H p))" for p
    by (auto simp: dl_del_def H'_def)
  have "linked H' (h # l) = linked H (h # l)"
    by (rule linked_left_cong[of h l H' H, folded a_def]) (use ab d r(1) in \<open>auto simp: N P\<close>)
  moreover have "linked H' (r @ [h]) = linked H (r @ [h])"
    by (rule linked_right_cong[of r H' H h, folded b_def]) (use ab d r(1) in \<open>auto simp: N P\<close>)
  ultimately show "ring (dl_del (before h l) (behind h r) H) h (l @ r)"
    unfolding a_def[symmetric] b_def[symmetric] H'_def[symmetric]
    using r nx(2) by (subst ring_at) (simp add: N P a_def[symmetric] b_def[symmetric] del: last.simps)
qed

lemma ring_ends:
  assumes "ring H h xs"
  shows "Next (H h) = behind h xs" and "Prev (H h) = before h xs"
  using assms ring_at[of H h "[]" xs] ring_at[of H h xs "[]"] by (simp_all del: last.simps(1)) auto

lemma linked_prefix: "linked H (l @ r) \<Longrightarrow> linked H l"
  by (induction l rule: induct_list012) auto

text \<open>What an operation leaves alone.\<close>

lemma dl_add_other: "p \<notin> {new, a, b} \<Longrightarrow> dl_add new a b H p = H p"
  by (simp add: dl_add_def)

lemma dl_del_other: "p \<notin> {a, b} \<Longrightarrow> dl_del a b H p = H p"
  by (simp add: dl_del_def)

lemma hlen_dl_add [simp]: "hlen (dl_add new a b H p) = hlen (H p)"
  by (simp add: dl_add_def)

lemma hlen_dl_del [simp]: "hlen (dl_del a b H p) = hlen (H p)"
  by (simp add: dl_del_def)

lemma Head_AddTail_ok:
  assumes "dlist H h xs" and "new \<notin> set (h # xs)"
  shows "dlist (Head_AddTail h new H) h (xs @ [new])"
    and "p \<notin> set (new # h # xs) \<Longrightarrow> Head_AddTail h new H p = H p"
proof -
  let ?H1 = "set_len h (hlen (H h) + 1) H"
  have r: "ring ?H1 h (xs @ [])" using assms(1) by (simp add: dlist_def)
  have "Prev (H h) = before h xs" using assms(1) ring_ends(2) by (simp only: dlist_def)
  then have eq: "Head_AddTail h new H = dl_add new (before h xs) h ?H1"
    by (simp add: Head_AddTail_def Let_def)
  show "dlist (Head_AddTail h new H) h (xs @ [new])"
    using ring_insert[OF r] assms unfolding eq by (simp add: dlist_def)
  show "Head_AddTail h new H p = H p" if "p \<notin> set (new # h # xs)"
  proof -
    have "p \<notin> {new, before h xs, h}" using that before_in[of h xs] by auto
    then show ?thesis unfolding eq by (simp add: dl_add_other)
  qed
qed

lemma Head_Add_ok:
  assumes "dlist H h xs" and "new \<notin> set (h # xs)"
  shows "dlist (Head_Add h new H) h (new # xs)"
    and "p \<notin> set (new # h # xs) \<Longrightarrow> Head_Add h new H p = H p"
proof -
  let ?H1 = "set_len h (hlen (H h) + 1) H"
  have r: "ring ?H1 h ([] @ xs)" using assms(1) by (simp add: dlist_def)
  have "Next (H h) = behind h xs" using assms(1) ring_ends(1) by (simp only: dlist_def)
  then have eq: "Head_Add h new H = dl_add new h (behind h xs) ?H1"
    by (simp add: Head_Add_def Let_def)
  show "dlist (Head_Add h new H) h (new # xs)"
    using ring_insert[OF r] assms unfolding eq by (simp add: dlist_def)
  show "Head_Add h new H p = H p" if "p \<notin> set (new # h # xs)"
  proof -
    have "p \<notin> {new, h, behind h xs}" using that behind_in[of xs h] by auto
    then show ?thesis unfolding eq by (simp add: dl_add_other)
  qed
qed

lemma Head_Del_ok:
  assumes "dlist H h (l @ x # r)"
  shows "dlist (Head_Del h x H) h (l @ r)"
    and "p \<notin> set (h # l @ r) \<Longrightarrow> Head_Del h x H p = H p"
proof -
  let ?H1 = "set_len h (hlen (H h) - 1) H"
  have rg: "ring ?H1 h (l @ x # r)" using assms by (simp add: dlist_def)
  have "x \<noteq> h" using assms by (auto simp: dlist_def ring_def)
  with ring_delete(1,2)[OF rg] have eq: "Head_Del h x H = dl_del (before h l) (behind h r) ?H1"
    by (simp add: Head_Del_def Let_def)
  show "dlist (Head_Del h x H) h (l @ r)"
    using ring_delete(3)[OF rg] assms unfolding eq by (simp add: dlist_def)
  show "Head_Del h x H p = H p" if "p \<notin> set (h # l @ r)"
  proof -
    have "p \<notin> {before h l, behind h r}" using that before_in[of h l] behind_in[of r h] by auto
    then show ?thesis unfolding eq using that by (simp add: dl_del_other)
  qed
qed

lemma ring_Init: "dlist (Head_Init h H) h []"
  by (simp add: dlist_def ring_def Head_Init_def)

lemma Head_Init_other: "p \<noteq> h \<Longrightarrow> Head_Init h H p = H p"
  by (simp add: Head_Init_def)

lemma Head_Replace_nonempty:
  assumes "ring H h (x # xs)" and "new \<notin> set (h # x # xs)"
  shows "Head_Replace h new H = set_len new (hlen (H h))
    (set_next (last (x # xs)) new (set_prev new (last (x # xs)) (set_prev x new (set_next new x H))))"
proof -
  have n: "Next (H h) = x" and p: "Prev (H h) = last (x # xs)"
    using ring_ends[OF assms(1)] by simp_all
  have "x \<noteq> h" "new \<noteq> h" "new \<noteq> x" "last (x # xs) \<noteq> h" "last (x # xs) \<noteq> new"
    using assms last_in_set[of "x # xs"] by (auto simp: ring_def simp del: last.simps)
  with n p show ?thesis by (simp add: Head_Replace_def Let_def del: last.simps)
qed

lemma Head_ReplaceInit_ok:
  assumes "dlist H h xs" and "new \<notin> set (h # xs)"
  shows "dlist (Head_ReplaceInit h new H) new xs" and "dlist (Head_ReplaceInit h new H) h []"
    and "p \<notin> set (new # h # xs) \<Longrightarrow> Head_ReplaceInit h new H p = H p"
proof -
  show "dlist (Head_ReplaceInit h new H) h []" by (simp add: Head_ReplaceInit_def ring_Init)
  have nh: "new \<noteq> h" using assms(2) by auto
  have rg: "ring H h xs" "hlen (H h) = int (length xs)" using assms(1) by (simp_all add: dlist_def)
  have "dlist (Head_Replace h new H) new xs \<and>
      (p \<notin> set (new # h # xs) \<longrightarrow> Head_Replace h new H p = H p)"
  proof (cases xs)
    case Nil
    with rg nh show ?thesis by (auto simp: dlist_def ring_def Head_Replace_def Let_def)
  next
    case (Cons x ys)
    define z where "z = last (x # ys)"
    define H' where "H' = Head_Replace h new H"
    have eq: "H' = set_len new (hlen (H h))
        (set_next z new (set_prev new z (set_prev x new (set_next new x H))))"
      unfolding H'_def z_def using Head_Replace_nonempty rg(1) assms(2) Cons by blast
    have zx: "z \<in> set xs" "x \<in> set xs" "new \<noteq> z" "new \<noteq> x"
      using assms(2) last_in_set[of "x # ys"] unfolding z_def Cons by auto
    have N: "Next (H' p) = (if p = z then new else if p = new then x else Next (H p))"
      and P: "Prev (H' p) = (if p = new then z else if p = x then new else Prev (H p))"
      and L: "hlen (H' new) = hlen (H h)" for p
      using zx by (auto simp: eq)
    have d: "distinct (h # xs)" "linked H xs"
      using rg(1) linked_prefix[of H xs "[h]"] linked_split[of H "[h]" x "ys @ [h]"]
      by (auto simp: ring_def Cons)
    have "linked H' xs = linked H xs"
    proof (rule linked_cong)
      fix a assume a: "a \<in> set (butlast xs)"
      have "distinct (butlast xs @ [z])" using d(1) Cons by (metis append_butlast_last_id distinct.simps(2) list.distinct(1) z_def)
      with a zx assms(2) show "Next (H' a) = Next (H a)" by (auto simp: N dest: in_set_butlastD)
    next
      fix a assume "a \<in> set (tl xs)"
      with d(1) assms(2) Cons show "Prev (H' a) = Prev (H a)" by (auto simp: P)
    qed
    moreover have xz: "xs = butlast xs @ [z]"
      using Cons by (metis append_butlast_last_id list.distinct(1) z_def)
    ultimately have "linked H' (butlast xs @ z # [new])"
      using d(2) N[of z] P[of new] by (subst linked_split) simp
    then have "linked H' (xs @ [new])" by (subst xz) simp
    then have "ring H' new xs"
      using zx d(1) assms(2) Cons by (simp add: ring_def N P)
    with rg(2) L have "dlist H' new xs" by (simp add: dlist_def)
    moreover have "p \<notin> set (new # h # xs) \<longrightarrow> H' p = H p" using zx unfolding eq by auto
    ultimately show ?thesis by (simp add: H'_def)
  qed
  then have rep: "dlist (Head_Replace h new H) new xs"
    "p \<notin> set (new # h # xs) \<Longrightarrow> Head_Replace h new H p = H p" by blast+
  have "h \<notin> set (new # xs)" using rg(1) nh by (auto simp: ring_def)
  then show "dlist (Head_ReplaceInit h new H) new xs"
    by (intro dlist_cong[THEN iffD2, OF _ rep(1)]) (metis Head_Init_other Head_ReplaceInit_def)
  show "Head_ReplaceInit h new H p = H p" if "p \<notin> set (new # h # xs)"
    using that rep(2) by (simp add: Head_ReplaceInit_def Head_Init_other)
qed

lemma Head_DelInit_ok:
  assumes "dlist H h (l @ x # r)"
  shows "dlist (Head_DelInit h x H) h (l @ r)" and "dlist (Head_DelInit h x H) x []"
proof -
  have x: "x \<noteq> h" "x \<notin> set (h # l @ r)" using assms by (auto simp: dlist_def ring_def)
  have "Head_DelInit h x H = Head_Init x (Head_Del h x H)"
    using x(1) by (simp add: Head_DelInit_def Head_Del_def delEntry_def Let_def)
  then show "dlist (Head_DelInit h x H) h (l @ r)" "dlist (Head_DelInit h x H) x []"
    by (simp_all add: ring_Init) (rule dlist_cong[THEN iffD2, OF _ Head_Del_ok(1)[OF assms]],
        metis Head_Init_other x(2))
qed

section \<open>Traversals\<close>

text \<open>
  The traversal that fetches the next element before it calls \<open>f\<close> visits the elements in order,
  whatever \<open>f\<close> does to the element it is given, as long as the links of the elements behind it
  stay: \<open>P ys s\<close> says this of the elements \<open>ys\<close> still to be visited.
\<close>

fun next_chain :: "heads \<Rightarrow> ptr list \<Rightarrow> bool" where
  "next_chain H (a # b # l) \<longleftrightarrow> Next (H a) = b \<and> next_chain H (b # l)"
| "next_chain H _ \<longleftrightarrow> True"

lemma linked_next_chain: "linked H l \<Longrightarrow> next_chain H l"
  by (induction H l rule: linked.induct) auto

lemma next_chain_cong: "(\<And>a. a \<in> set (butlast l) \<Longrightarrow> Next (H' a) = Next (H a)) \<Longrightarrow> next_chain H' l = next_chain H l"
  by (induction l rule: induct_list012) auto

lemma ForEachSafe_loop_fold:
  assumes step: "\<And>x ys s. P (x # ys) s \<Longrightarrow> P ys (f x s)"
    and chain: "\<And>ys s. P ys s \<Longrightarrow> next_chain (heap s) (ys @ [h]) \<and> h \<notin> set ys"
    and "P xs s" and "xs = [] \<longrightarrow> pos = h" and "xs \<noteq> [] \<longrightarrow> pos = hd xs \<and> n = hd (tl xs @ [h])"
  shows "ForEachSafe_loop heap f h pos n s = Some (fold f xs s)"
  using assms(3-)
proof (induction xs arbitrary: pos n s)
  case Nil
  then show ?case by (simp add: ForEachSafe_loop.simps)
next
  case (Cons x xs)
  have "x \<noteq> h" using chain[OF Cons.prems(1)] by auto
  have p: "P xs (f x s)" using step[OF Cons.prems(1)] .
  have c: "next_chain (heap (f x s)) (xs @ [h])" using chain[OF p] by blast
  have "ForEachSafe_loop heap f h n (Next (heap (f x s) n)) (f x s) = Some (fold f xs (f x s))"
    using Cons.prems(3) c by (intro Cons.IH[OF p]; cases xs rule: remdups_adj.cases) auto
  with Cons.prems(3) \<open>x \<noteq> h\<close> show ?case
    by (subst ForEachSafe_loop.simps) (simp add: Let_def)
qed

lemma ForEachSafe_fold:
  assumes step: "\<And>x ys s. P (x # ys) s \<Longrightarrow> P ys (f x s)"
    and chain: "\<And>ys s. P ys s \<Longrightarrow> next_chain (heap s) (ys @ [h]) \<and> h \<notin> set ys"
    and "P xs s" and "Next (heap s h) = behind h xs"
  shows "Head_ForEachSafe heap f h s = Some (fold f xs s)"
  unfolding Head_ForEachSafe_def Let_def
  by (rule ForEachSafe_loop_fold[where P = P, OF step chain assms(3)])
    (use assms(4) chain[OF assms(3)] in \<open>cases xs rule: remdups_adj.cases; auto\<close>)+

text \<open>The plain traversals, for functions that leave the list alone.\<close>

lemma ForEach_loop_fold:
  assumes keep: "\<And>x s. heap (f x s) = heap s"
    and "next_chain (heap s) (xs @ [h])" and "h \<notin> set xs" and "pos = hd (xs @ [h])"
  shows "ForEach_loop heap f h pos s = Some (fold f xs s)"
  using assms(2-)
proof (induction xs arbitrary: pos s)
  case Nil
  then show ?case by (simp add: ForEach_loop.simps)
next
  case (Cons x xs)
  then have "Next (heap s x) = hd (xs @ [h])" "next_chain (heap (f x s)) (xs @ [h])"
    by (cases xs; simp add: keep)+
  with Cons show ?case
    by (simp add: ForEach_loop.simps[of heap f h x s] Let_def keep)
qed

lemma ForEach_fold:
  assumes "\<And>x s. heap (f x s) = heap s" and "ring (heap s) h xs"
  shows "Head_ForEach heap f h s = Some (fold f xs s)"
proof -
  have "next_chain (heap s) ([h] @ xs @ [h])" using assms(2) by (auto simp: ring_def intro: linked_next_chain)
  then have "next_chain (heap s) (xs @ [h])" by (cases xs) auto
  with assms show ?thesis
    unfolding Head_ForEach_def using ring_ends(1)[OF assms(2)]
    by (intro ForEach_loop_fold) (auto simp: ring_def)
qed

lemma ForEachPrev_loop_fold:
  assumes keep: "\<And>x s. heap (f x s) = heap s"
    and "linked (heap s) (h # xs @ r)" and "h \<notin> set xs" and "pos = last (h # xs)"
  shows "ForEachPrev_loop heap f h pos s = Some (fold f (rev xs) s)"
  using assms(2-)
proof (induction xs arbitrary: pos s r rule: rev_induct)
  case Nil
  then show ?case by (simp add: ForEachPrev_loop.simps)
next
  case (snoc x xs)
  have l: "linked (heap s) (h # xs @ x # r)" using snoc.prems(1) by simp
  obtain L where L: "h # xs = L @ [last (h # xs)]" by (metis append_butlast_last_id list.distinct(1))
  have "linked (heap s) (L @ last (h # xs) # x # r)" using l L by (metis append.assoc append_Cons append_Nil)
  then have "Prev (heap s x) = last (h # xs)" by (subst (asm) linked_split) simp
  with snoc.IH[of "f x s" "x # r" "last (h # xs)"] l snoc.prems show ?case
    by (simp add: ForEachPrev_loop.simps[of heap f h x s] Let_def keep)
qed

lemma ForEachPrev_fold:
  assumes "\<And>x s. heap (f x s) = heap s" and "ring (heap s) h xs"
  shows "Head_ForEachPrev heap f h s = Some (fold f (rev xs) s)"
  unfolding Head_ForEachPrev_def
  using assms(2) ring_ends(2)[OF assms(2)] by (intro ForEachPrev_loop_fold[where r = "[h]"] assms(1)) (auto simp: ring_def)

section \<open>The interface the time wheel relies on\<close>

text \<open>
  Lists threaded through the heap: pushing an element, deleting one, and moving a whole list
  to another head change the lists involved as expected and leave disjoint lists alone.
\<close>

locale intrusive_list =
  fixes rep :: "'h \<Rightarrow> ptr \<Rightarrow> ptr list \<Rightarrow> bool"
    and push :: "ptr \<Rightarrow> ptr \<Rightarrow> 'h \<Rightarrow> 'h"
    and delete :: "ptr \<Rightarrow> ptr \<Rightarrow> 'h \<Rightarrow> 'h"
    and move :: "ptr \<Rightarrow> ptr \<Rightarrow> 'h \<Rightarrow> 'h"
  assumes push_law: "rep H h xs \<Longrightarrow> new \<notin> set (h # xs) \<Longrightarrow> rep (push h new H) h (xs @ [new])"
    and push_frame: "rep H h xs \<Longrightarrow> rep H k ys \<Longrightarrow> set (k # ys) \<inter> set (new # h # xs) = {} \<Longrightarrow>
      new \<notin> set (h # xs) \<Longrightarrow> rep (push h new H) k ys"
    and delete_law: "rep H h (l @ x # r) \<Longrightarrow> rep (delete h x H) h (l @ r)"
    and delete_frame: "rep H h (l @ x # r) \<Longrightarrow> rep H k ys \<Longrightarrow> set (k # ys) \<inter> set (h # l @ r) = {} \<Longrightarrow>
      rep (delete h x H) k ys"
    and move_law: "rep H h xs \<Longrightarrow> new \<notin> set (h # xs) \<Longrightarrow> rep (move h new H) new xs \<and> rep (move h new H) h []"
    and move_frame: "rep H h xs \<Longrightarrow> rep H k ys \<Longrightarrow> set (k # ys) \<inter> set (new # h # xs) = {} \<Longrightarrow>
      new \<notin> set (h # xs) \<Longrightarrow> rep (move h new H) k ys"
begin

text \<open>Pushing an element and deleting it again restores the list.\<close>

lemma push_delete:
  assumes "rep H h xs" and "new \<notin> set (h # xs)"
  shows "rep (delete h new (push h new H)) h xs"
  using delete_law[of "push h new H" h xs new "[]"] push_law[OF assms] by simp

text \<open>Pushing a sequence of elements appends them in order.\<close>

lemma push_all:
  assumes "rep H h xs" and "distinct ys" and "set ys \<inter> set (h # xs) = {}"
  shows "rep (fold (push h) ys H) h (xs @ ys)"
  using assms
proof (induction ys arbitrary: H xs)
  case (Cons y ys)
  have "rep (push h y H) h (xs @ [y])" using Cons.prems by (intro push_law) auto
  then have "rep (fold (push h) ys (push h y H)) h ((xs @ [y]) @ ys)"
    using Cons.prems by (intro Cons.IH) auto
  then show ?case by simp
qed simp

end

interpretation il: intrusive_list dlist Head_AddTail Head_Del Head_ReplaceInit
proof
  fix H h xs k ys new
  assume d: "dlist H h xs" and e: "dlist H k ys" and s: "set (k # ys) \<inter> set (new # h # xs) = {}"
    and n: "new \<notin> set (h # xs)"
  show "dlist (Head_AddTail h new H) k ys"
    using s by (intro dlist_cong[THEN iffD2, OF _ e] Head_AddTail_ok(2)[OF d n]) blast
  show "dlist (Head_ReplaceInit h new H) k ys"
    using s by (intro dlist_cong[THEN iffD2, OF _ e] Head_ReplaceInit_ok(3)[OF d n]) blast
next
  fix H h l x r k ys
  assume d: "dlist H h (l @ x # r)" and e: "dlist H k ys" and s: "set (k # ys) \<inter> set (h # l @ r) = {}"
  show "dlist (Head_Del h x H) k ys"
    using s by (intro dlist_cong[THEN iffD2, OF _ e] Head_Del_ok(2)[OF d]) blast
qed (use Head_AddTail_ok Head_Del_ok Head_ReplaceInit_ok in auto)

section \<open>Properties\<close>

definition two_heads :: heads where
  "two_heads = Head_AddTail 0 2 (Head_AddTail 0 1 (Head_Init 0 (\<lambda>_. \<lparr>Next = 0, Prev = 0, hlen = 0\<rparr>)))"

lemma two_heads: "dlist two_heads 0 [1, 2]"
proof -
  have "dlist (Head_Init 0 (\<lambda>_. \<lparr>Next = 0, Prev = 0, hlen = 0\<rparr>)) 0 []" by (rule ring_Init)
  from il.push_law[OF il.push_law[OF this, of 1], of 2] show ?thesis by (simp add: two_heads_def)
qed

text \<open>
  C35: the five changes of a linked list that add, delete or take over elements refine list
  operations. On a ring that represents \<open>l @ x # r\<close>, adding at either end, deleting the element,
  deleting and re-initialising it and moving the whole list to a new head give rings that represent
  the lists one expects, each with the right length; the length, the test for emptiness and the two
  loops over the elements agree with the list. The wheel changes its lists by these only. The changes
  that reorder a list, \<^verbatim>\<open>Move\<close>, \<^verbatim>\<open>MoveTail\<close> and \<^verbatim>\<open>RotateLeft\<close>, are not among them: they leave a wrong length
  (\<open>RotateLeft_breaks_length\<close>).
\<close>

theorem list_operations_refine:
  assumes "dlist H h (l @ x # r)" and "new \<notin> set (h # l @ x # r)"
  shows "dlist (Head_AddTail h new H) h ((l @ x # r) @ [new])
    \<and> dlist (Head_Add h new H) h (new # l @ x # r)
    \<and> dlist (Head_Del h x H) h (l @ r)
    \<and> dlist (Head_DelInit h x H) h (l @ r) \<and> dlist (Head_DelInit h x H) x []
    \<and> dlist (Head_ReplaceInit h new H) new (l @ x # r) \<and> dlist (Head_ReplaceInit h new H) h []
    \<and> Head_Len h H = int (length (l @ x # r)) \<and> \<not> Head_Empty h H
    \<and> Head_ForEach (\<lambda>(H, vs). H) (\<lambda>p (H, vs). (H, vs @ [p])) h (H, []) = Some (H, l @ x # r)
    \<and> Head_ForEachPrev (\<lambda>(H, vs). H) (\<lambda>p (H, vs). (H, vs @ [p])) h (H, []) = Some (H, rev (l @ x # r))"
proof -
  have collect: "fold (\<lambda>p (H, vs). (H, vs @ [p])) ys (H, zs) = (H, zs @ ys)" for ys zs
    by (induction ys arbitrary: zs) auto
  have rg: "ring H h (l @ x # r)" using assms(1) by (simp add: dlist_def)
  have "Head_ForEach (\<lambda>(H, vs). H) (\<lambda>p (H, vs). (H, vs @ [p])) h (H, []) = Some (H, l @ x # r)"
    using rg by (subst ForEach_fold) (auto simp: collect)
  moreover have "Head_ForEachPrev (\<lambda>(H, vs). H) (\<lambda>p (H, vs). (H, vs @ [p])) h (H, []) = Some (H, rev (l @ x # r))"
    using rg by (subst ForEachPrev_fold) (auto simp: collect)
  moreover have "dlist (Head_Add h new H) h (new # l @ x # r)" using Head_Add_ok(1)[OF assms] by simp
  ultimately show ?thesis
    using il.push_law[OF assms] il.delete_law[OF assms(1)] il.move_law[OF assms] Head_DelInit_ok[OF assms(1)]
      assms(1)
    by (simp add: Head_Len_def Head_Empty_def dlist_def)
qed

theorem list_operations_refine_witness:
  "dlist (Head_Del 0 1 two_heads) 0 [2] \<and> dlist (Head_AddTail 0 3 two_heads) 0 [1, 2, 3]"
  using list_operations_refine[of two_heads 0 "[]" 1 "[2]" 3] two_heads by simp

text \<open>
  Rotating a list breaks its length. \<^verbatim>\<open>RotateLeft\<close> moves the first element to the end, but
  \<^verbatim>\<open>MoveTail\<close> counts the element again without uncounting it, so the length that \<^verbatim>\<open>Len\<close> and \<^verbatim>\<open>Empty\<close>
  report is one too large afterwards.
\<close>

theorem RotateLeft_breaks_length:
  assumes "dlist H h (x # xs)"
  shows "ring (Head_RotateLeft h H) h (xs @ [x]) \<and>
    Head_Len h (Head_RotateLeft h H) = int (length (xs @ [x])) + 1"
proof -
  have d: "ring H h ([] @ x # xs)" "hlen (H h) = int (length (x # xs))" "x \<noteq> h" "x \<notin> set xs"
    using assms by (auto simp: dlist_def ring_def)
  note del = ring_delete[OF d(1)]
  define H1 where "H1 = delEntry x H"
  have H1: "ring H1 h xs" "hlen (H1 h) = int (length (x # xs))"
    using del d(2) by (simp_all add: H1_def delEntry_def)
  let ?H2 = "set_len h (hlen (H1 h) + 1) H1"
  have r2: "ring ?H2 h (xs @ [])" using H1(1) by simp
  have "Prev (H1 h) = before h xs" using ring_ends(2)[OF H1(1)] .
  then have eq: "Head_MoveTail h x H = dl_add x (before h xs) h ?H2"
    by (simp add: Head_MoveTail_def Head_AddTail_def Let_def H1_def)
  have "Next (H h) = x" using ring_ends(1)[OF d(1)] by simp
  then have rot: "Head_RotateLeft h H = Head_MoveTail h x H"
    using d(2) by (simp add: Head_RotateLeft_def Head_Empty_def)
  have "ring (dl_add x (before h xs) h ?H2) h (xs @ [x])"
    using ring_insert[OF r2, of x] d by simp
  then show ?thesis using H1(2) by (simp add: rot eq Head_Len_def)
qed

theorem RotateLeft_breaks_length_witness:
  "ring (Head_RotateLeft 0 two_heads) 0 ([2] @ [1]) \<and>
   Head_Len 0 (Head_RotateLeft 0 two_heads) = int (length [2, 1 :: nat]) + 1"
  using RotateLeft_breaks_length[of two_heads 0 1 "[2]"] two_heads by simp

end
