(* ===== verification/Timewheel.thy ===== *)
theory Timewheel
  imports Headlist
begin

text \<open>
  The hierarchical time wheel of \<^verbatim>\<open>internal/timewheel\<close> (\<^verbatim>\<open>time_wheel.go\<close>, \<^verbatim>\<open>time_wheel_node.go\<close>): five
  levels of slots, each slot an intrusive list of timer nodes on the heap of \<open>Headlist\<close>. A tick
  moves the nodes of the next slots one level down and runs those whose time has come.
\<close>

section \<open>State\<close>

text \<open>
  A node is identified by the address of its embedded \<open>Head\<close>. \<open>callback\<close> names the function to
  run; \<^verbatim>\<open>time.Duration\<close> is a signed 64-bit count of nanoseconds.
\<close>

record timeNode =
  expire :: uint64
  userExpire :: int
  callback :: nat
  stopped :: bool
  node_list :: "ptr option"
  node_version :: uint64
  isSchedule :: bool

text \<open>
  The wheel with the part of the heap it works on: all \<open>Head\<close>s, the versions of the slot heads
  (\<^verbatim>\<open>Time.version\<close>), the nodes and the next free address. \<open>submitted\<close> are the nodes whose callback
  has been handed to the goroutine pool, \<open>cancelled\<close> is the state of the wheel's context.
\<close>

record timeWheel =
  jiffies :: uint64
  curTimePoint :: int
  heads :: heads
  versions :: "ptr \<Rightarrow> uint64"
  nodes :: "ptr \<Rightarrow> timeNode"
  nextPtr :: ptr
  submitted :: "ptr list"
  cancelled :: bool

definition nearShift :: nat where "nearShift = 8"
definition nearSize :: nat where "nearSize = 256"
definition levelShift :: nat where "levelShift = 6"
definition levelSize :: nat where "levelSize = 64"
definition nearMask :: uint64 where "nearMask = 255"
definition levelMask :: uint64 where "levelMask = 63"

lemmas wheel_consts = nearShift_def nearSize_def levelShift_def levelSize_def nearMask_def levelMask_def

text \<open>The addresses of the slot heads \<^verbatim>\<open>t1[i]\<close> and \<^verbatim>\<open>t2Tot5[i][j]\<close>.\<close>

definition t1_head :: "nat \<Rightarrow> ptr" where "t1_head i = i"
definition t2Tot5 :: "nat \<Rightarrow> nat \<Rightarrow> ptr" where "t2Tot5 i j = nearSize + levelSize * i + j"

section \<open>Slots and nodes (time_wheel_node.go)\<close>

definition genVersionHeight :: "uint64 \<Rightarrow> uint64 \<Rightarrow> uint64" where
  "genVersionHeight level index = push_bit 48 level OR push_bit 32 index"

definition newTimeHead :: "ptr \<Rightarrow> uint64 \<Rightarrow> uint64 \<Rightarrow> timeWheel \<Rightarrow> timeWheel" where
  "newTimeHead p level index t =
     t\<lparr>heads := Head_Init p (heads t), versions := (versions t)(p := genVersionHeight level index)\<rparr>"

text \<open>A head that is allocated for the time of an operation.\<close>

definition tempTimeHead :: "timeWheel \<Rightarrow> ptr \<times> timeWheel" where
  "tempTimeHead t = (nextPtr t, newTimeHead (nextPtr t) 0 0 (t\<lparr>nextPtr := Suc (nextPtr t)\<rparr>))"

definition lockPushBack :: "ptr \<Rightarrow> ptr \<Rightarrow> timeWheel \<Rightarrow> timeWheel" where
  "lockPushBack head node t =
     (if stopped (nodes t node) then t
      else t\<lparr>heads := Head_AddTail head node (heads t),
             nodes := (nodes t)(node := (nodes t node)\<lparr>node_list := Some head,
                                                        node_version := versions t head\<rparr>)\<rparr>)"

definition timeNode_Stop :: "ptr \<Rightarrow> timeWheel \<Rightarrow> unit outcome \<times> timeWheel" where
  "timeNode_Stop node t =
     (let t1 = t\<lparr>nodes := (nodes t)(node := (nodes t node)\<lparr>stopped := True\<rparr>)\<rparr>
      in case node_list (nodes t1 node) of
           None \<Rightarrow> (Panic NilDereference, t1)
         | Some cpyList \<Rightarrow>
             (if node_version (nodes t1 node) \<noteq> versions t1 cpyList then (Ok (), t1)
              else (Ok (), t1\<lparr>heads := Head_Del cpyList node (heads t1)\<rparr>)))"

section \<open>The wheel (time_wheel.go)\<close>

definition timeWheel_init :: "int \<Rightarrow> timeWheel \<Rightarrow> timeWheel" where
  "timeWheel_init now10ms t =
     (let t = fold (\<lambda>i. newTimeHead (t1_head i) 1 (of_nat i)) [0..<nearSize] t;
          t = fold (\<lambda>i. fold (\<lambda>j. newTimeHead (t2Tot5 i j) (of_nat (i + 2)) (of_nat j)) [0..<levelSize]) [0..<4] t
      in t\<lparr>curTimePoint := now10ms\<rparr>)"

definition newTimeWheel :: "int \<Rightarrow> timeWheel" where
  "newTimeWheel now10ms =
     timeWheel_init now10ms
       \<lparr>jiffies = 0, curTimePoint = 0, heads = (\<lambda>_. \<lparr>Next = 0, Prev = 0, hlen = 0\<rparr>), versions = (\<lambda>_. 0),
        nodes = (\<lambda>_. \<lparr>expire = 0, userExpire = 0, callback = 0, stopped = False, node_list = None,
                       node_version = 0, isSchedule = False\<rparr>),
        nextPtr = nearSize + 4 * levelSize, submitted = [], cancelled = False\<rparr>"

definition maxVal :: uint64 where
  "maxVal = push_bit (nearShift + 4 * levelShift) 1 - 1"

definition levelMax :: "nat \<Rightarrow> uint64" where
  "levelMax index = push_bit (nearShift + index * levelShift) 1"

definition timeWheel_index :: "nat \<Rightarrow> timeWheel \<Rightarrow> uint64" where
  "timeWheel_index n t = drop_bit (nearShift + levelShift * n) (jiffies t) AND levelMask"

text \<open>The loop of \<open>add\<close> over the four upper levels: slot, level and index, if one is found.\<close>

function add_level :: "uint64 \<Rightarrow> nat \<Rightarrow> uint64 \<Rightarrow> uint64 \<Rightarrow> (ptr \<times> uint64 \<times> uint64) option" where
  "add_level jif i idx ex =
     (if i \<le> 3 then
        (let idx' = (if maxVal < idx then maxVal else idx);
             ex' = (if maxVal < idx then idx' + jif else ex)
         in if idx' < levelMax (i + 1) then
              (let index = drop_bit (nearShift + i * levelShift) ex' AND levelMask
               in Some (t2Tot5 i (unat index), of_nat i + 2, index))
            else add_level jif (i + 1) idx' ex')
      else None)"
  by pat_completeness auto
termination by (relation "measure (\<lambda>(jif, i, idx, ex). 4 - i)") auto

declare add_level.simps [simp del]

definition add_slot :: "uint64 \<Rightarrow> uint64 \<Rightarrow> (ptr \<times> uint64 \<times> uint64) option" where
  "add_slot ex jif =
     (let idx = ex - jif
      in if idx < of_nat nearSize
         then (let index = ex AND nearMask in Some (t1_head (unat index), 1, index))
         else add_level jif 0 idx ex)"

definition timeWheel_add :: "ptr \<Rightarrow> uint64 \<Rightarrow> timeWheel \<Rightarrow> unit outcome \<times> timeWheel" where
  "timeWheel_add node jif t =
     (case add_slot (expire (nodes t node)) jif of
        None \<Rightarrow> (Panic (InvalidArgument ''not found head''), t)
      | Some (head, level, index) \<Rightarrow> (Ok (), lockPushBack head node t))"

text \<open>Go's integer division truncates; a tick is 10 ms.\<close>

definition ticks :: "int \<Rightarrow> int" where
  "ticks d = (if 0 \<le> d then d div 10000000 else - (- d div 10000000))"

definition getExpire :: "int \<Rightarrow> uint64 \<Rightarrow> uint64" where
  "getExpire d jif = of_int (ticks d) + jif"

definition newNode :: "timeNode \<Rightarrow> timeWheel \<Rightarrow> ptr \<times> timeWheel" where
  "newNode n t = (nextPtr t, t\<lparr>nodes := (nodes t)(nextPtr t := n), nextPtr := Suc (nextPtr t)\<rparr>)"

definition AfterFunc :: "int \<Rightarrow> nat \<Rightarrow> timeWheel \<Rightarrow> ptr outcome \<times> timeWheel" where
  "AfterFunc d cb t =
     (let jif = jiffies t;
          (node, t1) = newNode \<lparr>expire = getExpire d jif, userExpire = 0, callback = cb,
                                stopped = False, node_list = None, node_version = 0,
                                isSchedule = False\<rparr> t
      in and_then (timeWheel_add node jif t1) (\<lambda>_ t2. (Ok node, t2)))"

definition ScheduleFunc :: "int \<Rightarrow> nat \<Rightarrow> timeWheel \<Rightarrow> ptr outcome \<times> timeWheel" where
  "ScheduleFunc d cb t =
     (let jif = jiffies t;
          (node, t1) = newNode \<lparr>expire = getExpire d jif, userExpire = d, callback = cb,
                                stopped = False, node_list = None, node_version = 0,
                                isSchedule = True\<rparr> t
      in and_then (timeWheel_add node jif t1) (\<lambda>_ t2. (Ok node, t2)))"

definition timeWheel_Stop :: "timeWheel \<Rightarrow> timeWheel" where
  "timeWheel_Stop t = t\<lparr>cancelled := True\<rparr>"

text \<open>
  A traversal whose function may panic: the outcome is part of the state, and after a panic
  nothing more happens. A traversal that never ends is \<open>Hang\<close>.
\<close>

definition traverse ::
    "(ptr \<Rightarrow> timeWheel \<Rightarrow> unit outcome \<times> timeWheel) \<Rightarrow> ptr \<Rightarrow> timeWheel \<Rightarrow> unit outcome \<times> timeWheel" where
  "traverse f h t =
     (case Head_ForEachSafe (heads \<circ> snd) (\<lambda>p s. and_then s (\<lambda>_ t. f p t)) h (Ok (), t) of
        None \<Rightarrow> (Hang, t)
      | Some s \<Rightarrow> s)"

definition cascade :: "nat \<Rightarrow> nat \<Rightarrow> timeWheel \<Rightarrow> unit outcome \<times> timeWheel" where
  "cascade levelIndex index t =
     (let (tmp, t1) = tempTimeHead t;
          l = t2Tot5 levelIndex index
      in if Head_Len l (heads t1) = 0 then (Ok (), t1)
         else traverse (\<lambda>pos t. timeWheel_add pos (jiffies t) t) tmp
                (t1\<lparr>heads := Head_ReplaceInit l tmp (heads t1),
                    versions := (versions t1)(l := versions t1 l + 1)\<rparr>))"

function cascade_loop :: "nat \<Rightarrow> timeWheel \<Rightarrow> unit outcome \<times> timeWheel" where
  "cascade_loop i t =
     (if i \<le> 3 then
        (let index2 = timeWheel_index i t
         in and_then (cascade i (unat index2) t)
              (\<lambda>_ t'. if index2 \<noteq> 0 then (Ok (), t') else cascade_loop (i + 1) t'))
      else (Ok (), t))"
  by pat_completeness auto
termination by (relation "measure (\<lambda>(i, t). 4 - i)") auto

declare cascade_loop.simps [simp del]

text \<open>What \<open>moveAndExec\<close> does with every node of the slot whose time has come.\<close>

definition exec_node :: "ptr \<Rightarrow> ptr \<Rightarrow> timeWheel \<Rightarrow> unit outcome \<times> timeWheel" where
  "exec_node head pos t =
     (let t1 = t\<lparr>heads := Head_Del head pos (heads t)\<rparr>;
          val = nodes t1 pos
      in if stopped val then (Ok (), t1)
         else
           let t2 = t1\<lparr>submitted := submitted t1 @ [pos]\<rparr>
           in if isSchedule val then
                (let jif = jiffies t2;
                     t3 = t2\<lparr>nodes := (nodes t2)(pos := val\<lparr>expire := getExpire (userExpire val) (jif - 1)\<rparr>)\<rparr>
                 in timeWheel_add pos jif t3)
              else (Ok (), t2))"

definition moveAndExec :: "timeWheel \<Rightarrow> unit outcome \<times> timeWheel" where
  "moveAndExec t =
     (let index = jiffies t AND nearMask
      in and_then (if index = 0 then cascade_loop 0 t else (Ok (), t)) (\<lambda>_ t1.
           let t2 = t1\<lparr>jiffies := jiffies t1 + 1\<rparr>;
               l = t1_head (unat index)
           in if Head_Len l (heads t2) = 0 then (Ok (), t2)
              else
                let (head, t3) = tempTimeHead t2;
                    t4 = t3\<lparr>heads := Head_ReplaceInit l head (heads t3),
                            versions := (versions t3)(l := versions t3 l + 1)\<rparr>
                in traverse (exec_node head) head t4))"

primrec moveAndExec_times :: "nat \<Rightarrow> timeWheel \<Rightarrow> unit outcome \<times> timeWheel" where
  "moveAndExec_times 0 t = (Ok (), t)"
| "moveAndExec_times (Suc n) t = and_then (moveAndExec t) (\<lambda>_ t'. moveAndExec_times n t')"

definition timeWheel_run :: "int \<Rightarrow> timeWheel \<Rightarrow> unit outcome \<times> timeWheel" where
  "timeWheel_run ms10 t =
     (if ms10 < curTimePoint t then (Ok (), t\<lparr>curTimePoint := ms10\<rparr>)
      else moveAndExec_times (nat (ms10 - curTimePoint t)) (t\<lparr>curTimePoint := ms10\<rparr>))"

text \<open>
  The loop of \<open>Run\<close>: a tick of the ticker, with the clock reading it leads to, or the cancellation
  of the context. The list of events is what the loop has received so far.
\<close>

definition go_div :: "int \<Rightarrow> int \<Rightarrow> int" where
  "go_div a b = (if 0 \<le> a then a div b else - (- a div b))"

definition get10Ms :: "int \<Rightarrow> int" where
  "get10Ms unixNano = go_div (go_div unixNano 1000000) 10"

datatype runEvent = TickerC int | CtxDone

fun timeWheel_Run :: "runEvent list \<Rightarrow> timeWheel \<Rightarrow> unit outcome \<times> timeWheel" where
  "timeWheel_Run [] t = (Ok (), t)"
| "timeWheel_Run (TickerC unixNano # es) t =
     and_then (timeWheel_run (get10Ms unixNano) t) (\<lambda>_ t'. timeWheel_Run es t')"
| "timeWheel_Run (CtxDone # es) t = (Ok (), t)"

end
