(* ===== verification/Keepalive.thy ===== *)
theory Keepalive
  imports ChannelLife Timewheel
begin

text \<open>
  Keepalive (\<^verbatim>\<open>keepalive/keepalive.go\<close>, \<^verbatim>\<open>internal/keepalive/keepliave.go\<close>): the parameters and their
  defaults, the middleware that answers keepalive messages, and the keeper of a channel, which
  watches its idle time, its age and its health with timers.

  A duration is a signed 64-bit number of nanoseconds. A request to the timer is a pair of the
  time it is due and the function to run; that the time wheel keeps such promises is what
  \<open>KeeperWheel\<close> shows.
\<close>

section \<open>Parameters (keepalive/keepalive.go)\<close>

record 'v HealthParams =
  Time :: int
  Timeout :: int
  Ping :: "'v message"
  PingRecognizer :: "('v message \<Rightarrow> bool) option"
  Pong :: "'v message"
  PongRecognizer :: "('v message \<Rightarrow> bool) option"

record 'v GoAwayParams =
  GoAway :: "'v message"
  GoAwayRecognizer :: "('v message \<Rightarrow> bool) option"

record 'v ServerParameters =
  MaxChannelIdleTime :: int
  MaxChannelAge :: int
  CloseGrace :: int
  healthParams :: "'v HealthParams option"
  goAwayParams :: "'v GoAwayParams option"

section \<open>Keepalive messages\<close>

definition PingBody :: bytes where "PingBody = str ''Ping''"
definition PongBody :: bytes where "PongBody = str ''Pong''"
definition GoAwayBody :: bytes where "GoAwayBody = str ''Go Away''"

fun defaultPingRecognizer :: "'v message \<Rightarrow> bool" where
  "defaultPingRecognizer (LessMsg lm) = (MsgType lm = Call \<and> Body lm = PingBody)"
| "defaultPingRecognizer _ = False"

fun defaultPongRecognizer :: "'v message \<Rightarrow> bool" where
  "defaultPongRecognizer (LessMsg lm) = (MsgType lm = Reply \<and> Body lm = PongBody)"
| "defaultPongRecognizer _ = False"

fun defaultGoAwayRecognizer :: "'v message \<Rightarrow> bool" where
  "defaultGoAwayRecognizer (LessMsg lm) = (MsgType lm = Oneway \<and> Body lm = GoAwayBody)"
| "defaultGoAwayRecognizer _ = False"

definition second :: int where "second = 1000000000"
definition defaultCloseGrace :: int where "defaultCloseGrace = 5 * second"
definition defaultTimeout :: int where "defaultTimeout = 10 * second"

definition wrap64 :: "int \<Rightarrow> int" where
  "wrap64 x = (x + 2 ^ 63) mod 2 ^ 64 - 2 ^ 63"

text \<open>\<open>rnd n\<close> is the pseudo-random number that \<^verbatim>\<open>Int63n(n)\<close> returns; it panics unless \<open>n\<close> is positive.\<close>

definition getJitter :: "(int \<Rightarrow> int) \<Rightarrow> int \<Rightarrow> int outcome" where
  "getJitter rnd v =
     (let r = go_div v 10
      in if 2 * r \<le> 0 then Panic (InvalidArgument ''invalid argument to Int63n'') else Ok (rnd (2 * r) - r))"

definition consummate_health :: "'v HealthParams \<Rightarrow> 'v HealthParams" where
  "consummate_health hp =
     (if 0 < Time hp then
        (let hp1 = (if 0 < Time hp \<and> Time hp < second then hp\<lparr>Time := second\<rparr> else hp);
             hp2 = (if Timeout hp1 \<le> 0 then hp1\<lparr>Timeout := defaultTimeout\<rparr> else hp1)
         in case Ping hp2 of
              KeepalivePing \<Rightarrow>
                hp2\<lparr>Ping := LessMsg (NewMessage Call PingBody), Pong := LessMsg (NewMessage Reply PongBody),
                    PingRecognizer := Some defaultPingRecognizer, PongRecognizer := Some defaultPongRecognizer\<rparr>
            | _ \<Rightarrow> hp2)
      else hp)"

definition consummate_goaway :: "'v GoAwayParams \<Rightarrow> 'v GoAwayParams" where
  "consummate_goaway gp =
     (case GoAway gp of
        KeepaliveGoAway \<Rightarrow>
          gp\<lparr>GoAway := LessMsg (NewMessage Oneway GoAwayBody), GoAwayRecognizer := Some defaultGoAwayRecognizer\<rparr>
      | _ \<Rightarrow> gp)"

definition ConsummateKeepaliveParams :: "(int \<Rightarrow> int) \<Rightarrow> 'v ServerParameters \<Rightarrow> 'v ServerParameters outcome" where
  "ConsummateKeepaliveParams rnd kp =
     fst (and_then (if 0 < MaxChannelAge kp
                    then and_then (getJitter rnd (MaxChannelAge kp), ()) (\<lambda>j _. (Ok (wrap64 (MaxChannelAge kp + j)), ()))
                    else (Ok (MaxChannelAge kp), ()))
       (\<lambda>age _.
          (Ok (kp\<lparr>MaxChannelAge := age,
                 CloseGrace := (if CloseGrace kp \<le> 0 then defaultCloseGrace else CloseGrace kp),
                 healthParams := map_option consummate_health (healthParams kp),
                 goAwayParams := map_option consummate_goaway (goAwayParams kp)\<rparr>), ())))"

section \<open>Keepers\<close>

datatype timerFn = IdleFn nat | AgeFn nat | HealthFn nat | GraceFn chid go_error int

record 'v Keeper =
  kp :: "'v ServerParameters"
  k_ch :: chid
  k_done :: bool
  lastPing :: int
  lastPong :: int

record 'v ka_sys = "'v chan_sys" +
  keepers :: "nat \<Rightarrow> 'v Keeper"
  nextKeeper :: nat
  timers :: "(int \<times> timerFn) list"
  nextCtx :: nat

definition upd_k :: "nat \<Rightarrow> ('v Keeper \<Rightarrow> 'v Keeper) \<Rightarrow> ('v, 'z) ka_sys_scheme \<Rightarrow> ('v, 'z) ka_sys_scheme" where
  "upd_k k f s = s\<lparr>keepers := (keepers s)(k := f (keepers s k))\<rparr>"

definition Timer_AfterFunc :: "int \<Rightarrow> timerFn \<Rightarrow> ('v, 'z) ka_sys_scheme \<Rightarrow> ('v, 'z) ka_sys_scheme" where
  "Timer_AfterFunc d fn s = s\<lparr>timers := timers s @ [(clock s + d, fn)]\<rparr>"

definition NewKeeper :: "'v ServerParameters \<Rightarrow> chid \<Rightarrow> ('v, 'z) ka_sys_scheme \<Rightarrow> nat \<times> ('v, 'z) ka_sys_scheme" where
  "NewKeeper p c s =
     (nextKeeper s,
      s\<lparr>keepers := (keepers s)(nextKeeper s := \<lparr>kp = p, k_ch = c, k_done = False, lastPing = 0, lastPong = 0\<rparr>),
        nextKeeper := nextKeeper s + 1\<rparr>)"

definition Keeper_Close :: "nat \<Rightarrow> ('v, 'z) ka_sys_scheme \<Rightarrow> ('v, 'z) ka_sys_scheme" where
  "Keeper_Close k = upd_k k (\<lambda>kr. kr\<lparr>k_done := True\<rparr>)"

text \<open>
  Closing with a timeout: the context is cancelled when the function returns, right after \<open>Close\<close>
  has started its goroutine.
\<close>

definition close_with_timeout :: "chid \<Rightarrow> go_error \<Rightarrow> ('v, 'z) ka_sys_scheme \<Rightarrow> ('v, 'z) ka_sys_scheme" where
  "close_with_timeout c err s =
     (let x = WithTimeout (nextCtx s);
          s2 = snd (channel_Close x (Some err) c (s\<lparr>nextCtx := nextCtx s + 1\<rparr>))
      in s2\<lparr>ctxDone := (ctxDone s2)(x := True)\<rparr>)"

definition stopChannel :: "nat \<Rightarrow> go_error \<Rightarrow> ('v, 'z) ka_sys_scheme \<Rightarrow> ('v, 'z) ka_sys_scheme" where
  "stopChannel k err s =
     (if k_done (keepers s k) then s
      else close_with_timeout (k_ch (keepers s k)) err (upd_k k (\<lambda>kr. kr\<lparr>k_done := True\<rparr>) s))"

definition goAwayChannel ::
    "(outHandler \<Rightarrow> ('v, ('v, 'z) ka_sys_scheme) Handler) \<Rightarrow> nat \<Rightarrow> go_error \<Rightarrow>
     ('v, 'z) ka_sys_scheme \<Rightarrow> unit outcome \<times> ('v, 'z) ka_sys_scheme" where
  "goAwayChannel oh k err s =
     (let c = k_ch (keepers s k); params = goAwayParams (kp (keepers s k)); grace = CloseGrace (kp (keepers s k))
      in if Side (chans s c) = Server \<and> params \<noteq> None \<and> GoAway (the params) \<noteq> NilMsg then
           (case WriteDirectly oh (GoAway (the params)) c s of
              (Ok _, s1) \<Rightarrow> (Ok (), Timer_AfterFunc grace (GraceFn c err grace) s1)
            | (Err e, s1) \<Rightarrow> (Ok (), Timer_AfterFunc grace (GraceFn c err grace) (stopChannel k err s1))
            | (out, s1) \<Rightarrow> (out, s1))
         else (Ok (), stopChannel k err s))"

definition grace_fn :: "chid \<Rightarrow> go_error \<Rightarrow> ('v, 'z) ka_sys_scheme \<Rightarrow> ('v, 'z) ka_sys_scheme" where
  "grace_fn c err s = (if channel_IsActive c s then close_with_timeout c err s else s)"

definition sendPing ::
    "(outHandler \<Rightarrow> ('v, ('v, 'z) ka_sys_scheme) Handler) \<Rightarrow> nat \<Rightarrow>
     ('v, 'z) ka_sys_scheme \<Rightarrow> bool outcome \<times> ('v, 'z) ka_sys_scheme" where
  "sendPing oh k s =
     (case healthParams (kp (keepers s k)) of
        None \<Rightarrow> (Panic NilDereference, s)
      | Some hp \<Rightarrow>
          (if Ping hp = NilMsg \<or> Pong hp = NilMsg \<or> PingRecognizer hp = None \<or> PongRecognizer hp = None then (Ok False, s)
           else case WriteDirectly oh (Ping hp) (k_ch (keepers s k)) s of
                  (Ok _, s1) \<Rightarrow> (Ok True, s1)
                | (Err _, s1) \<Rightarrow> (Ok False, s1)
                | (Panic p, s1) \<Rightarrow> (Panic p, s1)
                | (Hang, s1) \<Rightarrow> (Hang, s1)))"

text \<open>The three functions the keeper gives to the timer.\<close>

definition idle_fn ::
    "(outHandler \<Rightarrow> ('v, ('v, 'z) ka_sys_scheme) Handler) \<Rightarrow> nat \<Rightarrow>
     ('v, 'z) ka_sys_scheme \<Rightarrow> unit outcome \<times> ('v, 'z) ka_sys_scheme" where
  "idle_fn oh k s =
     (let kr = keepers s k; mx = MaxChannelIdleTime (kp kr)
      in if k_done kr then (Ok (), s)
         else case IdleTime (chans s (k_ch kr)) of
                None \<Rightarrow> (Ok (), Timer_AfterFunc mx (IdleFn k) s)
              | Some t \<Rightarrow>
                  (let interval = mx - (clock s - t)
                   in if interval \<le> 0 then goAwayChannel oh k (ErrMsg ''closing channel due to maximum idle time'') s
                      else (Ok (), Timer_AfterFunc interval (IdleFn k) s)))"

definition age_fn ::
    "(outHandler \<Rightarrow> ('v, ('v, 'z) ka_sys_scheme) Handler) \<Rightarrow> nat \<Rightarrow>
     ('v, 'z) ka_sys_scheme \<Rightarrow> unit outcome \<times> ('v, 'z) ka_sys_scheme" where
  "age_fn oh k s =
     (if k_done (keepers s k) then (Ok (), s)
      else goAwayChannel oh k (ErrMsg ''closing channel due to maximum Keepalive age'') s)"

definition health_fn ::
    "(outHandler \<Rightarrow> ('v, ('v, 'z) ka_sys_scheme) Handler) \<Rightarrow> 'v HealthParams \<Rightarrow> nat \<Rightarrow>
     ('v, 'z) ka_sys_scheme \<Rightarrow> unit outcome \<times> ('v, 'z) ka_sys_scheme" where
  "health_fn oh hp k s =
     (let kr = keepers s k; ch = chans s (k_ch kr)
      in if k_done kr then (Ok (), s)
         else if \<not> Readable ch then (Ok (), s)
         else
           let internal = clock s - LastRead ch
           in if internal < Time hp then (Ok (), Timer_AfterFunc (Time hp - internal) (HealthFn k) s)
              else if lastPing kr > lastPong kr then
                (let pingElapsed = clock s - lastPing kr
                 in if Timeout hp \<le> pingElapsed
                    then (Ok (), stopChannel k (ErrMsg ''closing channel due to ping timeout'') s)
                    else (Ok (), Timer_AfterFunc (Timeout hp - pingElapsed) (HealthFn k) s))
              else and_then (sendPing oh k s) (\<lambda>ok s1.
                if ok then (Ok (), Timer_AfterFunc (Timeout hp) (HealthFn k) (upd_k k (\<lambda>kr. kr\<lparr>lastPing := clock s1\<rparr>) s1))
                else (Ok (), stopChannel k (ErrMsg ''closing channel due to pings failed'') s1)))"

definition Keeper_Keepalive :: "nat \<Rightarrow> ('v, 'z) ka_sys_scheme \<Rightarrow> ('v, 'z) ka_sys_scheme" where
  "Keeper_Keepalive k s =
     (let p = kp (keepers s k); sd = Side (chans s (k_ch (keepers s k)));
          s1 = (if sd = Server \<and> 0 < MaxChannelIdleTime p then Timer_AfterFunc (MaxChannelIdleTime p) (IdleFn k) s else s);
          s2 = (if sd = Server \<and> 0 < MaxChannelAge p then Timer_AfterFunc (MaxChannelAge p) (AgeFn k) s1 else s1)
      in case healthParams p of
           Some hp \<Rightarrow> (if 0 < Time hp then Timer_AfterFunc (Time hp) (HealthFn k) s2 else s2)
         | None \<Rightarrow> s2)"

text \<open>What the timer runs when a request is due.\<close>

definition run_timer ::
    "(outHandler \<Rightarrow> ('v, ('v, 'z) ka_sys_scheme) Handler) \<Rightarrow> timerFn \<Rightarrow>
     ('v, 'z) ka_sys_scheme \<Rightarrow> unit outcome \<times> ('v, 'z) ka_sys_scheme" where
  "run_timer oh fn s =
     (case fn of
        IdleFn k \<Rightarrow> idle_fn oh k s
      | AgeFn k \<Rightarrow> age_fn oh k s
      | HealthFn k \<Rightarrow> (case healthParams (kp (keepers s k)) of
                        None \<Rightarrow> (Panic NilDereference, s) | Some hp \<Rightarrow> health_fn oh hp k s)
      | GraceFn c err grace \<Rightarrow> (Ok (), grace_fn c err s))"

section \<open>The middleware\<close>

definition recognizes :: "('v message \<Rightarrow> bool) option \<Rightarrow> 'v message \<Rightarrow> bool" where
  "recognizes r m = (case r of None \<Rightarrow> False | Some f \<Rightarrow> f m)"

definition KeepaliveMiddleware ::
    "(chid \<Rightarrow> ('v, 'z) ka_sys_scheme \<Rightarrow> nat option outcome) \<Rightarrow>
     (outMw \<Rightarrow> ('v, ('v, 'z) ka_sys_scheme) Middleware) \<Rightarrow> (outHandler \<Rightarrow> ('v, ('v, 'z) ka_sys_scheme) Handler) \<Rightarrow>
     ('v, ('v, 'z) ka_sys_scheme) Middleware" where
  "KeepaliveMiddleware kgetter omw oh handler x c m s =
     and_then (kgetter c s, s) (\<lambda>ko s.
       case ko of
         None \<Rightarrow> handler x c m s
       | Some k \<Rightarrow>
           (let p = kp (keepers s k); health = healthParams p; away = goAwayParams p
            in if health \<noteq> None \<and> recognizes (PingRecognizer (the health)) m
               then channel_Write omw oh c (Pong (the health)) s
               else if health \<noteq> None \<and> recognizes (PongRecognizer (the health)) m
               then (Ok (), upd_k k (\<lambda>kr. kr\<lparr>lastPong := clock s\<rparr>) s)
               else if away \<noteq> None \<and> recognizes (GoAwayRecognizer (the away)) m
               then (Ok (), snd (channel_Close Background
                       (Some (ErrMsg ''closing channel due to received a go away message'')) c s))
               else handler x c m s))"

end
