(* ===== verification/KeepaliveProps.thy ===== *)
theory KeepaliveProps
  imports Keepalive
begin

text \<open>
  Properties of keepalive: the parameters that are used, the detection of a dead peer, and the
  messages that the middleware takes out of the inbound pipeline.
\<close>

section \<open>Parameters\<close>

lemma go_div_pos: "0 \<le> v \<Longrightarrow> go_div v 10 = v div 10"
  by (simp add: go_div_def)

lemma wrap64_id: "- (2 ^ 63) \<le> x \<Longrightarrow> x < 2 ^ 63 \<Longrightarrow> wrap64 x = x"
  by (simp add: wrap64_def)

text \<open>The jitter is at most a tenth, when there is one.\<close>

lemma getJitter_bounds:
  assumes "0 < v" and "\<And>n. 0 < n \<Longrightarrow> 0 \<le> rnd n \<and> rnd n < n"
  shows "getJitter rnd v = (if v < 10 then Panic (InvalidArgument ''invalid argument to Int63n'')
      else Ok (rnd (2 * (v div 10)) - v div 10))"
    and "10 \<le> v \<Longrightarrow> - (v div 10) \<le> rnd (2 * (v div 10)) - v div 10 \<and> rnd (2 * (v div 10)) - v div 10 < v div 10"
proof -
  show "getJitter rnd v = (if v < 10 then Panic (InvalidArgument ''invalid argument to Int63n'')
      else Ok (rnd (2 * (v div 10)) - v div 10))"
    using assms(1) by (auto simp: getJitter_def Let_def go_div_pos)
  show "- (v div 10) \<le> rnd (2 * (v div 10)) - v div 10 \<and> rnd (2 * (v div 10)) - v div 10 < v div 10" if "10 \<le> v"
    using assms(2)[of "2 * (v div 10)"] that by auto
qed

text \<open>The parameters a keeper can work with.\<close>

definition usable_health :: "'v HealthParams \<Rightarrow> bool" where
  "usable_health hp \<longleftrightarrow> 0 < Time hp \<longrightarrow> second \<le> Time hp \<and> 0 < Timeout hp \<and> Ping hp \<noteq> KeepalivePing"

lemma consummate_health_usable: "usable_health (consummate_health hp)"
  by (auto simp: usable_health_def consummate_health_def Let_def second_def defaultTimeout_def split: message.split)

text \<open>
  C38: the parameters are put right. With a pseudo-random generator that keeps its bounds, the
  maximal age stays within a tenth of what was asked for (and cannot overflow below \<open>2 ^ 62\<close>), the
  grace period and the timeout are positive, the time between pings is at least a second and the
  placeholder for a ping message is replaced; the one value that makes it panic is a maximal age of
  less than 10 nanoseconds.
\<close>

theorem keepalive_params_consummated:
  assumes "\<And>n. 0 < n \<Longrightarrow> 0 \<le> rnd n \<and> rnd n < n" and "MaxChannelAge p < 2 ^ 62"
  shows "if 0 < MaxChannelAge p \<and> MaxChannelAge p < 10
    then ConsummateKeepaliveParams rnd p = Panic (InvalidArgument ''invalid argument to Int63n'')
    else \<exists>q. ConsummateKeepaliveParams rnd p = Ok q \<and> 0 < CloseGrace q \<and>
      MaxChannelIdleTime q = MaxChannelIdleTime p \<and> (MaxChannelAge q > 0 \<longleftrightarrow> MaxChannelAge p > 0) \<and>
      \<bar>MaxChannelAge q - MaxChannelAge p\<bar> \<le> \<bar>MaxChannelAge p\<bar> div 10 \<and>
      (case healthParams q of None \<Rightarrow> healthParams p = None | Some hp \<Rightarrow> usable_health hp)"
proof (cases "0 < MaxChannelAge p \<and> 10 \<le> MaxChannelAge p")
  case True
  let ?v = "MaxChannelAge p" and ?j = "rnd (2 * (MaxChannelAge p div 10)) - MaxChannelAge p div 10"
  have j: "getJitter rnd ?v = Ok ?j" using getJitter_bounds(1)[of ?v rnd] assms(1) True by simp
  have b: "- (?v div 10) \<le> ?j" "?j < ?v div 10" using getJitter_bounds(2)[of ?v rnd] assms(1) True by simp_all
  have d: "0 \<le> ?v div 10" "?v div 10 < ?v" using True int_div_less_self[of ?v 10] by (simp_all add: pos_imp_zdiv_nonneg_iff)
  have "(2 :: int) ^ 63 = 2 * 2 ^ 62" "(0 :: int) \<le> 2 ^ 62" by simp_all
  with b d assms(2) have "- (2 ^ 63) \<le> ?v + ?j" "?v + ?j < 2 ^ 63" by linarith+
  then have "wrap64 (?v + ?j) = ?v + ?j" by (rule wrap64_id)
  moreover have "0 < ?v + ?j" using b d by linarith
  moreover have "\<bar>?j\<bar> \<le> \<bar>?v\<bar> div 10" using b d True by simp
  ultimately show ?thesis
    using True j consummate_health_usable
    by (auto simp: ConsummateKeepaliveParams_def defaultCloseGrace_def second_def split: option.split)
next
  case False
  then show ?thesis
    using consummate_health_usable getJitter_bounds(1)[of "MaxChannelAge p" rnd] assms(1)
    by (auto simp: ConsummateKeepaliveParams_def defaultCloseGrace_def second_def split: option.split)
qed

theorem keepalive_params_consummated_witness:
  "\<exists>q. ConsummateKeepaliveParams (\<lambda>n. n - 1) \<lparr>MaxChannelIdleTime = 0, MaxChannelAge = 100, CloseGrace = 0,
      healthParams = Some \<lparr>Time = 5, Timeout = 0, Ping = KeepalivePing :: unit message, PingRecognizer = None, Pong = NilMsg,
        PongRecognizer = None\<rparr>, goAwayParams = None\<rparr> = Ok q \<and> 0 < CloseGrace q \<and> \<bar>MaxChannelAge q - 100\<bar> \<le> 10"
  using keepalive_params_consummated[of "\<lambda>n. n - 1" "\<lparr>MaxChannelIdleTime = 0, MaxChannelAge = 100, CloseGrace = 0,
      healthParams = Some \<lparr>Time = 5, Timeout = 0, Ping = KeepalivePing :: unit message, PingRecognizer = None, Pong = NilMsg,
        PongRecognizer = None\<rparr>, goAwayParams = None\<rparr>"] by auto

section \<open>Health\<close>

lemma stopChannel_stops:
  assumes "\<not> k_done (keepers s k)" and "ch_state (chans s (k_ch (keepers s k))) \<noteq> inactive"
  shows "k_done (keepers (stopChannel k err s) k)"
    and "ch_state (chans (stopChannel k err s) (k_ch (keepers s k))) = inactive"
    and "tasks (stopChannel k err s) = tasks s @ [CloseWaitRead (k_ch (keepers s k)) (WithTimeout (nextCtx s)) (Some err)]"
  using assms
  by (simp_all add: stopChannel_def close_with_timeout_def Let_def channel_Close_def channel_close_def inactive_def
      upd_k_def upd_ch_def Submit_def)

lemma Readable_active: "Readable ch \<Longrightarrow> ch_state ch \<noteq> inactive"
  by (auto simp: Readable_def calState_def state_defs)

text \<open>
  A dead peer is detected. When a channel has been silent for \<^verbatim>\<open>Time\<close> and no ping is outstanding, a
  ping is sent and the check is asked for again after \<^verbatim>\<open>Timeout\<close>. When that check comes and neither
  a message nor a pong has arrived, the keeper stops and closes the channel; had a pong arrived, it
  would ping again.
\<close>

theorem dead_peer_detected:
  assumes "\<not> k_done (keepers s k)" and "k_ch (keepers s k) = c" and "Readable (chans s c)"
    and "Time hp \<le> clock s - LastRead (chans s c)" and "lastPing (keepers s k) \<le> lastPong (keepers s k)"
    and "lastPong (keepers s k) < clock s" and "0 < Timeout hp"
    and "sendPing oh k s = (Ok True, s1)" and "keepers s1 = keepers s" and "clock s1 = clock s"
    and "chans t c = chans s c" and "clock t = clock s + Timeout hp"
    and "keepers t k = (keepers s k)\<lparr>lastPing := clock s, lastPong := pong\<rparr>"
    and "sendPing oh k t = (Ok True, t1)"
  shows "(\<exists>s2. health_fn oh hp k s = (Ok (), s2) \<and> timers s2 = timers s1 @ [(clock s + Timeout hp, HealthFn k)] \<and>
      keepers s2 k = (keepers s k)\<lparr>lastPing := clock s\<rparr>) \<and>
    (if pong < clock s
      then \<exists>t2. health_fn oh hp k t = (Ok (), t2) \<and> k_done (keepers t2 k) \<and> ch_state (chans t2 c) = inactive \<and>
        tasks t2 = tasks t @ [CloseWaitRead c (WithTimeout (nextCtx t)) (Some (ErrMsg ''closing channel due to ping timeout''))]
      else \<exists>t2. health_fn oh hp k t = (Ok (), t2) \<and> timers t2 = timers t1 @ [(clock t1 + Timeout hp, HealthFn k)])"
proof
  show "\<exists>s2. health_fn oh hp k s = (Ok (), s2) \<and> timers s2 = timers s1 @ [(clock s + Timeout hp, HealthFn k)] \<and>
      keepers s2 k = (keepers s k)\<lparr>lastPing := clock s\<rparr>"
    using assms(1-10) by (simp add: health_fn_def Let_def Timer_AfterFunc_def upd_k_def)
  have int: "\<not> clock t - LastRead (chans t c) < Time hp" using assms(4,7,11,12) by simp
  show "if pong < clock s
      then \<exists>t2. health_fn oh hp k t = (Ok (), t2) \<and> k_done (keepers t2 k) \<and> ch_state (chans t2 c) = inactive \<and>
        tasks t2 = tasks t @ [CloseWaitRead c (WithTimeout (nextCtx t)) (Some (ErrMsg ''closing channel due to ping timeout''))]
      else \<exists>t2. health_fn oh hp k t = (Ok (), t2) \<and> timers t2 = timers t1 @ [(clock t1 + Timeout hp, HealthFn k)]"
  proof (cases "pong < clock s")
    case True
    have "\<not> k_done (keepers t k)" "k_ch (keepers t k) = c" using assms(1,2,13) by simp_all
    moreover have "ch_state (chans t c) \<noteq> inactive" using Readable_active[OF assms(3)] assms(11) by simp
    ultimately show ?thesis
      using stopChannel_stops[of t k] True int assms by (simp add: health_fn_def Let_def)
  next
    case False
    then show ?thesis
      using int assms by (simp add: health_fn_def Let_def Timer_AfterFunc_def upd_k_def)
  qed
qed

definition health0 :: "unit HealthParams" where
  "health0 = \<lparr>Time = second, Timeout = second, Ping = LessMsg (NewMessage Call PingBody), PingRecognizer = Some defaultPingRecognizer,
     Pong = LessMsg (NewMessage Reply PongBody), PongRecognizer = Some defaultPongRecognizer\<rparr>"

definition params0 :: "unit ServerParameters" where
  "params0 = \<lparr>MaxChannelIdleTime = 0, MaxChannelAge = 0, CloseGrace = second, healthParams = Some health0,
     goAwayParams = Some \<lparr>GoAway = LessMsg (NewMessage Oneway GoAwayBody), GoAwayRecognizer = Some defaultGoAwayRecognizer\<rparr>\<rparr>"

text \<open>Channel 0, its keeper, and the time \<open>now\<close> of its first check, or later.\<close>

definition ka0 :: "int \<Rightarrow> int \<Rightarrow> unit ka_sys" where
  "ka0 now ping = \<lparr>chans = (\<lambda>_. channel0), nextCh = 1, pls = (\<lambda>_. pipeline0), nextPl = 1, pool = [], poolNew = None,
     conns = (\<lambda>_. conn0), clock = now, tasks = [], ctxDone = (\<lambda>_. False),
     keepers = (\<lambda>_. \<lparr>kp = params0, k_ch = 0, k_done = False, lastPing = ping, lastPong = 0\<rparr>), nextKeeper = 1,
     timers = [], nextCtx = 0\<rparr>"

lemma ka0_simps [simp]:
  "keepers (ka0 now ping) k = \<lparr>kp = params0, k_ch = 0, k_done = False, lastPing = ping, lastPong = 0\<rparr>"
  "chans (ka0 now ping) c = channel0" "clock (ka0 now ping) = now" "Readable channel0" "LastRead channel0 = 0"
  "timers (ka0 now ping) = []" "tasks (ka0 now ping) = []"
  "sendPing (\<lambda>_ x c m s. (Ok (), s)) k (ka0 now ping) = (Ok True, ka0 now ping)"
  by (simp_all add: ka0_def channel0_def Readable_def calState_def state_defs LastRead_def sendPing_def params0_def health0_def
      WriteDirectly_def pipeline_Outbound_def pipeline0_def)

theorem dead_peer_detected_witness:
  "(\<exists>s2. health_fn (\<lambda>_ x c m s. (Ok (), s)) health0 0 (ka0 second 0) = (Ok (), s2) \<and> timers s2 = [(2 * second, HealthFn 0)]) \<and>
   (\<exists>t2. health_fn (\<lambda>_ x c m s. (Ok (), s)) health0 0 (ka0 (2 * second) second) = (Ok (), t2) \<and> ch_state (chans t2 0) = inactive)"
proof -
  have t: "Time health0 = 1000000000" "Timeout health0 = 1000000000" by (simp_all add: health0_def second_def)
  show ?thesis
    using dead_peer_detected[of "ka0 second 0" 0 0 health0 "\<lambda>_ x c m s. (Ok (), s)" "ka0 second 0" "ka0 (2 * second) second" 0
        "ka0 (2 * second) second"] t by (auto simp: second_def)
qed

section \<open>The middleware\<close>

lemma Consummate_params:
  assumes "ConsummateKeepaliveParams rnd p = Ok q"
  shows "healthParams q = map_option consummate_health (healthParams p)"
    and "goAwayParams q = map_option consummate_goaway (goAwayParams p)"
  using assms by (cases "getJitter rnd (MaxChannelAge p)"; auto simp: ConsummateKeepaliveParams_def split: if_splits)+

text \<open>
  C16: keepalive messages do not reach the application, and nothing else is kept from it. With the
  framework's own messages, the ping that a keeper sends makes its peer answer with the pong and do
  nothing else; the pong is noted and nothing else; the go-away message closes the channel. Every other
  message is handed on unchanged to the next handler: all that are no framework messages, and all
  framework messages but the calls with the body of the ping, the replies with that of the pong and
  the one-way messages with that of the go-away.
\<close>

theorem keepalive_messages_intercepted:
  assumes "kgetter c s = Ok (Some k)" and "ConsummateKeepaliveParams rnd p = Ok (kp (keepers s k))"
    and "healthParams p = Some hp" and "0 < Time hp" and "Ping hp = KeepalivePing"
    and "goAwayParams p = Some gp" and "GoAway gp = KeepaliveGoAway"
  shows "\<exists>hp' gp'. healthParams (kp (keepers s k)) = Some hp' \<and> goAwayParams (kp (keepers s k)) = Some gp' \<and>
    KeepaliveMiddleware kgetter omw oh h x c (Ping hp') s = channel_Write omw oh c (Pong hp') s \<and>
    KeepaliveMiddleware kgetter omw oh h x c (Pong hp') s = (Ok (), upd_k k (\<lambda>kr. kr\<lparr>lastPong := clock s\<rparr>) s) \<and>
    KeepaliveMiddleware kgetter omw oh h x c (GoAway gp') s = (Ok (), snd (channel_Close Background
      (Some (ErrMsg ''closing channel due to received a go away message'')) c s)) \<and>
    (\<forall>m. (\<forall>lm. m = LessMsg lm \<longrightarrow>
          (MsgType lm, Body lm) \<notin> {(Call, PingBody), (Reply, PongBody), (Oneway, GoAwayBody)}) \<longrightarrow>
        KeepaliveMiddleware kgetter omw oh h x c m s = h x c m s)"
proof -
  let ?hp = "consummate_health hp" and ?gp = "consummate_goaway gp"
  have hp: "Ping ?hp = LessMsg (NewMessage Call PingBody)" "Pong ?hp = LessMsg (NewMessage Reply PongBody)"
      "PingRecognizer ?hp = Some defaultPingRecognizer" "PongRecognizer ?hp = Some defaultPongRecognizer"
    using assms(4,5) by (simp_all add: consummate_health_def Let_def)
  have gp: "GoAway ?gp = LessMsg (NewMessage Oneway GoAwayBody)" "GoAwayRecognizer ?gp = Some defaultGoAwayRecognizer"
    using assms(7) by (simp_all add: consummate_goaway_def)
  have q: "healthParams (kp (keepers s k)) = Some ?hp" "goAwayParams (kp (keepers s k)) = Some ?gp"
    using Consummate_params[OF assms(2)] assms(3,6) by simp_all
  have app: "\<not> defaultPingRecognizer m \<and> \<not> defaultPongRecognizer m \<and> \<not> defaultGoAwayRecognizer m"
    if "\<forall>lm. m = LessMsg lm \<longrightarrow> (MsgType lm, Body lm) \<notin> {(Call, PingBody), (Reply, PongBody), (Oneway, GoAwayBody)}"
    for m :: "'a message"
    using that by (cases m) simp_all
  have other: "KeepaliveMiddleware kgetter omw oh h x c m s = h x c m s"
    if "\<forall>lm. m = LessMsg lm \<longrightarrow> (MsgType lm, Body lm) \<notin> {(Call, PingBody), (Reply, PongBody), (Oneway, GoAwayBody)}" for m
    using app[OF that] by (simp add: KeepaliveMiddleware_def Let_def assms(1) q hp gp recognizes_def)
  have "KeepaliveMiddleware kgetter omw oh h x c (Ping ?hp) s = channel_Write omw oh c (Pong ?hp) s \<and>
    KeepaliveMiddleware kgetter omw oh h x c (Pong ?hp) s = (Ok (), upd_k k (\<lambda>kr. kr\<lparr>lastPong := clock s\<rparr>) s) \<and>
    KeepaliveMiddleware kgetter omw oh h x c (GoAway ?gp) s = (Ok (), snd (channel_Close Background
      (Some (ErrMsg ''closing channel due to received a go away message'')) c s))"
    unfolding KeepaliveMiddleware_def Let_def assms(1) q
    by (simp add: q hp gp recognizes_def NewMessage_def Call_def Reply_def Oneway_def)
  with q other show ?thesis by blast
qed

definition params1 :: "unit ServerParameters" where
  "params1 = \<lparr>MaxChannelIdleTime = 0, MaxChannelAge = 0, CloseGrace = second,
     healthParams = Some \<lparr>Time = second, Timeout = second, Ping = KeepalivePing, PingRecognizer = None, Pong = NilMsg, PongRecognizer = None\<rparr>,
     goAwayParams = Some \<lparr>GoAway = KeepaliveGoAway, GoAwayRecognizer = None\<rparr>\<rparr>"

lemma params1_params0: "ConsummateKeepaliveParams rnd params1 = Ok params0"
  by (simp add: ConsummateKeepaliveParams_def params1_def params0_def health0_def consummate_health_def consummate_goaway_def
      second_def)

theorem keepalive_messages_intercepted_witness:
  "KeepaliveMiddleware (\<lambda>c s. Ok (Some 0)) (\<lambda>_ h. h) (\<lambda>_ x c m s. (Ok (), s)) (\<lambda>x c m s. (Err EOF, s)) Background 0
     (LessMsg (NewMessage Reply PongBody)) (ka0 5 0) = (Ok (), upd_k 0 (\<lambda>kr. kr\<lparr>lastPong := 5\<rparr>) (ka0 5 0)) \<and>
   KeepaliveMiddleware (\<lambda>c s. Ok (Some 0)) (\<lambda>_ h. h) (\<lambda>_ x c m s. (Ok (), s)) (\<lambda>x c m s. (Err EOF, s)) Background 0
     (LessMsg (NewMessage Call PongBody)) (ka0 5 0) = (Err EOF, ka0 5 0)"
proof -
  have p: "ConsummateKeepaliveParams (\<lambda>_. 0) params1 = Ok (kp (keepers (ka0 5 0) 0))" by (simp add: params1_params0)
  show ?thesis
    using keepalive_messages_intercepted[where kgetter = "\<lambda>c s. Ok (Some 0)" and c = 0 and s = "ka0 5 0" and k = 0 and
        omw = "\<lambda>_ h. h" and oh = "\<lambda>_ x c m s. (Ok (), s)" and h = "\<lambda>x c m s. (Err EOF, s)" and x = Background, OF refl p]
    by (simp add: params1_def second_def params0_def health0_def NewMessage_def Call_def Reply_def Oneway_def PingBody_def PongBody_def
        GoAwayBody_def str_def)
qed

end
