(* ===== verification/Trans.thy ===== *)
theory Trans
  imports Keepalive Packet
begin

text \<open>
  The transport handler (\<^verbatim>\<open>internal/trans\<close>): it turns the events of a transport (a connection, a
  message, the end of a connection) into operations on channels, and holds the table of channels.

  What the application supplies (hooks, middlewares, the router) is the record \<open>app\<close>, functions on
  the state of the system.
\<close>

section \<open>Options (options.go)\<close>

record 'v options =
  maxChannelSize :: uint32
  maxSendMessageSize :: uint32
  maxReceiveMessageSize :: uint32
  packetCodec :: "'v packet_codec"
  payloadCodec :: "'v payload_codec"
  o_onChannel :: "nat list"
  o_onChannelClosed :: "closedHook list"
  o_router :: "nat option"
  o_inbound :: "inMw list"
  o_outbound :: "outMw list"
  o_kp :: "'v ServerParameters"
  useLessMsgCodec :: bool

definition defaultTransOptions :: "'v options" where
  "defaultTransOptions =
     \<lparr>maxChannelSize = - 1, maxSendMessageSize = 1024 * 1024 * 4, maxReceiveMessageSize = 1024 * 1024 * 4,
      packetCodec = NewVariableLengthCodec, payloadCodec = NewTextCodec, o_onChannel = [], o_onChannelClosed = [], o_router = None,
      o_inbound = [], o_outbound = [],
      o_kp = \<lparr>MaxChannelIdleTime = 0, MaxChannelAge = 0, CloseGrace = 0,
              healthParams = Some \<lparr>Time = 0, Timeout = 0, Ping = NilMsg, PingRecognizer = None, Pong = NilMsg, PongRecognizer = None\<rparr>,
              goAwayParams = Some \<lparr>GoAway = NilMsg, GoAwayRecognizer = None\<rparr>\<rparr>,
      useLessMsgCodec = False\<rparr>"

definition MaxChannelSize :: "uint32 \<Rightarrow> 'v options \<Rightarrow> 'v options" where
  "MaxChannelSize sz ops = ops\<lparr>maxChannelSize := sz\<rparr>"

definition MaxSendMessageSize :: "uint32 \<Rightarrow> 'v options \<Rightarrow> 'v options" where
  "MaxSendMessageSize sz ops = ops\<lparr>maxSendMessageSize := sz\<rparr>"

definition MaxReceiveMessageSize :: "uint32 \<Rightarrow> 'v options \<Rightarrow> 'v options" where
  "MaxReceiveMessageSize sz ops = ops\<lparr>maxReceiveMessageSize := sz\<rparr>"

definition WithPacketCodec :: "'v packet_codec \<Rightarrow> 'v options \<Rightarrow> 'v options" where
  "WithPacketCodec c ops = ops\<lparr>packetCodec := c\<rparr>"

definition WithPayloadCodec :: "'v payload_codec \<Rightarrow> 'v options \<Rightarrow> 'v options" where
  "WithPayloadCodec c ops = ops\<lparr>payloadCodec := c\<rparr>"

definition AddOnChannel :: "nat list \<Rightarrow> 'v options \<Rightarrow> 'v options" where
  "AddOnChannel hs ops = ops\<lparr>o_onChannel := o_onChannel ops @ hs\<rparr>"

definition AddOnChannelClosed :: "closedHook list \<Rightarrow> 'v options \<Rightarrow> 'v options" where
  "AddOnChannelClosed hs ops = ops\<lparr>o_onChannelClosed := o_onChannelClosed ops @ hs\<rparr>"

definition AddInboundMiddleware :: "inMw list \<Rightarrow> 'v options \<Rightarrow> 'v options" where
  "AddInboundMiddleware ms ops = ops\<lparr>o_inbound := o_inbound ops @ ms\<rparr>"

definition AddOutboundMiddleware :: "outMw list \<Rightarrow> 'v options \<Rightarrow> 'v options" where
  "AddOutboundMiddleware ms ops = ops\<lparr>o_outbound := o_outbound ops @ ms\<rparr>"

definition WithRouter :: "nat \<Rightarrow> 'v options \<Rightarrow> 'v options" where
  "WithRouter rt ops = ops\<lparr>o_router := Some rt\<rparr>"

definition Keepalive_option :: "'v ServerParameters \<Rightarrow> 'v options \<Rightarrow> 'v options" where
  "Keepalive_option p ops =
     (let ops1 = (case healthParams p of
                    Some hp \<Rightarrow> (if Ping hp = KeepalivePing then ops\<lparr>useLessMsgCodec := True\<rparr> else ops)
                  | None \<Rightarrow> ops);
          ops2 = (case goAwayParams p of
                    Some gp \<Rightarrow> (if \<not> useLessMsgCodec ops1 \<and> GoAway gp = KeepaliveGoAway
                                then ops1\<lparr>useLessMsgCodec := True\<rparr> else ops1)
                  | None \<Rightarrow> ops1)
      in ops2\<lparr>o_kp := p\<rparr>)"

section \<open>State (trans_handler.go)\<close>

definition serving :: uint32 where "serving = 0"
definition closed :: uint32 where "closed = 1"

text \<open>
  The counter of channels (\<^verbatim>\<open>internal/atomic\<close>). It counts open connections, so it stays far away from
  the bounds of 64 bits. \<open>Inc\<close> returns the new value as well.
\<close>

definition AtomicInt64_Inc :: "int \<Rightarrow> int \<times> int" where
  [simp]: "AtomicInt64_Inc i = (i + 1, i + 1)"

definition AtomicInt64_Dec :: "int \<Rightarrow> int" where
  [simp]: "AtomicInt64_Dec i = i - 1"

definition AtomicInt64_Value :: "int \<Rightarrow> int" where
  [simp]: "AtomicInt64_Value i = i"

text \<open>What the table of channels holds for a channel: its keeper, or an empty struct.\<close>

datatype registered = RegKeeper nat | RegNone

record 'v trans_sys = "'v ka_sys" +
  th_state :: uint32
  th_ops :: "'v options"
  th_side :: nat
  th_channels :: "chid \<Rightarrow> registered option"
  channelCount :: int
  closingCtx :: "ctx option"

record ('v, 's) app =
  app_onChannel :: "nat \<Rightarrow> ctx option \<Rightarrow> chid \<Rightarrow> 's \<Rightarrow> ctx option outcome \<times> 's"
  app_closed :: "nat \<Rightarrow> ctx \<Rightarrow> chid \<Rightarrow> go_error option \<Rightarrow> 's \<Rightarrow> unit outcome \<times> 's"
  app_in :: "nat \<Rightarrow> ('v, 's) Middleware"
  app_out :: "nat \<Rightarrow> ('v, 's) Middleware"
  app_router :: "nat \<Rightarrow> ctx \<Rightarrow> chid \<Rightarrow> 'v message \<Rightarrow> 's \<Rightarrow> ('v, 's) Handler outcome \<times> 's"

definition isActive :: "('v, 'z) trans_sys_scheme \<Rightarrow> bool" where
  "isActive s \<longleftrightarrow> \<not> serving \<noteq> th_state s"

definition closeChannel ::
    "ctx \<Rightarrow> chid \<Rightarrow> go_error option \<Rightarrow> ('v, 'z) trans_sys_scheme \<Rightarrow> ('v, 'z) trans_sys_scheme" where
  "closeChannel x c err s =
     (case th_channels s c of
        None \<Rightarrow> s
      | Some v \<Rightarrow>
          (let s1 = s\<lparr>th_channels := (th_channels s)(c := None)\<rparr>;
               s2 = (case v of RegKeeper k \<Rightarrow> Keeper_Close k s1 | RegNone \<Rightarrow> s1);
               s3 = s2\<lparr>channelCount := AtomicInt64_Dec (channelCount s2)\<rparr>
           in snd (channel_Close x err c s3)))"

text \<open>A panic that is recovered becomes an error.\<close>

definition panic_error :: "go_panic \<Rightarrow> go_error" where
  "panic_error p = ErrPanic ''panic error''"

text \<open>\<^verbatim>\<open>recovery.Do\<close>: a function is run, and its panic becomes its error.\<close>

definition recovery_Do :: "unit outcome \<times> 's \<Rightarrow> unit outcome \<times> 's" where
  "recovery_Do r = (case r of (Panic p, s) \<Rightarrow> (Err (ErrPanic ''panic''), s) | _ \<Rightarrow> r)"

lemma recovery_Do_never_panics: "fst (recovery_Do r) \<noteq> Panic p" "snd (recovery_Do r) = snd r"
  by (auto simp: recovery_Do_def split: prod.split outcome.split)

text \<open>
  \<^verbatim>\<open>recovery.Recover\<close>, deferred: a function that has panicked returns normally (with the zero value of
  its result, a nil error), after \<open>fn\<close> was called with the panic as an error.
\<close>

definition recovery_Recover :: "(go_error \<Rightarrow> 's \<Rightarrow> 's) \<Rightarrow> unit outcome \<times> 's \<Rightarrow> unit outcome \<times> 's" where
  "recovery_Recover fn r = (case r of (Panic p, s) \<Rightarrow> (Ok (), fn (panic_error p) s) | _ \<Rightarrow> r)"

lemma recovery_Recover_simps [simp]:
  "recovery_Recover fn (Ok (), s) = (Ok (), s)" "recovery_Recover fn (Err e, s) = (Err e, s)"
  "recovery_Recover fn (Panic p, s) = (Ok (), fn (panic_error p) s)" "recovery_Recover fn (Hang, s) = (Hang, s)"
  by (simp_all add: recovery_Recover_def)

definition OnWrite ::
    "chid \<Rightarrow> writer \<times> world \<Rightarrow> 'v message \<Rightarrow> ('v, 'z) trans_sys_scheme \<Rightarrow> unit outcome \<times> ('v, 'z) trans_sys_scheme" where
  "OnWrite c w m s =
     recovery_Recover (\<lambda>err. closeChannel Background c (Some err))
       (if serving \<noteq> th_state s then (Err (ErrMsg ''transport has been closed''), s)
        else case Encode (packetCodec (th_ops s)) m w (payloadCodec (th_ops s)) of
               (out, w', h') \<Rightarrow>
                 (let k = ch_conn (chans s c)
                  in (out, s\<lparr>conns := (conns s)(k := (conns s k)\<lparr>c_world := h'\<rparr>)\<rparr>)))"

lemma OnWrite_cases:
  "OnWrite c w m s =
     (if serving \<noteq> th_state s then (Err (ErrMsg ''transport has been closed''), s)
      else case Encode (packetCodec (th_ops s)) m w (payloadCodec (th_ops s)) of
             (out, w', h') \<Rightarrow>
               (let k = ch_conn (chans s c);
                    s1 = s\<lparr>conns := (conns s)(k := (conns s k)\<lparr>c_world := h'\<rparr>)\<rparr>
                in case out of
                     Panic p \<Rightarrow> (Ok (), closeChannel Background c (Some (panic_error p)) s1)
                   | _ \<Rightarrow> (out, s1)))"
  by (auto simp: OnWrite_def recovery_Recover_def Let_def split: prod.split outcome.split)

definition th_outboundHandler :: "('v, ('v, 'z) trans_sys_scheme) Handler" where
  "th_outboundHandler x c m s =
     (case channel_Writer c s of
        Ok w \<Rightarrow> OnWrite c w m s
      | Err e \<Rightarrow> (Err e, s)
      | Panic p \<Rightarrow> (Panic p, s)
      | Hang \<Rightarrow> (Hang, s))"

fun out_handler :: "outHandler \<Rightarrow> ('v, ('v, 'z) trans_sys_scheme) Handler" where
  "out_handler TransOutbound = th_outboundHandler"

section \<open>The functions behind the names\<close>

fun out_mw :: "('v, ('v, 'z) trans_sys_scheme) app \<Rightarrow> outMw \<Rightarrow> ('v, ('v, 'z) trans_sys_scheme) Middleware" where
  "out_mw ap RecorderOut = Recorder WriteEvent"
| "out_mw ap (UserOut n) = app_out ap n"

text \<open>The type assertion on the table's entry fails for a channel that was registered without a keeper.\<close>

definition kgetter :: "chid \<Rightarrow> ('v, 'z) trans_sys_scheme \<Rightarrow> nat option outcome" where
  "kgetter c s =
     (case th_channels s c of
        None \<Rightarrow> Ok None
      | Some (RegKeeper k) \<Rightarrow> Ok (Some k)
      | Some RegNone \<Rightarrow> Panic TypeAssertion)"

definition newRouter ::
    "(ctx \<Rightarrow> chid \<Rightarrow> 'v message \<Rightarrow> 's \<Rightarrow> ('v, 's) Handler outcome \<times> 's) \<Rightarrow> ('v, 's) Middleware" where
  "newRouter rt handler x c m s =
     (case rt x c m s of
        (Ok h, s1) \<Rightarrow> h x c m s1
      | (Err e, s1) \<Rightarrow> (Err e, s1)
      | (Panic p, s1) \<Rightarrow> (Panic p, s1)
      | (Hang, s1) \<Rightarrow> (Hang, s1))"

fun in_mw :: "('v, ('v, 'z) trans_sys_scheme) app \<Rightarrow> inMw \<Rightarrow> ('v, ('v, 'z) trans_sys_scheme) Middleware" where
  "in_mw ap KeepaliveMw = KeepaliveMiddleware kgetter (out_mw ap) out_handler"
| "in_mw ap RecorderIn = Recorder ReadEvent"
| "in_mw ap (RouterMw (Some r)) = newRouter (app_router ap r)"
| "in_mw ap (RouterMw None) = newRouter (\<lambda>x c m s. (Panic NilDereference, s))"
| "in_mw ap (UserIn n) = app_in ap n"

fun closed_hook ::
    "('v, ('v, 'z) trans_sys_scheme) app \<Rightarrow> closedHook \<Rightarrow> ctx \<Rightarrow> chid \<Rightarrow> go_error option \<Rightarrow>
     ('v, 'z) trans_sys_scheme \<Rightarrow> unit outcome \<times> ('v, 'z) trans_sys_scheme" where
  "closed_hook ap CloseChannelHook x c err s = (Ok (), closeChannel x c err s)"
| "closed_hook ap (UserClosed n) x c err s = app_closed ap n x c err s"

section \<open>Operations\<close>

text \<open>
  The options are the global default options, changed in place; \<open>s\<close> holds what is left of an earlier
  handler. \<open>rnd\<close> is the source of the jitter.
\<close>

definition NewTransHandler ::
    "(int \<Rightarrow> int) \<Rightarrow> ('v options \<Rightarrow> 'v options) list \<Rightarrow> 'v options \<Rightarrow>
     ('v, 'z) trans_sys_scheme \<Rightarrow> unit outcome \<times> ('v, 'z) trans_sys_scheme" where
  "NewTransHandler rnd ops defaults s =
     (let opts = fold (\<lambda>op acc. op acc) ops defaults
      in and_then (ConsummateKeepaliveParams rnd (o_kp opts), s) (\<lambda>p s.
           let opts1 = opts\<lparr>o_kp := p\<rparr>;
               opts2 = (if useLessMsgCodec opts1
                        then opts1\<lparr>payloadCodec := NewLessMsgPayloadCodec (payloadCodec opts1)\<rparr> else opts1);
               onClosed = CloseChannelHook # o_onChannelClosed opts2;
               inb = (case healthParams p of
                        Some hp \<Rightarrow> (if 0 < Time hp then [KeepaliveMw, RecorderIn] else [RecorderIn])
                      | None \<Rightarrow> [RecorderIn]) @ o_inbound opts2;
               outb = RecorderOut # o_outbound opts2;
               s1 = s\<lparr>th_state := serving, th_ops := opts2, th_side := Server, th_channels := (\<lambda>_. None),
                      channelCount := 0, closingCtx := None\<rparr>
           in (Ok (), NewPipelineFactory (o_onChannel opts2) onClosed inb outb (Some (RouterMw (o_router opts2))) (Some TransOutbound) s1)))"

text \<open>\<open>kp.HealthParams.Time\<close> is read when neither of the first two parameters is set.\<close>

definition prepareKeepalive ::
    "chid \<Rightarrow> ('v, 'z) trans_sys_scheme \<Rightarrow> registered outcome \<times> ('v, 'z) trans_sys_scheme" where
  "prepareKeepalive c s =
     (let p = o_kp (th_ops s);
          start = (\<lambda>s. let (k, s1) = NewKeeper p c s in (Ok (RegKeeper k), Keeper_Keepalive k s1))
      in if 0 < MaxChannelIdleTime p \<or> 0 < MaxChannelAge p then start s
         else case healthParams p of
                None \<Rightarrow> (Panic NilDereference, s)
              | Some hp \<Rightarrow> (if 0 < Time hp then start s else (Ok RegNone, s)))"

text \<open>
  The deferred function of \<open>OnConnect\<close>. Its call of \<^verbatim>\<open>recover\<close> is not made by the deferred function
  itself but by \<^verbatim>\<open>recovery.Recover\<close>, so it returns nil and a panic goes on; the closing of the
  channel depends on the error that is about to be returned. A context of \<open>Close\<close> is not looked at
  when there is an error, so a nil one does not matter.
\<close>

definition connect_deferred ::
    "chid option \<Rightarrow> ctx outcome \<times> ('v, 'z) trans_sys_scheme \<Rightarrow> ctx outcome \<times> ('v, 'z) trans_sys_scheme" where
  "connect_deferred co r =
     (case r of (out, s) \<Rightarrow>
        let x = (if isActive s then Background else (case closingCtx s of Some y \<Rightarrow> y | None \<Rightarrow> Background));
            err = (if isActive s then (case out of Err e \<Rightarrow> Some e | _ \<Rightarrow> None)
                   else Some (ErrMsg ''transport has been closed''));
            out1 = (case out of
                      Ok y \<Rightarrow> (case err of None \<Rightarrow> Ok y | Some e \<Rightarrow> Err e)
                    | Err _ \<Rightarrow> (case err of None \<Rightarrow> out | Some e \<Rightarrow> Err e)
                    | _ \<Rightarrow> out)
        in case (err, co) of
             (Some e, Some c) \<Rightarrow> (out1, snd (channel_Close x (Some e) c s))
           | _ \<Rightarrow> (out1, s))"

definition OnConnect ::
    "('v, ('v, 'z) trans_sys_scheme) app \<Rightarrow> plid option \<Rightarrow> ctx \<Rightarrow> connid \<Rightarrow>
     ('v, 'z) trans_sys_scheme \<Rightarrow> ctx outcome \<times> ('v, 'z) trans_sys_scheme" where
  "OnConnect ap pick x con s =
     (if \<not> isActive s then (Err (ErrMsg ''connect request was refused''), s)
      else if 0 < maxChannelSize (th_ops s) \<and> AtomicInt64_Value (channelCount s) > uint (maxChannelSize (th_ops s))
      then connect_deferred None (Err (ErrMsg ''connection number out of limit''), s)
      else case NewChannel con (th_side s) pick s of
             (Ok c, s1) \<Rightarrow>
               connect_deferred (Some c)
                 (and_then (channel_Activate (app_onChannel ap) x c s1) (\<lambda>_ s2.
                  and_then (prepareKeepalive c s2) (\<lambda>k s3.
                    (Ok (WithChannel x c),
                     s3\<lparr>channelCount := fst (AtomicInt64_Inc (channelCount s3)), th_channels := (th_channels s3)(c \<mapsto> k)\<rparr>))))
           | (Err e, s1) \<Rightarrow> connect_deferred None (Err e, s1)
           | (Panic p, s1) \<Rightarrow> connect_deferred None (Panic p, s1)
           | (Hang, s1) \<Rightarrow> (Hang, s1))"

fun ctx_channel :: "ctx \<Rightarrow> chid option" where
  "ctx_channel (WithChannel x c) = Some c"
| "ctx_channel (WithIdentifier x i c) = ctx_channel x"
| "ctx_channel _ = None"

text \<open>The rest of the stream after a reader was used.\<close>

fun reader_source :: "reader \<Rightarrow> source option" where
  "reader_source (BufR r) = r_decorator r"
| "reader_source (LimR rem tot None) = None"
| "reader_source (LimR rem tot (Some r)) = reader_source r"

definition took :: "chid \<Rightarrow> reader \<Rightarrow> ('v, 'z) trans_sys_scheme \<Rightarrow> ('v, 'z) trans_sys_scheme" where
  "took c r s =
     (case reader_source r of
        None \<Rightarrow> s
      | Some src \<Rightarrow> (let k = ch_conn (chans s c) in s\<lparr>conns := (conns s)(k := (conns s k)\<lparr>c_source := src\<rparr>)\<rparr>))"

text \<open>A panic while a message is read is recovered: the channel is closed and nil is returned.\<close>

definition OnRead ::
    "chid \<Rightarrow> reader \<Rightarrow> ('v, 'z) trans_sys_scheme \<Rightarrow> unit outcome \<times> ('v, 'z) trans_sys_scheme" where
  "OnRead c r s =
     (if \<not> isActive s then (Err (ErrMsg ''transport was closed''), s)
      else recovery_Recover (\<lambda>err. closeChannel Background c (Some err))
        (case Decode (packetCodec (th_ops s)) r (payloadCodec (th_ops s)) of
           (out, r') \<Rightarrow>
             (let s1 = took c r' s; mx = maxReceiveMessageSize (th_ops s)
              in case out of
                   Err e \<Rightarrow> (Err e, closeChannel Background c (Some e) s1)
                 | Panic p \<Rightarrow> (Panic p, s1)
                 | Hang \<Rightarrow> (Hang, s1)
                 | Ok m \<Rightarrow>
                     (if 0 < mx \<and> mx < of_int (reader_Length r') then (Ok (), s1)
                      else (Ok (), Submit (InboundTask c m) s1)))))"

lemma OnRead_cases:
  "OnRead c r s =
     (if \<not> isActive s then (Err (ErrMsg ''transport was closed''), s)
      else case Decode (packetCodec (th_ops s)) r (payloadCodec (th_ops s)) of
             (out, r') \<Rightarrow>
               (let s1 = took c r' s; mx = maxReceiveMessageSize (th_ops s)
                in case out of
                     Err e \<Rightarrow> (Err e, closeChannel Background c (Some e) s1)
                   | Panic p \<Rightarrow> (Ok (), closeChannel Background c (Some (panic_error p)) s1)
                   | Hang \<Rightarrow> (Hang, s1)
                   | Ok m \<Rightarrow>
                       (if 0 < mx \<and> mx < of_int (reader_Length r') then (Ok (), s1)
                        else (Ok (), Submit (InboundTask c m) s1))))"
  by (auto simp: OnRead_def Let_def split: prod.split outcome.split)

definition OnMessage ::
    "bufferReader \<Rightarrow> ctx \<Rightarrow> ('v, 'z) trans_sys_scheme \<Rightarrow> unit outcome \<times> ('v, 'z) trans_sys_scheme" where
  "OnMessage pooled x s =
     (if \<not> isActive s then (Err (ErrMsg ''request was refused''), s)
      else case ctx_channel x of
             None \<Rightarrow> (Panic TypeAssertion, s)
           | Some c \<Rightarrow>
               (case channel_Reader pooled c s of
                  Ok r \<Rightarrow> OnRead c r s
                | _ \<Rightarrow> (Ok (), s)))"

definition OnConnClosed ::
    "ctx \<Rightarrow> go_error option \<Rightarrow> ('v, 'z) trans_sys_scheme \<Rightarrow> unit outcome \<times> ('v, 'z) trans_sys_scheme" where
  "OnConnClosed x err s =
     (case ctx_channel x of
        None \<Rightarrow> (Panic TypeAssertion, s)
      | Some c \<Rightarrow> (Ok (), closeChannel x c err s))"

text \<open>
  \<open>Close\<close>: for every channel of the table (in the order \<open>cs\<close> in which \<^verbatim>\<open>Range\<close> visits them) a goroutine
  is started that closes it; the call returns when all of them have ended or the context is done.
\<close>

definition th_Close ::
    "ctx \<Rightarrow> go_error option \<Rightarrow> chid list \<Rightarrow> ('v, 'z) trans_sys_scheme \<Rightarrow> ('v, 'z) trans_sys_scheme" where
  "th_Close x err cs s =
     (if th_state s \<noteq> serving then s
      else fold (\<lambda>c. Submit (CloseChannelTask x c err)) cs (s\<lparr>th_state := closed, closingCtx := Some x\<rparr>))"

definition th_Close_returns :: "ctx \<Rightarrow> ('v, 'z) trans_sys_scheme \<Rightarrow> bool" where
  "th_Close_returns x s \<longleftrightarrow> ctxDone s x \<or> (\<forall>c err. CloseChannelTask x c err \<notin> set (tasks s))"

text \<open>The goroutines that the transport handler submits.\<close>

definition run_inbound ::
    "('v, ('v, 'z) trans_sys_scheme) app \<Rightarrow> chid \<Rightarrow> 'v message \<Rightarrow>
     ('v, 'z) trans_sys_scheme \<Rightarrow> unit outcome \<times> ('v, 'z) trans_sys_scheme" where
  "run_inbound ap c m s =
     ignore_err (TriggerInbound (in_mw ap) m c (drop_task (InboundTask c m) s))"

definition run_closeChannel ::
    "ctx \<Rightarrow> chid \<Rightarrow> go_error option \<Rightarrow> ('v, 'z) trans_sys_scheme \<Rightarrow> ('v, 'z) trans_sys_scheme" where
  "run_closeChannel x c err s = closeChannel x c err (drop_task (CloseChannelTask x c err) s)"

end
