(* ===== verification/TransProps.thy ===== *)
theory TransProps
  imports Trans CodecProps
begin

text \<open>
  Properties of the transport handler: what arrives on a connection is handed to the channel's
  pipeline, failures close the channel, and the table of channels is kept right.
\<close>

section \<open>A system with one open channel\<close>

definition conn_with :: "bytes list \<Rightarrow> connection" where
  "conn_with bss = conn0\<lparr>c_source := \<lparr>chunks = bss, fin = EOF\<rparr>\<rparr>"

definition keeper0 :: "unit Keeper" where
  "keeper0 = \<lparr>kp = o_kp defaultTransOptions, k_ch = 0, k_done = False, lastPing = 0, lastPong = 0\<rparr>"

text \<open>
  Channel 0 is open on connection 0, which will deliver \<open>bss\<close>; the other addresses hold no channel.
\<close>

definition trans0 :: "bytes list \<Rightarrow> unit trans_sys" where
  "trans0 bss =
     \<lparr>chans = (\<lambda>_. channel0\<lparr>ch_done := True, ch_state := inactive\<rparr>)(0 := channel0), nextCh = 1,
      pls = (\<lambda>_. pipeline0), nextPl = 1, pool = [], poolNew = Some (pipeline0\<lparr>pl_ch := None, chIn := [], chOut := []\<rparr>),
      conns = (\<lambda>_. conn_with bss), clock = 0, tasks = [], ctxDone = (\<lambda>_. False),
      keepers = (\<lambda>_. keeper0), nextKeeper = 1, timers = [], nextCtx = 0,
      th_state = serving, th_ops = defaultTransOptions, th_side = Server,
      th_channels = [0 \<mapsto> RegNone], channelCount = 1, closingCtx = None\<rparr>"

lemma trans0_simps [simp]:
  "chans (trans0 bss) 0 = channel0" "0 < d \<Longrightarrow> chans (trans0 bss) d = channel0\<lparr>ch_done := True, ch_state := inactive\<rparr>"
  "conns (trans0 bss) k = conn_with bss" "tasks (trans0 bss) = []" "th_channels (trans0 bss) = [0 \<mapsto> RegNone]"
  "channelCount (trans0 bss) = 1" "th_ops (trans0 bss) = defaultTransOptions" "isActive (trans0 bss)"
  "Readable channel0" "ch_conn channel0 = 0" "c_source (conn_with bss) = \<lparr>chunks = bss, fin = EOF\<rparr>"
  "ch_state channel0 = readWriteMode"
  by (simp_all add: trans0_def conn_with_def isActive_def channel0_def Readable_def calState_def state_defs)

lemma defaults_simps [simp]:
  "packetCodec defaultTransOptions = NewVariableLengthCodec" "payloadCodec defaultTransOptions = NewTextCodec"
  "maxReceiveMessageSize defaultTransOptions = 4194304"
  by (simp_all add: defaultTransOptions_def)

section \<open>Messages that arrive\<close>

text \<open>The text codec on a frame that fits: the frame is read and nothing else.\<close>

lemma text_frame_reader:
  assumes inv: "bufferReader_inv r" and room: "bufferReader_room r (length b)"
    and pend: "bufferReader_pend r = b @ rest" and len: "length b = unat L" and idx: "readIndex r = writeIndex r"
  obtains r' where "unmarshal_limited NewTextCodec (BufR r) L = (Ok (StringMsg b), BufR r')"
    and "bufferReader_inv r'" and "source_bytes r' = rest" and "writeIndex r' = writeIndex r + int (length b)"
proof -
  have le: "length b \<le> length (bufferReader_pend r)" by (simp add: pend)
  have fits: "bufferReader_fits r (length b)" using room by (simp add: bufferReader_fits_def)
  show thesis
  proof (rule bufferReader_Next_ok[OF inv fits le])
    fix r'
    assume n: "bufferReader_Next r (int (length b)) = (Ok (take (length b) (bufferReader_pend r)), r')"
      "bufferReader_inv r'" "bufferReader_pend r' = drop (length b) (bufferReader_pend r)"
      "readIndex r' = readIndex r + int (length b)"
      "writeIndex r' = max (writeIndex r) (readIndex r + int (length b))"
    have "buffered r' = []" using n(4,5) idx by (simp add: buffered_def)
    moreover have "bufferReader_pend r' = rest" using n(3) pend by simp
    ultimately have "source_bytes r' = rest" by (simp add: bufferReader_pend_def)
    moreover have "unmarshal_limited NewTextCodec (BufR r) L = (Ok (StringMsg b), BufR r')"
      using n(1) len pend by (simp add: unmarshal_limited_def unmarshal_deferred_def NewTextCodec_def
          textPayloadCodec_UnMarshal_def NewLimitReader_def)
    ultimately show thesis using n idx by (intro that[of r']) simp_all
  qed
qed

lemma var_text_reader:
  assumes "length b \<le> 251" and "pooled_ok p" and "flat src = length_header (length b) @ b @ rest"
  obtains r' where "Decode NewVariableLengthCodec (connection_Reader p src) NewTextCodec = (Ok (StringMsg b), BufR r')"
    and "bufferReader_inv r'" and "source_bytes r' = rest" and "writeIndex r' = 5 + int (length b)"
proof -
  obtain r1 where r1: "reader_Next (connection_Reader p src) 5 = (Ok (length_header (length b)), BufR r1)"
      "bufferReader_inv r1" "r_growable r1" "bufferReader_pend r1 = b @ rest"
      "readIndex r1 = 5" "writeIndex r1 = 5" "r_len r1 = 256"
    using connection_header[OF assms(2,3)] .
  have len: "length b = unat (of_nat (length b) :: uint32)" using assms(1) by (simp add: unat_of_nat)
  have room: "bufferReader_room r1 (length b)" using r1 assms(1) by (simp add: bufferReader_room_def)
  have idx: "readIndex r1 = writeIndex r1" using r1 by simp
  show thesis
    by (rule text_frame_reader[OF r1(2) room r1(4) len idx])
      (use r1 that in \<open>simp add: NewVariableLengthCodec_def variableLengthCodec_Decode_def MaxVarintLen32_def\<close>)
qed

lemma OnMessage_text:
  assumes "isActive s" and "ctx_channel x = Some c" and "Readable (chans s c)" and "pooled_ok p"
    and "packetCodec (th_ops s) = NewVariableLengthCodec" and "payloadCodec (th_ops s) = NewTextCodec"
    and "256 \<le> maxReceiveMessageSize (th_ops s)" and "length b \<le> 251"
    and "flat (c_source (conns s (ch_conn (chans s c)))) = length_header (length b) @ b @ rest"
  obtains r' src where "OnMessage p x s = (Ok (), Submit (InboundTask c (StringMsg b)) (took c (BufR r') s))"
    and "r_decorator r' = Some src" and "flat src = rest"
proof -
  let ?k = "ch_conn (chans s c)"
  obtain r' where r': "Decode NewVariableLengthCodec (connection_Reader p (c_source (conns s ?k))) NewTextCodec
        = (Ok (StringMsg b :: 'a message), BufR r')"
      "bufferReader_inv r'" "source_bytes r' = rest" "writeIndex r' = 5 + int (length b)"
    using var_text_reader[OF assms(8,4,9)] .
  obtain src where src: "r_decorator r' = Some src" "flat src = rest"
    using r'(2,3) by (auto simp: bufferReader_inv_def source_bytes_def)
  have "unat (of_int (5 + int (length b)) :: uint32) \<le> 256"
  proof -
    have "(of_int (5 + int (length b)) :: uint32) = of_nat (5 + length b)" by simp
    then have "unat (of_int (5 + int (length b)) :: uint32) = 5 + length b"
      using assms(8) unat_of_nat[where 'a = 32, of "5 + length b"] by simp
    with assms(8) show ?thesis by simp
  qed
  moreover have "256 \<le> unat (maxReceiveMessageSize (th_ops s))"
    using assms(7) by (simp add: word_le_nat_alt)
  ultimately have mx: "\<not> maxReceiveMessageSize (th_ops s) < of_int (reader_Length (BufR r'))"
    using r'(4) by (simp add: word_less_nat_alt bufferReader_Length_def)
  have rd: "channel_Reader p c s = Ok (connection_Reader p (c_source (conns s ?k)))"
    using assms(3) by (simp add: channel_Reader_def Readable_def)
  have "OnMessage p x s = (Ok (), Submit (InboundTask c (StringMsg b)) (took c (BufR r') s))"
    using assms(1,2,5,6) rd r'(1) mx by (simp add: OnMessage_def OnRead_cases Let_def)
  then show thesis using src by (rule that)
qed

section \<open>Failures\<close>

text \<open>What \<open>closeChannel\<close> does to a registered, open channel.\<close>

lemma closeChannel_registered:
  assumes "th_channels s c = Some v" and "ch_state (chans s c) \<noteq> inactive"
  shows "th_channels (closeChannel x c err s) = (th_channels s)(c := None)"
    and "channelCount (closeChannel x c err s) = channelCount s - 1"
    and "chans (closeChannel x c err s) = (chans s)(c := (chans s c)\<lparr>ch_state := inactive\<rparr>)"
    and "tasks (closeChannel x c err s) = tasks s @ [CloseWaitRead c x err]"
    and "v = RegKeeper k \<Longrightarrow> k_done (keepers (closeChannel x c err s) k)"
  using assms
  by (auto simp: closeChannel_def Let_def channel_Close_def channel_close_def inactive_def upd_ch_def Submit_def
      Keeper_Close_def upd_k_def split: registered.split)

lemma closeChannel_unregistered: "th_channels s c = None \<Longrightarrow> closeChannel x c err s = s"
  by (simp add: closeChannel_def)

lemma took_simps [simp]:
  "chans (took c r s) = chans s" "tasks (took c r s) = tasks s" "th_channels (took c r s) = th_channels s"
  "channelCount (took c r s) = channelCount s" "keepers (took c r s) = keepers s" "th_ops (took c r s) = th_ops s"
  "nextCh (took c r s) = nextCh s" "th_state (took c r s) = th_state s"
  by (auto simp: took_def Let_def split: option.split)

text \<open>
  C10: a packet that cannot be decoded closes its channel and no other. Whether the codec returns an
  error or panics (as it does for the texts that make the reader's buffer too small), the channel
  leaves the table, the count goes down by one, its keeper is stopped and the goroutine that closes
  it is started with the error; after a panic \<^verbatim>\<open>OnMessage\<close> reports success to the read loop.
\<close>

theorem decode_failure_closes_channel:
  assumes "isActive s" and "ctx_channel x = Some c" and "channel_Reader p c s = Ok r"
    and "Decode (packetCodec (th_ops s)) r (payloadCodec (th_ops s)) = (out, r')"
    and "(out, res, err) \<in> {(Err e, Err e, e), (Panic q, Ok (), panic_error q)}"
    and "th_channels s c = Some v"
  shows "\<exists>s'. OnMessage p x s = (res, s') \<and> th_channels s' = (th_channels s)(c := None) \<and>
    channelCount s' = channelCount s - 1 \<and> ch_state (chans s' c) = inactive \<and>
    tasks s' = tasks s @ [CloseWaitRead c Background (Some err)] \<and> (\<forall>d. d \<noteq> c \<longrightarrow> chans s' d = chans s d) \<and>
    (\<forall>k. v = RegKeeper k \<longrightarrow> k_done (keepers s' k))"
proof -
  have st: "ch_state (chans s c) \<noteq> inactive"
    using assms(3) by (auto simp: channel_Reader_def calState_def state_defs split: if_splits)
  have "OnMessage p x s = (res, closeChannel Background c (Some err) (took c r' s))"
    using assms(1-5) by (auto simp: OnMessage_def OnRead_cases Let_def)
  then show ?thesis
    using closeChannel_registered[where s = "took c r' s" and c = c and v = v and x = Background and err = "Some err"] assms(6) st by simp
qed

theorem decode_failure_closes_channel_witness:
  "\<exists>s'. OnMessage bufferReaderPool_New (WithChannel Background 0) (trans0 []) = (Err EOF, s') \<and>
    th_channels s' = (\<lambda>_. None) \<and> channelCount s' = 0 \<and> ch_state (chans s' 0) = inactive \<and>
    tasks s' = [CloseWaitRead 0 Background (Some EOF)]"
proof -
  let ?r = "connection_Reader bufferReaderPool_New \<lparr>chunks = [], fin = EOF\<rparr>"
  have d: "fst (Decode NewVariableLengthCodec ?r NewTextCodec) = (Err EOF :: unit message outcome)"
    by code_simp
  obtain r' where r': "Decode NewVariableLengthCodec ?r NewTextCodec = (Err EOF :: unit message outcome, r')"
    using d by (metis prod.collapse)
  have "channel_Reader bufferReaderPool_New 0 (trans0 []) = Ok ?r"
    using trans0_simps(9) by (simp add: channel_Reader_def Readable_def)
  from decode_failure_closes_channel[OF _ _ this, of "WithChannel Background 0" "Err EOF" r' "Err EOF" EOF EOF NilDereference RegNone]
  show ?thesis using r' by auto
qed

section \<open>The table of channels\<close>

definition table_ok :: "('v, 'z) trans_sys_scheme \<Rightarrow> bool" where
  "table_ok s \<longleftrightarrow> finite (dom (th_channels s)) \<and> channelCount s = int (card (dom (th_channels s))) \<and>
     (\<forall>c\<in>dom (th_channels s). c < nextCh s)"

text \<open>The part of the state the table consists of.\<close>

definition same_table :: "('v, 'z) trans_sys_scheme \<Rightarrow> ('v, 'z) trans_sys_scheme \<Rightarrow> bool" where
  "same_table s s' \<longleftrightarrow> th_channels s' = th_channels s \<and> channelCount s' = channelCount s \<and> nextCh s' = nextCh s \<and>
     th_ops s' = th_ops s"

lemma same_table_refl [simp]: "same_table s s"
  by (simp add: same_table_def)

lemma same_table_trans: "same_table s t \<Longrightarrow> same_table t u \<Longrightarrow> same_table s u"
  by (simp add: same_table_def)

lemma same_table_ok: "same_table s s' \<Longrightarrow> table_ok s \<Longrightarrow> table_ok s'"
  by (simp add: same_table_def table_ok_def)

lemma same_table_ops [simp]:
  "same_table s (upd_ch c f s)" "same_table s (upd_pl p g s)" "same_table s (Submit x s)"
  "same_table s (took c r s)" "same_table s (drop_task x s)" "same_table s (Keeper_Close k s)"
  "same_table s (Timer_AfterFunc d fn s)" "same_table s (SetContext c y s)" "same_table s (active c s)"
  by (simp_all add: same_table_def upd_ch_def upd_pl_def Submit_def drop_task_def Keeper_Close_def upd_k_def
      Timer_AfterFunc_def SetContext_def active_def)

lemma same_table_Close [simp]: "same_table s (snd (channel_Close x err c s))"
  by (simp add: channel_Close_def Let_def same_table_def upd_ch_def Submit_def)

lemma same_table_Keepalive: "same_table s (Keeper_Keepalive k s)"
  by (auto simp: Keeper_Keepalive_def Let_def same_table_def Timer_AfterFunc_def split: option.split)

lemma closeChannel_table:
  assumes "table_ok s"
  shows "table_ok (closeChannel x c err s)" and "channelCount (closeChannel x c err s) \<le> channelCount s"
    and "th_ops (closeChannel x c err s) = th_ops s"
proof -
  let ?s' = "closeChannel x c err s"
  have "table_ok ?s' \<and> channelCount ?s' \<le> channelCount s \<and> th_ops ?s' = th_ops s"
  proof (cases "th_channels s c")
    case None
    with assms show ?thesis by (simp add: closeChannel_unregistered)
  next
    case (Some v)
    let ?s1 = "s\<lparr>th_channels := (th_channels s)(c := None)\<rparr>"
    let ?s2 = "case v of RegKeeper k \<Rightarrow> Keeper_Close k ?s1 | RegNone \<Rightarrow> ?s1"
    have s': "?s' = snd (channel_Close x err c (?s2\<lparr>channelCount := channelCount ?s2 - 1\<rparr>))"
      using Some by (simp add: closeChannel_def Let_def)
    have s2: "same_table ?s1 ?s2" by (cases v) simp_all
    have t: "same_table (?s2\<lparr>channelCount := channelCount ?s2 - 1\<rparr>) ?s'" unfolding s' by simp
    have f: "finite (dom (th_channels s))" "channelCount s = int (card (dom (th_channels s)))"
        "\<And>d. d \<in> dom (th_channels s) \<Longrightarrow> d < nextCh s" using assms by (simp_all add: table_ok_def)
    have "c \<in> dom (th_channels s)" using Some by blast
    then have n: "card (dom (th_channels s)) = Suc (card (dom (th_channels s) - {c}))"
      using f(1) by (metis card.remove)
    have e: "th_channels ?s' = (th_channels s)(c := None)" "channelCount ?s' = channelCount s - 1"
        "nextCh ?s' = nextCh s" "th_ops ?s' = th_ops s"
      using t s2 by (simp_all add: same_table_def)
    with f n show ?thesis by (simp add: table_ok_def)
  qed
  then show "table_ok ?s'" "channelCount ?s' \<le> channelCount s" "th_ops ?s' = th_ops s" by simp_all
qed

lemma pipeline_factory_table:
  "pipeline_factory pick c s = (out, s') \<Longrightarrow> same_table s s'"
  by (auto simp: pipeline_factory_def pool_Get_def same_table_def upd_pl_def split: option.splits if_splits)

lemma NewChannel_table:
  assumes "NewChannel con sd pick s = (out, s')"
  shows "th_channels s' = th_channels s" and "channelCount s' = channelCount s" and "nextCh s' = nextCh s + 1"
    and "th_ops s' = th_ops s" and "out = Ok c \<Longrightarrow> c = nextCh s"
proof -
  obtain out1 s2 where f: "pipeline_factory pick (nextCh s) (s\<lparr>nextCh := nextCh s + 1, chans := (chans s)(nextCh s :=
      \<lparr>ch_ctx = Background, ch_conn = con, ch_state = inactive, ch_done = False, ch_pl = 0,
       ch_tasks = NewWaitGroup, ch_side = sd, lastRead = 0, lastWrite = 0, ch_idle = Some (clock s)\<rparr>)\<rparr>) = (out1, s2)"
    by fastforce
  have s2: "th_channels s2 = th_channels s" "channelCount s2 = channelCount s" "nextCh s2 = nextCh s + 1"
      "th_ops s2 = th_ops s" using pipeline_factory_table[OF f] by (simp_all add: same_table_def)
  show "th_channels s' = th_channels s" "channelCount s' = channelCount s" "nextCh s' = nextCh s + 1"
      "th_ops s' = th_ops s" "out = Ok c \<Longrightarrow> c = nextCh s"
    using assms f s2 by (cases out1; auto simp: NewChannel_def Let_def upd_ch_def)+
qed

lemma prepareKeepalive_table: "prepareKeepalive c s = (out, s') \<Longrightarrow> same_table s s'"
proof -
  have "same_table s (Keeper_Keepalive k (s\<lparr>keepers := f, nextKeeper := n\<rparr>))" for k f n
    by (rule same_table_trans[OF _ same_table_Keepalive]) (simp add: same_table_def)
  then show "prepareKeepalive c s = (out, s') \<Longrightarrow> same_table s s'"
    by (auto simp: prepareKeepalive_def Let_def NewKeeper_def split: if_splits option.splits)
qed

text \<open>
  The interface to the application's hooks: they leave the table of channels alone, and a hook that
  is called for a closed channel leaves the channels and goroutines alone.
\<close>

locale app_hooks =
  fixes ap :: "('v, ('v, 'z) trans_sys_scheme) app"
  assumes onChannel_table: "app_onChannel ap h y c s = (out', s') \<Longrightarrow> same_table s s'"
    and closed_table: "app_closed ap n x c err s = (out, s') \<Longrightarrow> same_table s s'"
    and closed_frame: "ch_state (chans s c) = inactive \<Longrightarrow> app_closed ap n x c err s = (out, s') \<Longrightarrow>
      chans s' = chans s \<and> tasks s' = tasks s \<and> pls s' = pls s"
begin

lemma Activate_table:
  assumes "channel_Activate (app_onChannel ap) x c s = (out, s')"
  shows "same_table s s'"
proof -
  have fire: "fire_onChannel (app_onChannel ap) hs y d t = (o', t') \<Longrightarrow> same_table t t'" for hs y d t t' o'
  proof (induction hs arbitrary: y t)
    case (Cons h hs)
    obtain o1 t1 where h: "app_onChannel ap h y d t = (o1, t1)" by fastforce
    note ft = onChannel_table[OF h]
    show ?case
    proof (cases o1)
      case (Ok y')
      let ?t = "case y' of None \<Rightarrow> t1 | Some z \<Rightarrow> SetContext d z t1"
      have "fire_onChannel (app_onChannel ap) hs y' d ?t = (o', t')" using Cons.prems h Ok by simp
      from Cons.IH[OF this] have "same_table ?t t'" .
      moreover have "same_table t1 ?t" by (cases y') simp_all
      ultimately show ?thesis using ft same_table_trans by blast
    qed (use Cons.prems h ft in simp_all)
  qed simp
  let ?p = "ch_pl (chans s c)"
  show ?thesis
  proof (cases "pl_ch (pls s ?p)")
    case None
    with assms show ?thesis by (simp add: channel_Activate_def FireOnChannel_def)
  next
    case (Some d)
    obtain o1 s1 where f: "fire_onChannel (app_onChannel ap) (onChannelChain (pls s ?p)) (Some x) d (SetContext d x s) = (o1, s1)"
      by fastforce
    have "same_table s s1" using same_table_trans[OF same_table_ops(8) fire[OF f]] .
    moreover have "s' = s1 \<or> s' = active d s1"
      using assms f Some by (cases o1) (auto simp: channel_Activate_def FireOnChannel_def)
    ultimately show ?thesis using same_table_trans same_table_ops(9) by blast
  qed
qed

end

sublocale app_hooks \<subseteq> closing_hooks "closed_hook ap"
proof
  fix s c h x err out s'
  assume st: "ch_state (chans s c) = inactive" and h: "closed_hook ap h x c err s = (out, s')"
  show "chans s' = chans s \<and> tasks s' = tasks s \<and> pls s' = pls s"
  proof (cases h)
    case CloseChannelHook
    then have "s' = closeChannel x c err s" using h by simp
    with st show ?thesis
      by (auto simp: closeChannel_def Let_def channel_Close_def Keeper_Close_def upd_k_def
          split: option.split registered.split)
  next
    case (UserClosed n)
    with h closed_frame[OF st] show ?thesis by simp
  qed
qed

text \<open>The events the transport handler serves.\<close>

inductive th_step ::
    "('v, ('v, 'z) trans_sys_scheme) app \<Rightarrow> ('v, 'z) trans_sys_scheme \<Rightarrow> ('v, 'z) trans_sys_scheme \<Rightarrow> bool"
  for ap where
  connect: "OnConnect ap pick x con s = (out, s') \<Longrightarrow> th_step ap s s'"
| message: "OnMessage p x s = (res, s') \<Longrightarrow> th_step ap s s'"
| conn_closed: "OnConnClosed x err s = (res, s') \<Longrightarrow> th_step ap s s'"
| send: "OnWrite c w m s = (res, s') \<Longrightarrow> th_step ap s s'"
| shutdown: "distinct cs \<Longrightarrow> set cs = dom (th_channels s) \<Longrightarrow> th_step ap s (th_Close x err cs s)"
| shutdown_task: "th_step ap s (run_closeChannel x c err s)"
| closing: "closed_hook ap h x c err s = (res, s') \<Longrightarrow> th_step ap s s'"

text \<open>A step keeps the table right, and the count within a bound that admits one more than the limit.\<close>

definition within :: "('v, 'z) trans_sys_scheme \<Rightarrow> ('v, 'z) trans_sys_scheme \<Rightarrow> bool" where
  "within s s' \<longleftrightarrow> table_ok s' \<and> th_ops s' = th_ops s \<and>
     (0 < maxChannelSize (th_ops s) \<longrightarrow> channelCount s' \<le> max (channelCount s) (uint (maxChannelSize (th_ops s)) + 1))"

lemma within_same: "same_table s s' \<Longrightarrow> table_ok s \<Longrightarrow> within s s'"
  by (simp add: within_def same_table_def table_ok_def)

lemma within_closeChannel: "same_table s t \<Longrightarrow> table_ok s \<Longrightarrow> within s (closeChannel x c err t)"
  using closeChannel_table[of t x c err] same_table_ok[of s t] by (simp add: within_def same_table_def le_max_iff_disj)

lemma connect_deferred_table: "same_table s (snd (connect_deferred co (out, s)))"
  by (auto simp: connect_deferred_def Let_def split: option.splits outcome.splits)

lemma OnRead_within: "OnRead c r s = (res, s') \<Longrightarrow> table_ok s \<Longrightarrow> within s s'"
proof -
  assume h: "OnRead c r s = (res, s')" and t: "table_ok s"
  obtain out r' where d: "Decode (packetCodec (th_ops s)) r (payloadCodec (th_ops s)) = (out, r')" by fastforce
  have "same_table s (Submit x (took c r' s))" for x using same_table_trans[OF same_table_ops(4) same_table_ops(3)] .
  with h d t show ?thesis
    by (auto simp: OnRead_cases Let_def intro!: within_same within_closeChannel split: if_splits outcome.splits)
qed

lemma OnWrite_within: "OnWrite c w m s = (res, s') \<Longrightarrow> table_ok s \<Longrightarrow> within s s'"
proof -
  assume h: "OnWrite c w m s = (res, s')" and t: "table_ok s"
  have "same_table s (s\<lparr>conns := f\<rparr>)" for f by (simp add: same_table_def)
  with h t show ?thesis
    by (auto simp: OnWrite_cases Let_def intro!: within_same within_closeChannel split: if_splits outcome.splits prod.splits)
qed

context app_hooks
begin

lemma OnConnect_within:
  assumes "OnConnect ap pick x con s = (out, s')" and t: "table_ok s"
  shows "within s s'"
proof (cases "isActive s \<and> \<not> (0 < maxChannelSize (th_ops s) \<and> channelCount s > uint (maxChannelSize (th_ops s)))")
  case False
  then have "s' = s \<or> s' = snd (connect_deferred None (Err (ErrMsg ''connection number out of limit''), s))"
    using assms(1) by (auto simp: OnConnect_def split: if_splits)
  then show ?thesis using t connect_deferred_table by (auto intro!: within_same)
next
  case True
  obtain o1 s1 where n: "NewChannel con (th_side s) pick s = (o1, s1)" by fastforce
  note nt = NewChannel_table[OF n]
  have t1: "table_ok s1" using t nt(1-3) by (simp add: table_ok_def less_SucI)
  have other: "within s s'" if "\<forall>c. o1 \<noteq> Ok c"
  proof -
    have "s' = s1 \<or> (\<exists>o'. connect_deferred None (o', s1) = (out, s'))"
      using assms(1) True n that by (cases o1) (auto simp: OnConnect_def)
    then have "same_table s1 s'"
    proof
      assume "\<exists>o'. connect_deferred None (o', s1) = (out, s')"
      then obtain o' where "connect_deferred None (o', s1) = (out, s')" ..
      with connect_deferred_table[of s1 None o'] show ?thesis by simp
    qed simp
    with same_table_ok[OF this t1] nt(2,4) show ?thesis by (simp add: within_def same_table_def)
  qed
  show ?thesis
  proof (cases o1)
    case (Ok c)
    let ?body = "and_then (channel_Activate (app_onChannel ap) x c s1) (\<lambda>_ s2. and_then (prepareKeepalive c s2) (\<lambda>k s3.
      (Ok (WithChannel x c), s3\<lparr>channelCount := channelCount s3 + 1, th_channels := (th_channels s3)(c \<mapsto> k)\<rparr>)))"
    obtain o4 s4 where b: "?body = (o4, s4)" by fastforce
    have "connect_deferred (Some c) (o4, s4) = (out, s')"
      using assms(1) True n Ok by (simp only: OnConnect_def b[symmetric]) simp
    then have s': "s' = snd (connect_deferred (Some c) (o4, s4))" by simp
    obtain o2 s2 where a: "channel_Activate (app_onChannel ap) x c s1 = (o2, s2)" by fastforce
    note at = Activate_table[OF a]
    obtain o3 s3 where k: "prepareKeepalive c s2 = (o3, s3)" by fastforce
    have st3: "same_table s1 s3" using same_table_trans[OF at prepareKeepalive_table[OF k]] .
    consider "s4 = s2" | "s4 = s3" |
        v where "s4 = s3\<lparr>channelCount := channelCount s3 + 1, th_channels := (th_channels s3)(c \<mapsto> v)\<rparr>"
    proof (rule and_then_cases[OF b[unfolded a]])
      fix u
      assume "and_then (prepareKeepalive c s2) (\<lambda>k s3. (Ok (WithChannel x c),
        s3\<lparr>channelCount := channelCount s3 + 1, th_channels := (th_channels s3)(c \<mapsto> k)\<rparr>)) = (o4, s4)"
      from and_then_cases[OF this[unfolded k]] that(2,3) show thesis by (metis prod.inject)
    qed (rule that(1))
    then have "within s s4"
    proof cases
      case 1
      show ?thesis unfolding 1 using at same_table_ok[OF at t1] nt by (simp add: within_def same_table_def)
    next
      case 2
      show ?thesis unfolding 2 using st3 same_table_ok[OF st3 t1] nt by (simp add: within_def same_table_def)
    next
      case 3
      have c: "c = nextCh s" using nt(5)[OF Ok] .
      have e: "th_channels s3 = th_channels s" "channelCount s3 = channelCount s" "nextCh s3 = nextCh s + 1" "th_ops s3 = th_ops s"
        using st3 nt by (simp_all add: same_table_def)
      have "c \<notin> dom (th_channels s)" using t c by (auto simp: table_ok_def)
      then have "table_ok s4" using t e c by (simp add: 3 table_ok_def less_SucI)
      moreover have "0 < maxChannelSize (th_ops s) \<longrightarrow> channelCount s \<le> uint (maxChannelSize (th_ops s))"
        using True by auto
      ultimately show ?thesis using e by (simp add: within_def 3)
    qed
    moreover have "same_table s4 s'" unfolding s' by (rule connect_deferred_table)
    ultimately show ?thesis using same_table_ok[of s4 s'] by (simp add: within_def same_table_def)
  qed (use other in simp_all)
qed

lemma th_step_within:
  assumes "th_step ap s s'" and t: "table_ok s"
  shows "within s s'"
  using assms(1)
proof cases
  case (connect pick x con out)
  then show ?thesis using OnConnect_within t by blast
next
  case (message p x res)
  then show ?thesis
    using t by (auto simp: OnMessage_def intro: within_same OnRead_within split: if_splits option.splits outcome.splits)
next
  case (conn_closed x err res)
  then show ?thesis
    using t by (auto simp: OnConnClosed_def intro: within_same within_closeChannel[OF same_table_refl] split: option.splits)
next
  case (send c w m res)
  then show ?thesis using OnWrite_within t by blast
next
  case (shutdown cs x err)
  have "same_table (s\<lparr>th_state := closed, closingCtx := Some x\<rparr>)
      (fold (\<lambda>c. Submit (CloseChannelTask x c err)) cs (s\<lparr>th_state := closed, closingCtx := Some x\<rparr>))"
    by (rule fold_invariant[where Q = "\<lambda>_. True" and
          P = "same_table (s\<lparr>th_state := closed, closingCtx := Some x\<rparr>)"])
      (auto intro: same_table_trans)
  then show ?thesis
    using t unfolding shutdown(1) th_Close_def by (auto intro!: within_same simp: same_table_def)
next
  case (shutdown_task x c err)
  then show ?thesis using t within_closeChannel[OF same_table_ops(5)] by (simp add: run_closeChannel_def)
next
  case (closing h x c err res)
  then show ?thesis
    using t closed_table by (cases h) (auto intro: within_same within_closeChannel[OF same_table_refl])
qed

lemma th_steps_within: "(th_step ap)\<^sup>*\<^sup>* s s' \<Longrightarrow> table_ok s \<Longrightarrow> within s s'"
proof (induction rule: rtranclp_induct)
  case (step t u)
  then have st: "within s t" by simp
  then have "within t u" using th_step_within[OF step(2)] by (simp add: within_def)
  with st show ?case by (simp add: within_def le_max_iff_disj) linarith
qed (simp add: within_def)

end

text \<open>An application without hooks and middlewares.\<close>

definition app0 :: "('v, ('v, 'z) trans_sys_scheme) app" where
  "app0 = \<lparr>app_onChannel = (\<lambda>h y c s. (Ok y, s)), app_closed = (\<lambda>n x c err s. (Ok (), s)),
     app_in = (\<lambda>_ h. h), app_out = (\<lambda>_ h. h), app_router = (\<lambda>n x c m s. (Ok emptyHandler, s))\<rparr>"

interpretation plain: app_hooks app0
  by unfold_locales (simp_all add: app0_def)

text \<open>
  C5: the table of channels is kept right. Whatever connects, arrives, is sent, fails or is closed,
  in whatever order, the counter is the number of the channels in the table (so it is never
  negative, and a channel is counted down once, however often and from wherever it is closed); and
  with a limit \<^verbatim>\<open>maxChannelSize\<close>, there are never more than one more than the limit.
\<close>

theorem channel_table:
  assumes "app_hooks ap" and "NewTransHandler rnd ops defaults s0 = (Ok (), s)" and "(th_step ap)\<^sup>*\<^sup>* s s'"
  shows "finite (dom (th_channels s')) \<and> channelCount s' = int (card (dom (th_channels s'))) \<and>
    (0 < maxChannelSize (th_ops s) \<longrightarrow> channelCount s' \<le> uint (maxChannelSize (th_ops s)) + 1)"
proof -
  have "th_channels s = (\<lambda>_. None)" "channelCount s = 0"
    using assms(2) by (auto simp: NewTransHandler_def Let_def and_then_Ok_iff NewPipelineFactory_def)
  then have "table_ok s" and c: "channelCount s = 0" by (simp_all add: table_ok_def)
  from app_hooks.th_steps_within[OF assms(1,3) this(1)] show ?thesis
    using c by (auto simp: within_def table_ok_def le_max_iff_disj)
qed

lemma plain_hooks: "app_hooks app0"
  by (rule plain.app_hooks_axioms)

definition handler0 :: "unit outcome \<times> unit trans_sys" where
  "handler0 = NewTransHandler (\<lambda>_. 0) [MaxChannelSize 1] defaultTransOptions (trans0 [])"

theorem channel_table_witness:
  "\<exists>s'. fst handler0 = Ok () \<and> (th_step app0)\<^sup>*\<^sup>* (snd handler0) s' \<and> channelCount s' = 1 \<and>
    card (dom (th_channels s')) = 1"
proof -
  have ok: "fst handler0 = Ok ()" by code_simp
  then have n: "NewTransHandler (\<lambda>_. 0) [MaxChannelSize 1] defaultTransOptions (trans0 []) = (Ok (), snd handler0)"
    by (metis handler0_def prod.collapse)
  have cnt: "channelCount (snd (OnConnect app0 None Background 5 (snd handler0))) = 1" by code_simp
  obtain out s' where c: "OnConnect app0 None Background 5 (snd handler0) = (out, s')" by fastforce
  have r: "(th_step app0)\<^sup>*\<^sup>* (snd handler0) s'" using connect[OF c] by blast
  have "channelCount s' = 1" using cnt c by simp
  then show ?thesis using channel_table[OF plain_hooks n r] ok r by auto
qed

text \<open>
  The limit. A connection is refused only when the number of channels already exceeds the limit:
  with \<^verbatim>\<open>maxChannelSize\<close> channels open, one more is accepted.
\<close>

theorem connection_limit:
  assumes "isActive s" and "0 < maxChannelSize (th_ops s)"
    and "NewChannel con (th_side s) pick s = (Ok c, s1)" and "channel_Activate (app_onChannel ap) x c s1 = (Ok u, s2)"
    and "prepareKeepalive c s2 = (Ok k, s3)" and "isActive s3"
  shows "if channelCount s \<le> uint (maxChannelSize (th_ops s))
    then OnConnect ap pick x con s =
      (Ok (WithChannel x c), s3\<lparr>channelCount := channelCount s3 + 1, th_channels := (th_channels s3)(c \<mapsto> k)\<rparr>)
    else OnConnect ap pick x con s = (Err (ErrMsg ''connection number out of limit''), s)"
proof -
  have "isActive (s3\<lparr>channelCount := channelCount s3 + 1, th_channels := (th_channels s3)(c \<mapsto> k)\<rparr>)"
    using assms(6) by (simp add: isActive_def)
  with assms show ?thesis by (simp add: OnConnect_def connect_deferred_def)
qed

theorem connection_limit_witness:
  "let s = snd handler0\<lparr>channelCount := 1\<rparr> in channelCount s = uint (maxChannelSize (th_ops s)) \<and>
     fst (OnConnect app0 None Background 5 s) = Ok (WithChannel Background 1)"
proof -
  let ?s = "snd handler0\<lparr>channelCount := 1\<rparr>"
  have "isActive ?s" "0 < maxChannelSize (th_ops ?s)" "channelCount ?s = uint (maxChannelSize (th_ops ?s))" by code_simp+
  moreover obtain s1 where n: "NewChannel 5 (th_side ?s) None ?s = (Ok 1, s1)" "s1 = snd (NewChannel 5 (th_side ?s) None ?s)"
  proof -
    have "fst (NewChannel 5 (th_side ?s) None ?s) = Ok 1" by code_simp
    then show ?thesis using that by (metis prod.collapse)
  qed
  moreover obtain s2 where a: "channel_Activate (app_onChannel app0) Background 1 s1 = (Ok (), s2)"
      "s2 = snd (channel_Activate (app_onChannel app0) Background 1 s1)"
  proof -
    have "fst (channel_Activate (app_onChannel app0) Background 1 s1) = Ok ()" unfolding n(2) by code_simp
    then show ?thesis using that by (metis prod.collapse)
  qed
  moreover obtain s3 where k: "prepareKeepalive 1 s2 = (Ok RegNone, s3)" "s3 = snd (prepareKeepalive 1 s2)"
  proof -
    have "fst (prepareKeepalive 1 s2) = Ok RegNone" unfolding a(2) n(2) by code_simp
    then show ?thesis using that by (metis prod.collapse)
  qed
  moreover have "isActive s3" unfolding k(2) a(2) n(2) by code_simp
  ultimately show ?thesis
    using connection_limit[of ?s 5 None 1 s1 app0 Background "()" s2 RegNone s3] by simp
qed

section \<open>Connections that are refused\<close>

text \<open>Hooks that only decide whether a connection is accepted.\<close>

definition deciding :: "('v, ('v, 'z) trans_sys_scheme) app \<Rightarrow> bool" where
  "deciding ap \<longleftrightarrow> (\<forall>h y c s. snd (app_onChannel ap h y c s) = s)"

lemma SetContext_simps [simp]:
  "conns (SetContext c x s) = conns s" "tasks (SetContext c x s) = tasks s" "pls (SetContext c x s) = pls s"
  "ch_state (chans (SetContext c x s) d) = ch_state (chans s d)" "th_state (SetContext c x s) = th_state s"
  by (simp_all add: SetContext_def upd_ch_def)

lemma deciding_fire:
  assumes "deciding ap" and "fire_onChannel (app_onChannel ap) hs y c s = (out, s')"
  shows "conns s' = conns s \<and> tasks s' = tasks s \<and> th_state s' = th_state s \<and>
    (\<forall>d. ch_state (chans s' d) = ch_state (chans s d))"
  using assms(2)
proof (induction hs arbitrary: y s)
  case (Cons h hs)
  obtain o1 where h: "app_onChannel ap h y c s = (o1, s)"
    using assms(1) by (metis deciding_def prod.collapse)
  show ?case
  proof (cases o1)
    case (Ok y')
    from Cons.IH[of y' "case y' of None \<Rightarrow> s | Some z \<Rightarrow> SetContext c z s"] Cons.prems h Ok
    show ?thesis by (cases y') simp_all
  qed (use Cons.prems h in simp_all)
qed simp

lemma deciding_Activate:
  assumes "deciding ap" and "channel_Activate (app_onChannel ap) x c s = (out, s')"
  shows "conns s' = conns s \<and> tasks s' = tasks s \<and> th_state s' = th_state s"
    and "out = Err e \<Longrightarrow> ch_state (chans s' d) = ch_state (chans s d)"
proof -
  let ?p = "ch_pl (chans s c)"
  have "conns s' = conns s \<and> tasks s' = tasks s \<and> th_state s' = th_state s \<and>
    (out = Err e \<longrightarrow> ch_state (chans s' d) = ch_state (chans s d))"
  proof (cases "pl_ch (pls s ?p)")
    case (Some c')
    obtain o1 t where f: "fire_onChannel (app_onChannel ap) (onChannelChain (pls s ?p)) (Some x) c' (SetContext c' x s) = (o1, t)"
      by fastforce
    from deciding_fire[OF assms(1) f] assms(2) f Some show ?thesis
      by (cases o1) (auto simp: channel_Activate_def FireOnChannel_def active_def upd_ch_def)
  qed (use assms(2) in \<open>auto simp: channel_Activate_def FireOnChannel_def\<close>)
  then show "conns s' = conns s \<and> tasks s' = tasks s \<and> th_state s' = th_state s"
    "out = Err e \<Longrightarrow> ch_state (chans s' d) = ch_state (chans s d)" by simp_all
qed

lemma NewChannel_frame:
  assumes "NewChannel con sd pick s = (out, s')"
  shows "conns s' = conns s \<and> tasks s' = tasks s \<and> th_state s' = th_state s"
    and "out = Ok c \<Longrightarrow> ch_state (chans s' c) = inactive"
  using assms by (cases pick; auto simp: NewChannel_def Let_def pipeline_factory_def pool_Get_def upd_ch_def upd_pl_def
      split: if_splits option.splits)+

lemma prepareKeepalive_no_error: "prepareKeepalive c s = (out, s') \<Longrightarrow> out \<noteq> Err e"
  by (auto simp: prepareKeepalive_def Let_def split: if_splits option.splits prod.splits)

lemma isActive_registered [simp]: "isActive (s\<lparr>channelCount := n, th_channels := f\<rparr>) = isActive s"
  by (simp add: isActive_def)

lemma Keepalive_th_state [simp]: "th_state (Keeper_Keepalive k s) = th_state s"
  by (auto simp: Keeper_Keepalive_def Let_def Timer_AfterFunc_def split: option.split)

lemma prepareKeepalive_active: "prepareKeepalive c s = (out, s') \<Longrightarrow> isActive s' = isActive s"
  by (auto simp: prepareKeepalive_def Let_def NewKeeper_def isActive_def split: if_splits option.splits)

text \<open>
  A connection that is refused is left open. When \<^verbatim>\<open>OnConnect\<close> fails (the limit is reached, or one
  of the application's hooks says no), no connection is closed and no goroutine that would close one
  is started: the closing of the channel fails, because the channel was never active.
\<close>

theorem refused_connection_stays_open:
  assumes "deciding ap" and "OnConnect ap pick x con s = (Err e, s')"
  shows "conns s' = conns s \<and> tasks s' = tasks s"
proof (cases "isActive s \<and> \<not> (0 < maxChannelSize (th_ops s) \<and> channelCount s > uint (maxChannelSize (th_ops s)))")
  case False
  then show ?thesis
    using assms(2) by (auto simp: OnConnect_def connect_deferred_def Let_def split: if_splits)
next
  case True
  obtain o1 s1 where n: "NewChannel con (th_side s) pick s = (o1, s1)" by fastforce
  note s1 = NewChannel_frame[OF n]
  show ?thesis
  proof (cases o1)
    case (Ok c)
    obtain o2 s2 where a: "channel_Activate (app_onChannel ap) x c s1 = (o2, s2)" by fastforce
    note s2 = deciding_Activate[OF assms(1) a]
    have act: "isActive s2" using True s1(1) s2(1) by (simp add: isActive_def)
    show ?thesis
    proof (cases o2)
      case (Err e')
      then have "s' = s2 \<or> s' = snd (channel_Close Background (Some e') c s2)"
        using assms(2) True n Ok a act by (auto simp: OnConnect_def connect_deferred_def)
      moreover have "snd (channel_Close Background (Some e') c s2) = s2"
        using s1(2)[OF Ok] s2(2)[OF Err, of c] by (simp add: channel_Close_def channel_close_def Let_def)
      ultimately show ?thesis using s1(1) s2(1) by auto
    next
      case Ok2: (Ok u)
      obtain o3 s3 where k: "prepareKeepalive c s2 = (o3, s3)" by fastforce
      have "isActive s3" using act prepareKeepalive_active[OF k] by simp
      then have "False" using assms(2) True n Ok a k Ok2 prepareKeepalive_no_error[OF k]
        by (cases o3) (auto simp: OnConnect_def connect_deferred_def)
      then show ?thesis ..
    qed (use assms(2) True n Ok a act in \<open>simp_all add: OnConnect_def connect_deferred_def\<close>)
  qed (use assms(2) True n s1 in \<open>auto simp: OnConnect_def connect_deferred_def Let_def split: if_splits\<close>)
qed

theorem refused_connection_stays_open_witness:
  "let s = snd handler0\<lparr>channelCount := 2\<rparr>; (out, s') = OnConnect app0 None Background 5 s in
     out = Err (ErrMsg ''connection number out of limit'') \<and> conns s' = conns s \<and> tasks s' = tasks s"
proof -
  let ?s = "snd handler0\<lparr>channelCount := 2\<rparr>"
  have d: "deciding app0" by (simp add: deciding_def app0_def)
  have "fst (OnConnect app0 None Background 5 ?s) = Err (ErrMsg ''connection number out of limit'')" by code_simp
  then obtain s' where c: "OnConnect app0 None Background 5 ?s = (Err (ErrMsg ''connection number out of limit''), s')"
    by (metis prod.collapse)
  from refused_connection_stays_open[OF d c] c show ?thesis by simp
qed

end
