(* ===== verification/KeepaliveRun.thy ===== *)
theory KeepaliveRun
  imports KeepaliveProps TransProps
begin

text \<open>
  Keepers over time: in every run of the keepers, their timers and the rest of the system, a channel
  that is watched and still open has shown a sign of life not too long ago.
\<close>

section \<open>What the rest of the system may do to a keeper\<close>

text \<open>
  Other activity leaves the clock, the timers and the parameters alone; it may note signs of life,
  stop keepers and close channels, but not reopen them.
\<close>

definition calm :: "('v, 'z) ka_sys_scheme \<Rightarrow> ('v, 'z) ka_sys_scheme \<Rightarrow> bool" where
  "calm s s' \<longleftrightarrow> clock s' = clock s \<and> timers s' = timers s \<and> nextKeeper s' = nextKeeper s \<and>
     (\<forall>k. kp (keepers s' k) = kp (keepers s k) \<and> k_ch (keepers s' k) = k_ch (keepers s k) \<and>
        lastPing (keepers s' k) = lastPing (keepers s k) \<and> lastPong (keepers s k) \<le> lastPong (keepers s' k) \<and>
        (k_done (keepers s k) \<longrightarrow> k_done (keepers s' k))) \<and>
     (\<forall>k<nextKeeper s. let c = k_ch (keepers s k) in
        lastRead (chans s c) \<le> lastRead (chans s' c) \<and> (Readable (chans s' c) \<longrightarrow> Readable (chans s c)))"

lemma calm_refl [simp]: "calm s s"
  by (simp add: calm_def Let_def)

lemma calm_trans: "calm s t \<Longrightarrow> calm t u \<Longrightarrow> calm s u"
proof -
  assume a: "calm s t" and b: "calm t u"
  have "lastPong (keepers s k) \<le> lastPong (keepers u k)" for k
    using a b unfolding calm_def by (meson order.trans)
  moreover have "lastRead (chans s c) \<le> lastRead (chans u c)" if "k < nextKeeper s" "c = k_ch (keepers s k)" for k c
    using a b that order.trans[of "lastRead (chans s c)" "lastRead (chans t c)" "lastRead (chans u c)"]
    by (simp add: calm_def Let_def)
  ultimately show ?thesis using a b by (simp add: calm_def Let_def)
qed

lemma calm_conns [simp]: "calm s (s\<lparr>conns := f\<rparr>)"
  by (simp add: calm_def Let_def)

lemma calm_Submit [simp]: "calm s (Submit x s)"
  by (simp add: calm_def Let_def Submit_def)

lemma calm_Keeper_Close [simp]: "calm s (Keeper_Close k s)"
  by (simp add: calm_def Let_def Keeper_Close_def upd_k_def)

lemma calm_Close [simp]: "calm s (snd (channel_Close x err c s))"
  by (auto simp: calm_def Let_def channel_Close_def upd_ch_def Submit_def Readable_def calState_def state_defs channel_close_def)

lemma calm_stopChannel [simp]: "calm s (stopChannel k err s)"
proof (cases "k_done (keepers s k)")
  case False
  let ?s1 = "(upd_k k (\<lambda>kr. kr\<lparr>k_done := True\<rparr>) s)\<lparr>nextCtx := nextCtx s + 1\<rparr>"
  have 1: "calm s ?s1" by (simp add: calm_def Let_def upd_k_def)
  have 2: "calm t (t\<lparr>ctxDone := f\<rparr>)" for f and t :: "('a, 'b) ka_sys_scheme" by (simp add: calm_def Let_def)
  show ?thesis
    using False calm_trans[OF calm_trans[OF 1 calm_Close] 2]
    by (simp add: stopChannel_def close_with_timeout_def Let_def upd_k_def)
qed (simp add: stopChannel_def)

lemma calm_closeChannel: "calm s (closeChannel x c err s)"
proof (cases "th_channels s c")
  case (Some v)
  let ?s1 = "s\<lparr>th_channels := (th_channels s)(c := None)\<rparr>"
  let ?s2 = "case v of RegKeeper k \<Rightarrow> Keeper_Close k ?s1 | RegNone \<Rightarrow> ?s1"
  let ?s3 = "?s2\<lparr>channelCount := channelCount ?s2 - 1\<rparr>"
  have "calm s ?s1" by (simp add: calm_def Let_def)
  moreover have "calm ?s1 ?s2" by (cases v) simp_all
  moreover have "calm ?s2 ?s3" by (simp add: calm_def Let_def)
  ultimately have "calm s ?s3" using calm_trans by blast
  from calm_trans[OF this calm_Close] show ?thesis using Some by (simp add: closeChannel_def Let_def)
qed (simp add: closeChannel_def)

text \<open>The interface to the outbound handler, by which a keeper sends its messages.\<close>

locale keeper_writes =
  fixes oh :: "outHandler \<Rightarrow> ('v, ('v, 'z) ka_sys_scheme) Handler"
  assumes oh_calm: "oh h x c m s = (out, s') \<Longrightarrow> calm s s'"

interpretation th: keeper_writes out_handler
proof
  fix h x c m s out s'
  assume "out_handler h x c m (s :: ('a, 'b) trans_sys_scheme) = (out, s')"
  then have "th_outboundHandler x c m s = (out, s')" by (cases h) simp
  moreover have "calm s (closeChannel y c e (s\<lparr>conns := f\<rparr>))" for y e f
    using calm_trans[OF calm_conns calm_closeChannel] .
  ultimately show "calm s s'"
    by (auto simp: th_outboundHandler_def OnWrite_cases Let_def split: outcome.splits if_splits prod.splits)
qed

section \<open>Runs\<close>

text \<open>
  A state and, for each keeper, when it was started. A timer may fire before it is due, but is
  at most \<open>\<delta>\<close> late; its function returns (a function that panics is lost with its timer).
\<close>

inductive ka_step ::
    "(outHandler \<Rightarrow> ('v, ('v, 'z) ka_sys_scheme) Handler) \<Rightarrow> int \<Rightarrow>
     ('v, 'z) ka_sys_scheme \<times> (nat \<Rightarrow> int) \<Rightarrow> ('v, 'z) ka_sys_scheme \<times> (nat \<Rightarrow> int) \<Rightarrow> bool"
  for oh \<delta> where
  start: "(\<forall>hp. healthParams p = Some hp \<longrightarrow> usable_health hp) \<Longrightarrow> NewKeeper p c s = (k, s1) \<Longrightarrow>
    ka_step oh \<delta> (s, st) (Keeper_Keepalive k s1, st(k := clock s))"
| fire: "(t, fn) \<in> set (timers s) \<Longrightarrow>
    run_timer oh fn (s\<lparr>timers := remove1 (t, fn) (timers s)\<rparr>) = (Ok (), s') \<Longrightarrow> ka_step oh \<delta> (s, st) (s', st)"
| other: "calm s s' \<Longrightarrow> ka_step oh \<delta> (s, st) (s', st)"
| tick: "clock s \<le> n \<Longrightarrow> (\<forall>(t, fn)\<in>set (timers s). n \<le> t + \<delta>) \<Longrightarrow> ka_step oh \<delta> (s, st) (s\<lparr>clock := n\<rparr>, st)"

section \<open>Invariant\<close>

definition live :: "nat \<Rightarrow> 'v HealthParams \<Rightarrow> ('v, 'z) ka_sys_scheme \<Rightarrow> bool" where
  "live k hp s \<longleftrightarrow> k < nextKeeper s \<and> \<not> k_done (keepers s k) \<and> Readable (chans s (k_ch (keepers s k))) \<and>
     healthParams (kp (keepers s k)) = Some hp \<and> 0 < Time hp"

text \<open>By when the next sign of life, or a ping, is due.\<close>

definition heard :: "nat \<Rightarrow> 'v HealthParams \<Rightarrow> ('v, 'z) ka_sys_scheme \<Rightarrow> (nat \<Rightarrow> int) \<Rightarrow> int" where
  "heard k hp s st = max (lastRead (chans s (k_ch (keepers s k))) + Time hp)
     (max (st k + Time hp) (lastPong (keepers s k) + Timeout hp))"

definition due :: "nat \<Rightarrow> 'v HealthParams \<Rightarrow> ('v, 'z) ka_sys_scheme \<Rightarrow> (nat \<Rightarrow> int) \<Rightarrow> int" where
  "due k hp s st = max (lastRead (chans s (k_ch (keepers s k))) + Time hp)
     (max (st k + Time hp) (lastPing (keepers s k) + Timeout hp))"

definition params_ok :: "('v, 'z) ka_sys_scheme \<Rightarrow> bool" where
  "params_ok s \<longleftrightarrow> (\<forall>k<nextKeeper s. \<forall>hp. healthParams (kp (keepers s k)) = Some hp \<longrightarrow> usable_health hp)"

definition timers_ok :: "int \<Rightarrow> ('v, 'z) ka_sys_scheme \<Rightarrow> bool" where
  "timers_ok \<delta> s \<longleftrightarrow> (\<forall>t k. (t, HealthFn k) \<in> set (timers s) \<longrightarrow> k < nextKeeper s \<and> clock s \<le> t + \<delta> \<and>
     (\<exists>hp. healthParams (kp (keepers s k)) = Some hp \<and> 0 < Time hp))"

definition watched :: "int \<Rightarrow> ('v, 'z) ka_sys_scheme \<Rightarrow> (nat \<Rightarrow> int) \<Rightarrow> nat \<Rightarrow> bool" where
  "watched \<delta> s st k \<longleftrightarrow> (\<forall>hp. live k hp s \<longrightarrow> lastPing (keepers s k) \<le> heard k hp s st + \<delta> \<and>
     (\<exists>t. (t, HealthFn k) \<in> set (timers s) \<and> t \<le> due k hp s st))"

definition watch_inv :: "int \<Rightarrow> ('v, 'z) ka_sys_scheme \<Rightarrow> (nat \<Rightarrow> int) \<Rightarrow> bool" where
  "watch_inv \<delta> s st \<longleftrightarrow> params_ok s \<and> timers_ok \<delta> s \<and> (\<forall>k. watched \<delta> s st k)"

text \<open>Steps that are calm except for timers of other kinds.\<close>

definition calm_but_timers :: "('v, 'z) ka_sys_scheme \<Rightarrow> ('v, 'z) ka_sys_scheme \<Rightarrow> bool" where
  "calm_but_timers s s' \<longleftrightarrow> calm (s\<lparr>timers := []\<rparr>) (s'\<lparr>timers := []\<rparr>) \<and>
     (\<forall>t k. (t, HealthFn k) \<in> set (timers s') \<longleftrightarrow> (t, HealthFn k) \<in> set (timers s))"

lemma calm_calm: "calm s s' \<Longrightarrow> calm_but_timers s s'"
  by (simp add: calm_but_timers_def calm_def)

lemma calm_but_trans: "calm_but_timers s t \<Longrightarrow> calm_but_timers t u \<Longrightarrow> calm_but_timers s u"
  unfolding calm_but_timers_def using calm_trans by blast

lemma calm_but_AfterFunc: "(\<forall>k. fn \<noteq> HealthFn k) \<Longrightarrow> calm_but_timers s (Timer_AfterFunc d fn s)"
  by (auto simp: calm_but_timers_def Timer_AfterFunc_def calm_def Let_def)

lemma calm_but_simps [simp]:
  "calm_but_timers s s" "calm_but_timers s (Timer_AfterFunc d (IdleFn k) s)" "calm_but_timers s (Timer_AfterFunc d (AgeFn k) s)"
  "calm_but_timers s (Timer_AfterFunc d (GraceFn c err g) s)"
  by (simp_all add: calm_calm calm_but_AfterFunc)

lemma calm_but_remove: "(\<forall>k. fn \<noteq> HealthFn k) \<Longrightarrow> calm_but_timers s (s\<lparr>timers := remove1 (t, fn) (timers s)\<rparr>)"
  by (auto simp: calm_but_timers_def dest: set_remove1_subset[THEN subsetD])
    (metis in_set_remove1 prod.inject)

lemma calm_but_facts:
  assumes "calm_but_timers s s'"
  shows "clock s' = clock s" "nextKeeper s' = nextKeeper s" "kp (keepers s' k) = kp (keepers s k)"
    "k_ch (keepers s' k) = k_ch (keepers s k)" "lastPing (keepers s' k) = lastPing (keepers s k)"
    "lastPong (keepers s k) \<le> lastPong (keepers s' k)" "k_done (keepers s k) \<Longrightarrow> k_done (keepers s' k)"
    "k < nextKeeper s \<Longrightarrow> lastRead (chans s (k_ch (keepers s k))) \<le> lastRead (chans s' (k_ch (keepers s k)))"
    "k < nextKeeper s \<Longrightarrow> Readable (chans s' (k_ch (keepers s k))) \<Longrightarrow> Readable (chans s (k_ch (keepers s k)))"
    "(t, HealthFn k) \<in> set (timers s') \<longleftrightarrow> (t, HealthFn k) \<in> set (timers s)"
  using assms by (simp_all add: calm_but_timers_def calm_def Let_def)

lemma watched_calm:
  assumes "watched \<delta> s st k" and c: "calm_but_timers s s'"
  shows "watched \<delta> s' st k"
  unfolding watched_def
proof (intro allI impI)
  fix hp assume "live k hp s'"
  then have l: "live k hp s" using calm_but_facts(2-4,7,9)[OF c] by (auto simp: live_def)
  then have k: "k < nextKeeper s" by (simp add: live_def)
  have h: "heard k hp s st \<le> heard k hp s' st" "due k hp s st \<le> due k hp s' st"
    unfolding heard_def due_def calm_but_facts(4,5)[OF c]
    using calm_but_facts(6)[OF c, of k] calm_but_facts(8)[OF c k] by (intro max.mono; simp)+
  from assms(1) l obtain t where t: "lastPing (keepers s k) \<le> heard k hp s st + \<delta>" "(t, HealthFn k) \<in> set (timers s)"
      "t \<le> due k hp s st" unfolding watched_def by blast
  have "lastPing (keepers s' k) \<le> heard k hp s' st + \<delta>" using t(1) h(1) calm_but_facts(5)[OF c, of k] by linarith
  moreover have "(t, HealthFn k) \<in> set (timers s')" using t(2) calm_but_facts(10)[OF c] by simp
  moreover have "t \<le> due k hp s' st" using t(3) h(2) by linarith
  ultimately show "lastPing (keepers s' k) \<le> heard k hp s' st + \<delta> \<and>
      (\<exists>t. (t, HealthFn k) \<in> set (timers s') \<and> t \<le> due k hp s' st)" by blast
qed

lemma watch_inv_calm:
  assumes "watch_inv \<delta> s st" and c: "calm_but_timers s s'"
  shows "watch_inv \<delta> s' st"
  using assms(1) watched_calm[OF _ c] calm_but_facts[OF c]
  by (simp add: watch_inv_def params_ok_def timers_ok_def)

section \<open>The health check\<close>

text \<open>The invariant but for keeper \<open>k\<close>, whose timer has just fired.\<close>

definition rest_inv :: "int \<Rightarrow> ('v, 'z) ka_sys_scheme \<Rightarrow> (nat \<Rightarrow> int) \<Rightarrow> nat \<Rightarrow> bool" where
  "rest_inv \<delta> s st k \<longleftrightarrow> params_ok s \<and> timers_ok \<delta> s \<and> (\<forall>j. j \<noteq> k \<longrightarrow> watched \<delta> s st j)"

lemma rest_invI: "rest_inv \<delta> s st k \<Longrightarrow> watched \<delta> s st k \<Longrightarrow> watch_inv \<delta> s st"
  by (auto simp: rest_inv_def watch_inv_def)

lemma rest_inv_but_timers:
  assumes "rest_inv \<delta> s st k" and c: "calm_but_timers s s'"
  shows "rest_inv \<delta> s' st k"
  using assms(1) watched_calm[OF _ c] calm_but_facts[OF c]
  by (simp add: rest_inv_def params_ok_def timers_ok_def)

lemma rest_inv_calm: "rest_inv \<delta> s st k \<Longrightarrow> calm s s' \<Longrightarrow> rest_inv \<delta> s' st k"
  using rest_inv_but_timers calm_calm by blast

lemma rest_inv_fired:
  assumes "watch_inv \<delta> s st"
  shows "rest_inv \<delta> (s\<lparr>timers := remove1 (t, HealthFn k) (timers s)\<rparr>) st k"
proof -
  let ?s = "s\<lparr>timers := remove1 (t, HealthFn k) (timers s)\<rparr>"
  have m: "x \<in> set (timers ?s) \<Longrightarrow> x \<in> set (timers s)" for x using set_remove1_subset by fastforce
  have "timers_ok \<delta> ?s"
    unfolding timers_ok_def
  proof (intro allI impI)
    fix u j assume "(u, HealthFn j) \<in> set (timers ?s)"
    from m[OF this] assms show "j < nextKeeper ?s \<and> clock ?s \<le> u + \<delta> \<and> (\<exists>hp. healthParams (kp (keepers ?s j)) = Some hp \<and> 0 < Time hp)"
      by (simp add: watch_inv_def timers_ok_def)
  qed
  moreover
  have "watched \<delta> ?s st j" if "j \<noteq> k" for j
  proof -
    have "live j hp ?s = live j hp s" "heard j hp ?s st = heard j hp s st" "due j hp ?s st = due j hp s st" for hp
      by (simp_all add: live_def heard_def due_def)
    moreover have "(u, HealthFn j) \<in> set (timers ?s) \<longleftrightarrow> (u, HealthFn j) \<in> set (timers s)" for u
      using that m by auto
    ultimately show ?thesis using assms by (simp add: watch_inv_def watched_def)
  qed
  ultimately show ?thesis using assms by (simp add: rest_inv_def watch_inv_def params_ok_def)
qed

lemma rest_inv_ping: "rest_inv \<delta> s st k \<Longrightarrow> rest_inv \<delta> (upd_k k (\<lambda>kr. kr\<lparr>lastPing := x\<rparr>) s) st k"
  by (auto simp: rest_inv_def params_ok_def timers_ok_def watched_def live_def heard_def due_def upd_k_def)

lemma rest_inv_arm:
  assumes "rest_inv \<delta> s st k" and "0 \<le> d + \<delta>" and "k < nextKeeper s" and "healthParams (kp (keepers s k)) = Some hp" and "0 < Time hp"
  shows "rest_inv \<delta> (Timer_AfterFunc d (HealthFn k) s) st k"
proof -
  have "watched \<delta> (Timer_AfterFunc d (HealthFn k) s) st j" if "j \<noteq> k" for j
  proof -
    let ?s = "Timer_AfterFunc d (HealthFn k) s"
    have "live j hp ?s = live j hp s" "heard j hp ?s st = heard j hp s st" "due j hp ?s st = due j hp s st" for hp
      by (simp_all add: live_def heard_def due_def Timer_AfterFunc_def)
    then show ?thesis using that assms(1) by (auto simp: rest_inv_def watched_def Timer_AfterFunc_def)
  qed
  then show ?thesis using assms by (auto simp: rest_inv_def params_ok_def timers_ok_def Timer_AfterFunc_def)
qed

lemma watched_dead: "\<not> (\<exists>hp. live k hp s) \<Longrightarrow> watched \<delta> s st k"
  by (simp add: watched_def)

lemma watched_armed:
  assumes "(clock s + d, HealthFn k) \<in> set (timers s)" and "healthParams (kp (keepers s k)) = Some hp"
    and "clock s + d \<le> due k hp s st" and "lastPing (keepers s k) \<le> heard k hp s st + \<delta>"
  shows "watched \<delta> s st k"
  using assms by (auto simp: watched_def live_def)

lemma dead_stopChannel: "\<not> live k hp (stopChannel k err s)"
proof -
  have "k_done (keepers (stopChannel k err s) k)"
    by (auto simp: stopChannel_def close_with_timeout_def Let_def channel_Close_def upd_k_def upd_ch_def Submit_def)
  then show ?thesis by (simp add: live_def)
qed

context keeper_writes
begin

lemma WriteDirectly_calm: "WriteDirectly oh m c s = (out, s') \<Longrightarrow> calm s s'"
  using oh_calm by (auto simp: WriteDirectly_def pipeline_Outbound_def split: option.splits)

lemma sendPing_calm: "sendPing oh k s = (out, s') \<Longrightarrow> calm s s'"
  using WriteDirectly_calm
  by (auto simp: sendPing_def split: option.splits if_splits prod.splits outcome.splits)

lemma health_cases:
  assumes "health_fn oh hp k s = (Ok (), s')" and "\<not> k_done (keepers s k)" and "Readable (chans s (k_ch (keepers s k)))"
  obtains (fresh) "s' = Timer_AfterFunc (Time hp - (clock s - lastRead (chans s (k_ch (keepers s k))))) (HealthFn k) s"
      "clock s - lastRead (chans s (k_ch (keepers s k))) < Time hp"
    | (waiting) "s' = Timer_AfterFunc (Timeout hp - (clock s - lastPing (keepers s k))) (HealthFn k) s"
      "clock s - lastPing (keepers s k) < Timeout hp"
    | (stopped) err s1 where "s' = stopChannel k err s1" "calm s s1"
    | (pinged) s1 where "lastPing (keepers s k) \<le> lastPong (keepers s k)" "calm s s1"
      "s' = Timer_AfterFunc (Timeout hp) (HealthFn k) (upd_k k (\<lambda>kr. kr\<lparr>lastPing := clock s1\<rparr>) s1)"
proof -
  obtain out s1 where p: "sendPing oh k s = (out, s1)" by fastforce
  note c = sendPing_calm[OF p]
  consider "clock s - lastRead (chans s (k_ch (keepers s k))) < Time hp"
    | "lastPong (keepers s k) < lastPing (keepers s k)" "Timeout hp \<le> clock s - lastPing (keepers s k)"
      "\<not> clock s - lastRead (chans s (k_ch (keepers s k))) < Time hp"
    | "lastPong (keepers s k) < lastPing (keepers s k)" "\<not> Timeout hp \<le> clock s - lastPing (keepers s k)"
      "\<not> clock s - lastRead (chans s (k_ch (keepers s k))) < Time hp"
    | "\<not> lastPong (keepers s k) < lastPing (keepers s k)" "\<not> clock s - lastRead (chans s (k_ch (keepers s k))) < Time hp"
    by blast
  then show thesis
  proof cases
    case 1
    then show thesis using assms fresh by (simp add: health_fn_def Let_def LastRead_def)
  next
    case 2
    then have "s' = stopChannel k (ErrMsg ''closing channel due to ping timeout'') s"
      using assms by (simp add: health_fn_def Let_def LastRead_def)
    then show thesis by (rule stopped) simp
  next
    case 3
    then show thesis using assms waiting by (simp add: health_fn_def Let_def LastRead_def)
  next
    case 4
    show thesis
    proof (cases out)
      case (Ok ok)
      show thesis
      proof (cases ok)
        case True
        with Ok show thesis using assms p 4 c pinged[of s1] by (simp add: health_fn_def Let_def LastRead_def)
      next
        case False
        with Ok have "s' = stopChannel k (ErrMsg ''closing channel due to pings failed'') s1"
          using assms p 4 by (simp add: health_fn_def Let_def LastRead_def)
        then show thesis using c by (rule stopped)
      qed
    qed (use assms p 4 in \<open>simp_all add: health_fn_def Let_def LastRead_def\<close>)
  qed
qed

lemma health_step:
  assumes inv: "watch_inv \<delta> s st" and t: "(t, HealthFn k) \<in> set (timers s)"
    and h: "health_fn oh hp k (s\<lparr>timers := remove1 (t, HealthFn k) (timers s)\<rparr>) = (Ok (), s')"
    and hp: "healthParams (kp (keepers s k)) = Some hp" and "0 \<le> \<delta>"
  shows "watch_inv \<delta> s' st"
proof -
  define s0 where "s0 = s\<lparr>timers := remove1 (t, HealthFn k) (timers s)\<rparr>"
  have r0: "rest_inv \<delta> s0 st k" unfolding s0_def by (rule rest_inv_fired[OF inv])
  have f: "keepers s0 = keepers s" "chans s0 = chans s" "clock s0 = clock s" "nextKeeper s0 = nextKeeper s" by (simp_all add: s0_def)
  have tk: "k < nextKeeper s" "0 < Time hp" using inv t hp by (fastforce simp: watch_inv_def timers_ok_def)+
  then have tm: "0 < Timeout hp" using inv hp by (simp add: watch_inv_def params_ok_def usable_health_def)
  have due: "clock s \<le> due k hp s st + \<delta>" "lastPing (keepers s k) \<le> heard k hp s st + \<delta>" if "live k hp s"
  proof -
    from inv that obtain u where "(u, HealthFn k) \<in> set (timers s)" "u \<le> due k hp s st"
        "lastPing (keepers s k) \<le> heard k hp s st + \<delta>"
      unfolding watch_inv_def watched_def by blast
    moreover from this(1) inv have "clock s \<le> u + \<delta>" by (simp add: watch_inv_def timers_ok_def)
    ultimately show "clock s \<le> due k hp s st + \<delta>" "lastPing (keepers s k) \<le> heard k hp s st + \<delta>" by simp_all
  qed
  let ?kr = "keepers s k" and ?c = "k_ch (keepers s k)"
  have arm: "watch_inv \<delta> (Timer_AfterFunc d (HealthFn k) s0) st"
    if "live k hp s" "0 < d" "clock s + d \<le> due k hp s st" for d
  proof (rule rest_invI)
    let ?s1 = "Timer_AfterFunc d (HealthFn k) s0"
    show "rest_inv \<delta> ?s1 st k" using rest_inv_arm[OF r0, of d hp] that(2) tk assms(5) hp f by simp
    show "watched \<delta> ?s1 st k"
      using that(3) due(2)[OF that(1)] hp f
      by (intro watched_armed[of _ d _ hp]) (simp_all add: Timer_AfterFunc_def due_def heard_def)
  qed
  consider "k_done ?kr \<or> \<not> Readable (chans s ?c)" | "live k hp s" using tk hp by (auto simp: live_def)
  then show ?thesis
  proof cases
    case 1
    then have "s' = s0" using h f unfolding s0_def[symmetric] by (auto simp: health_fn_def Let_def split: if_splits)
    moreover have "watched \<delta> s0 st k" by (rule watched_dead) (use 1 f in \<open>auto simp: live_def\<close>)
    ultimately show ?thesis using rest_invI[OF r0] by simp
  next
    case 2
    then have l: "\<not> k_done ?kr" "Readable (chans s ?c)" by (simp_all add: live_def)
    have h0: "health_fn oh hp k s0 = (Ok (), s')" using h unfolding s0_def .
    have stop: "watch_inv \<delta> (stopChannel k err s1) st" if "rest_inv \<delta> s1 st k" for err s1
      by (rule rest_invI[OF rest_inv_calm[OF that calm_stopChannel] watched_dead]) (simp add: dead_stopChannel)
    consider (fresh) "s' = Timer_AfterFunc (Time hp - (clock s - lastRead (chans s ?c))) (HealthFn k) s0" "clock s - lastRead (chans s ?c) < Time hp"
      | (waiting) "s' = Timer_AfterFunc (Timeout hp - (clock s - lastPing ?kr)) (HealthFn k) s0" "clock s - lastPing ?kr < Timeout hp"
      | (stopped) err s1 where "s' = stopChannel k err s1" "calm s0 s1"
      | (pinged) s1 where "lastPing ?kr \<le> lastPong ?kr" "calm s0 s1"
          "s' = Timer_AfterFunc (Timeout hp) (HealthFn k) (upd_k k (\<lambda>kr. kr\<lparr>lastPing := clock s1\<rparr>) s1)"
      using health_cases[OF h0] l f that by (metis calm_refl)
    then show ?thesis
    proof cases
      case fresh
      then show ?thesis using arm[OF 2, of "Time hp - (clock s - lastRead (chans s ?c))"] by (simp add: due_def)
    next
      case waiting
      then show ?thesis using arm[OF 2, of "Timeout hp - (clock s - lastPing ?kr)"] by (simp add: due_def)
    next
      case stopped
      then show ?thesis using stop[OF rest_inv_calm[OF r0 stopped(2)]] by simp
    next
      case pinged
      let ?s2 = "upd_k k (\<lambda>kr. kr\<lparr>lastPing := clock s1\<rparr>) s1"
      note c = calm_but_facts[OF calm_calm[OF pinged(2)]]
      have e: "clock s1 = clock s" "kp (keepers s1 k) = kp ?kr" "k_ch (keepers s1 k) = ?c" "nextKeeper s1 = nextKeeper s"
        using c(1) c(2) c(3)[of k] c(4)[of k] f by simp_all
      have mono: "heard k hp s st \<le> heard k hp s1 st"
        unfolding heard_def e(3) using c(6)[of k] c(8)[of k] tk f by (intro max.mono) simp_all
      have "due k hp s st \<le> heard k hp s st" unfolding due_def heard_def using pinged(1) by (intro max.mono) simp_all
      then have h1: "clock s1 \<le> heard k hp s1 st + \<delta>" using due(1)[OF 2] mono e(1) by simp
      have r2: "rest_inv \<delta> s' st k"
        unfolding pinged(3) using rest_inv_arm[OF rest_inv_ping[OF rest_inv_calm[OF r0 pinged(2)]], of "Timeout hp" "clock s1" hp]
          tm tk assms(5) hp e by (simp add: upd_k_def)
      have "watched \<delta> s' st k"
        using h1 hp e pinged(3)
        by (intro watched_armed[of _ "Timeout hp" _ hp]) (simp_all add: Timer_AfterFunc_def due_def heard_def upd_k_def)
      with r2 show ?thesis by (rule rest_invI)
    qed
  qed
qed

text \<open>The other timers.\<close>

lemma goAwayChannel_calm:
  assumes "goAwayChannel oh k err s = (Ok (), s')"
  shows "calm_but_timers s s'"
proof -
  have a: "calm_but_timers t (Timer_AfterFunc d (GraceFn c e g) t)" for t d c e g by (rule calm_but_AfterFunc) simp
  obtain out s1 where w: "WriteDirectly oh (GoAway (the (goAwayParams (kp (keepers s k))))) (k_ch (keepers s k)) s = (out, s1)"
    by fastforce
  note c = calm_calm[OF WriteDirectly_calm[OF w]]
  note c2 = calm_but_trans[OF c calm_calm[OF calm_stopChannel]]
  show ?thesis
    using assms w calm_but_trans[OF c a] calm_but_trans[OF c2 a] calm_calm[OF calm_stopChannel]
    by (cases out) (auto simp: goAwayChannel_def Let_def split: if_splits)
qed

lemma idle_calm: "idle_fn oh k s = (Ok (), s') \<Longrightarrow> calm_but_timers s s'"
  using goAwayChannel_calm by (auto simp: idle_fn_def Let_def split: if_splits option.splits)

lemma age_calm: "age_fn oh k s = (Ok (), s') \<Longrightarrow> calm_but_timers s s'"
  using goAwayChannel_calm by (auto simp: age_fn_def split: if_splits)

end

lemma close_with_timeout_calm: "calm s (close_with_timeout c err s)"
proof -
  have 1: "calm s (s\<lparr>nextCtx := n\<rparr>)" for n by (simp add: calm_def Let_def)
  have 2: "calm t (t\<lparr>ctxDone := f\<rparr>)" for f and t :: "('a, 'b) ka_sys_scheme" by (simp add: calm_def Let_def)
  show ?thesis unfolding close_with_timeout_def Let_def by (rule calm_trans[OF calm_trans[OF 1 calm_Close] 2])
qed

lemma grace_calm: "calm s (grace_fn c err s)"
  using close_with_timeout_calm by (auto simp: grace_fn_def)

lemma tick_inv:
  assumes "watch_inv \<delta> s st" and "\<forall>(t, fn)\<in>set (timers s). n \<le> t + \<delta>"
  shows "watch_inv \<delta> (s\<lparr>clock := n\<rparr>) st"
  using assms by (fastforce simp: watch_inv_def params_ok_def timers_ok_def watched_def live_def heard_def due_def)

lemma keepalive_timers:
  "\<exists>s2. calm_but_timers s s2 \<and> Keeper_Keepalive k s = (case healthParams (kp (keepers s k)) of
      Some hp \<Rightarrow> if 0 < Time hp then Timer_AfterFunc (Time hp) (HealthFn k) s2 else s2 | None \<Rightarrow> s2)"
proof -
  have a: "calm_but_timers t (if b then Timer_AfterFunc d (IdleFn k) t else t)"
      "calm_but_timers t (if b then Timer_AfterFunc d (AgeFn k) t else t)" for t :: "('a, 'b) ka_sys_scheme" and b d
    by simp_all
  show ?thesis
    unfolding Keeper_Keepalive_def Let_def by (rule exI, rule conjI[OF calm_but_trans[OF a(1) a(2)] refl])
qed

lemma start_inv:
  assumes inv: "watch_inv \<delta> s st" and p: "\<forall>hp. healthParams p = Some hp \<longrightarrow> usable_health hp"
    and n: "NewKeeper p c s = (k, s1)" and "0 \<le> \<delta>"
  shows "watch_inv \<delta> (Keeper_Keepalive k s1) (st(k := clock s))"
proof -
  let ?st = "st(k := clock s)"
  have k: "k = nextKeeper s" and s1: "clock s1 = clock s" "nextKeeper s1 = nextKeeper s + 1" "timers s1 = timers s" "chans s1 = chans s"
      "keepers s1 = (keepers s)(k := \<lparr>kp = p, k_ch = c, k_done = False, lastPing = 0, lastPong = 0\<rparr>)"
    using n by (auto simp: NewKeeper_def)
  have "watched \<delta> s1 ?st j" if "j \<noteq> k" for j
  proof -
    have "live j hp s1 \<Longrightarrow> live j hp s" "heard j hp s1 ?st = heard j hp s st" "due j hp s1 ?st = due j hp s st" for hp
      using that k by (auto simp: live_def heard_def due_def s1)
    moreover have "watched \<delta> s st j" using inv by (simp add: watch_inv_def)
    ultimately show ?thesis using that by (simp add: watched_def s1)
  qed
  moreover have "timers_ok \<delta> s1" using inv k by (fastforce simp: watch_inv_def timers_ok_def s1)
  moreover have "params_ok s1" using inv p k by (auto simp: watch_inv_def params_ok_def s1 less_Suc_eq)
  ultimately have r1: "rest_inv \<delta> s1 ?st k" by (simp add: rest_inv_def)
  obtain s2 where s2: "calm_but_timers s1 s2" "Keeper_Keepalive k s1 = (case healthParams p of
      Some hp \<Rightarrow> if 0 < Time hp then Timer_AfterFunc (Time hp) (HealthFn k) s2 else s2 | None \<Rightarrow> s2)"
    using keepalive_timers[of s1 k] s1(5) by auto
  have r2: "rest_inv \<delta> s2 ?st k" using rest_inv_but_timers[OF r1 s2(1)] .
  note c = calm_but_facts(1)[OF s2(1)] calm_but_facts(2)[OF s2(1)] calm_but_facts(3)[OF s2(1), of k] calm_but_facts(4)[OF s2(1), of k]
    calm_but_facts(5)[OF s2(1), of k] calm_but_facts(6)[OF s2(1), of k]
  have e: "nextKeeper s2 = k + 1" "kp (keepers s2 k) = p" "lastPing (keepers s2 k) = 0" "0 \<le> lastPong (keepers s2 k)" "clock s2 = clock s"
    using c s1 k by simp_all
  show ?thesis
  proof (cases "\<exists>hp. healthParams p = Some hp \<and> 0 < Time hp")
    case True
    then obtain hp where hp: "healthParams p = Some hp" "0 < Time hp" by blast
    then have tm: "0 < Timeout hp" using p by (simp add: usable_health_def)
    let ?s3 = "Timer_AfterFunc (Time hp) (HealthFn k) s2"
    have "rest_inv \<delta> ?s3 ?st k" using rest_inv_arm[OF r2, of "Time hp" hp] hp e assms(4) by simp
    moreover have "watched \<delta> ?s3 ?st k"
      using hp e tm assms(4) by (intro watched_armed[of _ "Time hp" _ hp]) (auto simp: Timer_AfterFunc_def due_def heard_def)
    ultimately show ?thesis using s2(2) hp rest_invI by simp
  next
    case False
    have "watched \<delta> s2 ?st k" by (rule watched_dead) (use False e in \<open>auto simp: live_def\<close>)
    then show ?thesis using False s2(2) rest_invI[OF r2] by (auto split: option.split)
  qed
qed

lemma ka_step_inv:
  assumes "keeper_writes oh" and "0 \<le> \<delta>" and "ka_step oh \<delta> (s, st) (s', st')" and inv: "watch_inv \<delta> s st"
  shows "watch_inv \<delta> s' st'"
  using assms(3)
proof cases
  case (start p c k s1)
  then show ?thesis using start_inv[OF inv start(3) start(4) assms(2)] by simp
next
  case (fire t fn)
  let ?s0 = "s\<lparr>timers := remove1 (t, fn) (timers s)\<rparr>"
  show ?thesis
  proof (cases "\<exists>k. fn = HealthFn k")
    case True
    then obtain k where k: "fn = HealthFn k" by blast
    from fire(2) inv k obtain hp where hp: "healthParams (kp (keepers s k)) = Some hp"
      unfolding watch_inv_def timers_ok_def by blast
    show ?thesis
      using keeper_writes.health_step[OF assms(1) inv, of t k hp s'] fire k hp assms(2) by (simp add: run_timer_def)
  next
    case False
    have "calm_but_timers ?s0 s'"
      using fire(3) False keeper_writes.idle_calm[OF assms(1)] keeper_writes.age_calm[OF assms(1)] calm_calm[OF grace_calm]
      by (cases fn) (auto simp: run_timer_def)
    from calm_but_trans[OF calm_but_remove this] False have "calm_but_timers s s'" by blast
    with inv fire(1) show ?thesis using watch_inv_calm by simp
  qed
next
  case other
  then show ?thesis using watch_inv_calm[OF inv calm_calm] by simp
next
  case (tick n)
  then show ?thesis using tick_inv[OF inv] by simp
qed

lemma ka_run_inv:
  assumes "keeper_writes oh" and "0 \<le> \<delta>" and "(ka_step oh \<delta>)\<^sup>*\<^sup>* a b" and "watch_inv \<delta> (fst a) (snd a)"
  shows "watch_inv \<delta> (fst b) (snd b)"
  using assms(3,4)
proof induction
  case (step b c)
  then show ?case using ka_step_inv[OF assms(1,2), of "fst b" "snd b" "fst c" "snd c"] by simp
qed

lemma no_keeper_inv: "nextKeeper s = 0 \<Longrightarrow> (\<forall>t k. (t, HealthFn k) \<notin> set (timers s)) \<Longrightarrow> watch_inv \<delta> s st"
  by (simp add: watch_inv_def params_ok_def timers_ok_def watched_def live_def)

lemma watched_bound:
  assumes "watch_inv \<delta> s st" and "live k hp s" and "0 \<le> \<delta>"
  shows "clock s \<le> heard k hp s st + Timeout hp + 2 * \<delta>"
proof -
  have tm: "0 < Timeout hp"
    using assms(1,2) by (auto simp: watch_inv_def params_ok_def live_def usable_health_def)
  obtain t where "lastPing (keepers s k) \<le> heard k hp s st + \<delta>" "(t, HealthFn k) \<in> set (timers s)" "t \<le> due k hp s st"
    using assms(1,2) unfolding watch_inv_def watched_def by blast
  moreover from this(2) have "clock s \<le> t + \<delta>" using assms(1) by (simp add: watch_inv_def timers_ok_def)
  moreover have "due k hp s st \<le> max (heard k hp s st) (lastPing (keepers s k) + Timeout hp)"
    unfolding due_def heard_def by (simp add: max.coboundedI1 max.coboundedI2)
  ultimately show ?thesis using tm assms(3) by linarith
qed

section \<open>The events of the transport handler are calm\<close>

lemma calm_drop_task [simp]: "calm s (drop_task x s)"
  by (simp add: calm_def Let_def drop_task_def)

lemma calm_took [simp]: "calm s (took c r s)"
  by (simp add: calm_def Let_def took_def split: option.split)

lemma calm_fold_Submit: "calm s (fold (\<lambda>c. Submit (f c)) cs s)"
proof (induction cs arbitrary: s)
  case (Cons c cs)
  show ?case using calm_trans[OF calm_Submit Cons.IH] by simp
qed simp

lemma calm_th_Close: "calm s (th_Close x err cs s)"
proof -
  have "calm s (s\<lparr>th_state := closed, closingCtx := Some x\<rparr>)" by (simp add: calm_def Let_def)
  from calm_trans[OF this calm_fold_Submit[of _ "\<lambda>c. CloseChannelTask x c err"]] show ?thesis by (simp add: th_Close_def)
qed

lemma calm_OnMessage: "OnMessage pooled x s = (out, s') \<Longrightarrow> calm s s'"
proof -
  assume h: "OnMessage pooled x s = (out, s')"
  have a: "calm s (closeChannel y c e (took c r s))" for y c e r using calm_trans[OF calm_took calm_closeChannel] .
  have b: "calm s (Submit y (took c r s))" for y c r using calm_trans[OF calm_took calm_Submit] .
  from h a b show ?thesis
    by (auto simp: OnMessage_def OnRead_cases Let_def split: if_splits option.splits outcome.splits prod.splits)
qed

lemma calm_OnConnClosed: "OnConnClosed x err s = (out, s') \<Longrightarrow> calm s s'"
  using calm_closeChannel by (auto simp: OnConnClosed_def split: option.splits)

lemma calm_run_closeChannel: "calm s (run_closeChannel x c err s)"
  unfolding run_closeChannel_def by (rule calm_trans[OF calm_drop_task calm_closeChannel])

text \<open>Signs of life: the recorder notes that a message was read, the middleware that a pong arrived.\<close>

lemma calm_addTask: "lastRead (chans s c) \<le> clock s \<Longrightarrow> calm s (addTask event c s)"
  by (auto simp: calm_def Let_def addTask_def upd_ch_def Submit_def Readable_def calState_def)

lemma calm_pong: "lastPong (keepers s k) \<le> clock s \<Longrightarrow> calm s (upd_k k (\<lambda>kr. kr\<lparr>lastPong := clock s\<rparr>) s)"
  by (simp add: calm_def Let_def upd_k_def)

section \<open>Dead peers\<close>

text \<open>
  A channel that is kept open has a peer that is alive. In every run of the keepers of a
  transport handler, in which timers fire at most \<open>\<delta>\<close> late and between their checks anything may
  happen that does not reopen a channel (messages, pongs, closings), a channel that is still readable
  and whose keeper has not stopped has received a message less than \<^verbatim>\<open>Time\<close> ago or a pong less than
  \<^verbatim>\<open>Timeout\<close> ago, up to the time one unanswered ping is given (\<^verbatim>\<open>Timeout\<close>) and the lateness of two
  timers; or its keeper was started less than \<^verbatim>\<open>Time\<close> ago, up to the same.
\<close>

theorem dead_peer_bound:
  assumes "nextKeeper s = 0" and "\<forall>t k. (t, HealthFn k) \<notin> set (timers s)" and "0 \<le> \<delta>"
    and "(ka_step out_handler \<delta>)\<^sup>*\<^sup>* (s, st) (s', st')"
    and "k < nextKeeper s'" and "\<not> k_done (keepers s' k)" and "k_ch (keepers s' k) = c" and "Readable (chans s' c)"
    and "healthParams (kp (keepers s' k)) = Some hp" and "0 < Time hp"
  shows "clock s' \<le> max (lastRead (chans s' c) + Time hp) (max (st' k + Time hp) (lastPong (keepers s' k) + Timeout hp))
      + Timeout hp + 2 * \<delta>"
proof -
  have "watch_inv \<delta> s' st'"
    using ka_run_inv[OF th.keeper_writes_axioms assms(3,4)] no_keeper_inv[OF assms(1,2)] by simp
  moreover have "live k hp s'" using assms(5-10) by (simp add: live_def)
  ultimately show ?thesis using watched_bound assms(3,7) by (fastforce simp: heard_def)
qed

end
