(* ===== verification/WheelPlace.thy ===== *)
theory WheelPlace
  imports Timewheel
begin

text \<open>
  Where a node may be in the time wheel: the arithmetic of the slots. A node on an upper level is
  moved down at the start of the block of ticks its slot stands for, which must not lie in the
  past and not more than one revolution of its level ahead.
\<close>

section \<open>Words as numbers\<close>

lemma unat_and_255: "unat (w AND nearMask) = unat (w :: uint64) mod 256"
proof -
  have "w AND 255 = take_bit 8 w" by (simp add: take_bit_eq_mask mask_eq_exp_minus_1)
  then show ?thesis by (simp add: nearMask_def take_bit_eq_mod unat_mod)
qed

lemma unat_and_63: "unat (w AND levelMask) = unat (w :: uint64) mod 64"
proof -
  have "w AND 63 = take_bit 6 w" by (simp add: take_bit_eq_mask mask_eq_exp_minus_1)
  then show ?thesis by (simp add: levelMask_def take_bit_eq_mod unat_mod)
qed

lemma unat_drop_bit: "unat (drop_bit n (w :: uint64)) = unat w div 2 ^ n"
proof -
  have "take_bit 64 (unat w) = unat w"
    using unsigned_less[of w, where 'a = nat] by (simp add: take_bit_nat_eq_self)
  then show ?thesis by (simp only: unsigned_drop_bit_eq) (simp add: drop_bit_eq_div)
qed

definition gran :: "nat \<Rightarrow> nat" where
  "gran i = 2 ^ (8 + 6 * i)"

lemma gran_pos [simp]: "0 < gran i"
  by (simp add: gran_def)

lemma gran_Suc: "gran (Suc i) = 64 * gran i"
  by (simp add: gran_def power_add)

lemma gran_mono: "i \<le> k \<Longrightarrow> gran i dvd gran k"
  by (simp add: gran_def le_imp_power_dvd)

lemma gran_0: "gran 0 = 256" and gran_4: "gran 4 = 2 ^ 32"
  by (simp_all add: gran_def)

lemma unat_maxVal: "unat maxVal = gran 4 - 1"
  by (simp add: maxVal_def wheel_consts gran_def)

lemma unat_levelMax: "i \<le> 4 \<Longrightarrow> unat (levelMax i) = gran i"
proof -
  assume "i \<le> 4"
  then have "i \<in> {0, 1, 2, 3, 4}" by auto
  then show ?thesis by (auto simp: levelMax_def wheel_consts gran_def)
qed

section \<open>Placement\<close>

text \<open>
  Level \<open>i\<close>, slot \<open>k\<close> of that level: the node expires at \<open>e\<close>; \<open>v\<close> is the time its slot was chosen
  for, which is \<open>e\<close> itself unless the node was too far ahead for the whole wheel.
\<close>

definition level_placed :: "nat \<Rightarrow> nat \<Rightarrow> nat \<Rightarrow> nat \<Rightarrow> bool" where
  "level_placed j i k e \<longleftrightarrow>
     (\<exists>v \<le> e. (i < 3 \<longrightarrow> v = e) \<and> (v div gran i) mod 64 = k \<and>
       j \<le> v div gran i * gran i \<and> v < j + 64 * gran i)"

definition placed :: "nat \<Rightarrow> ptr \<Rightarrow> nat \<Rightarrow> bool" where
  "placed j s e \<longleftrightarrow>
     (if s < 256 then e mod 256 = s \<and> j \<le> e \<and> e < j + 256
      else level_placed j ((s - 256) div 64) ((s - 256) mod 64) e)"

lemma t2Tot5_simps [simp]:
  assumes "k < 64"
  shows "\<not> t2Tot5 i k < 256" and "(t2Tot5 i k - 256) div 64 = i" and "(t2Tot5 i k - 256) mod 64 = k"
    and "i \<le> 3 \<Longrightarrow> t2Tot5 i k < 512"
  using assms by (auto simp: t2Tot5_def wheel_consts)

lemma t2Tot5_inj: "k < 64 \<Longrightarrow> k' < 64 \<Longrightarrow> t2Tot5 i k = t2Tot5 i' k' \<longleftrightarrow> i = i' \<and> k = k'"
  by (metis t2Tot5_simps(2,3))

text \<open>A placed node has not expired.\<close>

lemma placed_le: "placed j s e \<Longrightarrow> j \<le> e"
proof (cases "s < 256")
  case False
  assume "placed j s e"
  with False obtain v g where "v \<le> e" "j \<le> v div g * g"
    by (auto simp: placed_def level_placed_def)
  moreover have "v div g * g \<le> v" by (rule div_times_less_eq_dividend)
  ultimately show ?thesis by linarith
qed (simp add: placed_def)

text \<open>
  When tick \<open>j\<close> is over, a node on an upper level is still well placed, unless \<open>j\<close> was the start of
  the block its slot stands for.
\<close>

lemma level_placed_Suc:
  assumes "level_placed j i k e" and "\<not> (gran i dvd j \<and> k = (j div gran i) mod 64)"
  shows "level_placed (Suc j) i k e"
proof -
  from assms(1) obtain v where v: "v \<le> e" "i < 3 \<longrightarrow> v = e" "(v div gran i) mod 64 = k"
      "j \<le> v div gran i * gran i" "v < j + 64 * gran i"
    by (auto simp: level_placed_def)
  have "j \<noteq> v div gran i * gran i"
  proof
    assume "j = v div gran i * gran i"
    then have "gran i dvd j" "j div gran i = v div gran i" by simp_all
    with assms(2) v(3) show False by simp
  qed
  with v show ?thesis unfolding level_placed_def by (intro exI[of _ v]) auto
qed

section \<open>Where add puts a node\<close>

lemma level_placed_new:
  assumes "gran i \<le> v - j" and "v - j < gran (Suc i)" and "j \<le> v" and "v \<le> e" and "i < 3 \<longrightarrow> v = e"
  shows "level_placed j i ((v div gran i) mod 64) e" and "level_placed (Suc j) i ((v div gran i) mod 64) e"
proof -
  have "v < v div gran i * gran i + gran i"
    using mod_less_divisor[OF gran_pos[of i], of v] div_mult_mod_eq[of v "gran i"] by linarith
  then have "Suc j \<le> v div gran i * gran i" using assms(1,3) by linarith
  moreover have "v < j + 64 * gran i" using assms(2,3) by (simp add: gran_Suc)
  ultimately show "level_placed j i ((v div gran i) mod 64) e" "level_placed (Suc j) i ((v div gran i) mod 64) e"
    using assms(4,5) unfolding level_placed_def by auto
qed

lemma gran_le: "i \<le> k \<Longrightarrow> gran i \<le> gran k"
  by (simp add: gran_def)

lemma gran_lt_4: "i \<le> 3 \<Longrightarrow> gran i < gran 4 - 1"
  using gran_le[of i 3] by (simp add: gran_def)

lemma add_level_placed:
  assumes "i \<le> 3" and "unat idx = v - j" and "unat ex = v" and "unat jif = j" and "j \<le> v"
    and "gran i \<le> v - j" and "v \<le> e" and "v = e \<or> v - j = gran 4 - 1" and "j + gran 4 < 2 ^ 64"
  shows "\<exists>i' k l. add_level jif i idx ex = Some (t2Tot5 i' k, l) \<and> i' \<le> 3 \<and> k < 64 \<and>
    level_placed j i' k e \<and> level_placed (Suc j) i' k e"
  using assms
proof (induction jif i idx ex arbitrary: v rule: add_level.induct)
  case (1 jif i idx ex)
  define idx' ex' where "idx' = (if maxVal < idx then maxVal else idx)"
    and "ex' = (if maxVal < idx then idx' + jif else ex)"
  define v' where "v' = (if gran 4 - 1 < v - j then j + (gran 4 - 1) else v)"
  have clamp: "maxVal < idx \<longleftrightarrow> gran 4 - 1 < v - j"
    using "1.prems"(2) by (simp add: word_less_nat_alt unat_maxVal)
  have s: "unat idx' = v' - j" "unat ex' = v'" "j \<le> v'" "gran i \<le> v' - j" "v' \<le> e"
      "v' = e \<or> v' - j = gran 4 - 1" "v' - j \<le> gran 4 - 1"
  proof -
    show "unat idx' = v' - j" using clamp "1.prems"(2) by (simp add: idx'_def v'_def unat_maxVal)
    have "unat (maxVal + jif) = gran 4 - 1 + j" if "maxVal < idx"
      using "1.prems"(4,9) by (subst unat_plus_if') (simp add: unat_maxVal gran_4)
    then show "unat ex' = v'" using clamp "1.prems"(3) by (auto simp: ex'_def idx'_def v'_def)
    show "gran i \<le> v' - j" using "1.prems"(6) gran_lt_4[OF "1.prems"(1)] by (simp add: v'_def)
  qed (use "1.prems" in \<open>auto simp: v'_def\<close>)
  have lm: "idx' < levelMax (i + 1) \<longleftrightarrow> v' - j < gran (Suc i)"
    using s(1) "1.prems"(1) by (simp add: word_less_nat_alt unat_levelMax)
  show ?case
  proof (cases "v' - j < gran (Suc i)")
    case True
    let ?k = "(v' div gran i) mod 64"
    have "i < 3 \<longrightarrow> v' = e"
      using True s(6) gran_lt_4[of "Suc i"] by auto
    then have "level_placed j i ?k e \<and> level_placed (Suc j) i ?k e"
      using level_placed_new[OF s(4) True s(3,5)] by blast
    moreover have "unat (drop_bit (nearShift + i * levelShift) ex' AND levelMask) = ?k"
      unfolding unat_and_63 unat_drop_bit s(2) gran_def
      by (simp add: nearShift_def levelShift_def mult.commute)
    ultimately show ?thesis
      using True lm "1.prems"(1) by (subst add_level.simps)
        (simp add: Let_def flip: idx'_def ex'_def, metis mod_less_divisor zero_less_numeral)
  next
    case False
    have i: "Suc i \<le> 3"
    proof (rule ccontr)
      assume "\<not> Suc i \<le> 3"
      with "1.prems"(1) have "i = 3" by simp
      with False s(7) show False by (simp add: gran_def)
    qed
    have "\<exists>i' k l. add_level jif (i + 1) idx' ex' = Some (t2Tot5 i' k, l) \<and> i' \<le> 3 \<and> k < 64 \<and>
        level_placed j i' k e \<and> level_placed (Suc j) i' k e"
      using False lm i s "1.prems"(1,4,9)
      by (intro "1.IH"[of idx' ex' v']) (auto simp: idx'_def ex'_def)
    then show ?thesis
      using False lm "1.prems"(1) by (subst add_level.simps) (simp add: Let_def flip: idx'_def ex'_def)
  qed
qed

text \<open>
  The slot for a node that expires at \<open>e\<close>, chosen at tick \<open>j\<close>: \<open>add\<close> always finds one, and on an
  upper level it is still well placed after the tick.
\<close>

definition placed_new :: "nat \<Rightarrow> ptr \<Rightarrow> nat \<Rightarrow> bool" where
  "placed_new j s e \<longleftrightarrow> placed j s e \<and> (256 \<le> s \<longrightarrow> placed (Suc j) s e)"

lemma add_slot_placed:
  assumes "unat jif \<le> unat ex" and "unat jif + gran 4 < 2 ^ 64"
  shows "\<exists>s l. add_slot ex jif = Some (s, l) \<and> s < 512 \<and> placed_new (unat jif) s (unat ex)"
proof -
  let ?j = "unat jif" and ?e = "unat ex"
  have idx: "unat (ex - jif) = ?e - ?j" using assms(1) by (simp add: unat_sub word_le_nat_alt)
  have near: "ex - jif < of_nat nearSize \<longleftrightarrow> ?e - ?j < 256"
    by (simp add: word_less_nat_alt idx wheel_consts)
  show ?thesis
  proof (cases "?e - ?j < 256")
    case True
    then have "placed_new ?j (?e mod 256) ?e"
      using assms(1) mod_less_divisor[of 256 ?e] by (auto simp: placed_new_def placed_def)
    moreover have "?e mod 256 < 512" using mod_less_divisor[of 256 ?e] by linarith
    ultimately show ?thesis using True near by (simp add: add_slot_def Let_def t1_head_def unat_and_255)
  next
    case False
    have "\<exists>i' k l. add_level jif 0 (ex - jif) ex = Some (t2Tot5 i' k, l) \<and> i' \<le> 3 \<and> k < 64 \<and>
        level_placed ?j i' k ?e \<and> level_placed (Suc ?j) i' k ?e"
      using False assms idx by (intro add_level_placed[where v = ?e]) (simp_all add: gran_0)
    then obtain i' k l where "add_level jif 0 (ex - jif) ex = Some (t2Tot5 i' k, l)" "i' \<le> 3" "k < 64"
        "level_placed ?j i' k ?e" "level_placed (Suc ?j) i' k ?e" by blast
    then show ?thesis
      using False near by (auto simp: add_slot_def Let_def placed_new_def placed_def)
  qed
qed

end
