(* ===== verification/WheelInv.thy ===== *)
theory WheelInv
  imports WheelPlace
begin

text \<open>
  The invariant of the time wheel and that its operations keep it: \<open>items s\<close> is the list of nodes
  in slot \<open>s\<close>, every node in a slot is linked to it, not stopped, and well placed.
\<close>

section \<open>Invariant\<close>

definition node_ok :: "timeWheel \<Rightarrow> ptr \<Rightarrow> ptr \<Rightarrow> bool" where
  "node_ok t s p \<longleftrightarrow> 512 \<le> p \<and> p < nextPtr t \<and> \<not> stopped (nodes t p) \<and>
     node_list (nodes t p) = Some s \<and> node_version (nodes t p) = versions t s"

definition wheel_rep :: "timeWheel \<Rightarrow> (ptr \<Rightarrow> ptr list) \<Rightarrow> bool" where
  "wheel_rep t items \<longleftrightarrow> 512 \<le> nextPtr t \<and>
     (\<forall>s<512. dlist (heads t) s (items s) \<and> (\<forall>p \<in> set (items s). node_ok t s p))"

definition pending :: "(ptr \<Rightarrow> ptr list) \<Rightarrow> ptr set" where
  "pending items = (\<Union>s \<in> {..<512}. set (items s))"

lemma pendingI: "s < 512 \<Longrightarrow> p \<in> set (items s) \<Longrightarrow> p \<in> pending items"
  by (auto simp: pending_def)

lemma pendingE:
  assumes "p \<in> pending items"
  obtains s where "s < 512" and "p \<in> set (items s)"
  using assms by (auto simp: pending_def)

lemma pending_push [simp]: "s < 512 \<Longrightarrow> pending (items(s := items s @ [p])) = insert p (pending items)"
  by (auto simp: pending_def split: if_splits)

lemma wheel_rep_node: "wheel_rep t items \<Longrightarrow> s < 512 \<Longrightarrow> p \<in> set (items s) \<Longrightarrow> node_ok t s p"
  by (simp add: wheel_rep_def)

lemma wheel_rep_disjoint:
  "wheel_rep t items \<Longrightarrow> s < 512 \<Longrightarrow> k < 512 \<Longrightarrow> s \<noteq> k \<Longrightarrow> set (items s) \<inter> set (items k) = {}"
  using wheel_rep_node[of t items s] wheel_rep_node[of t items k] by (force simp: node_ok_def)

lemma wheel_rep_slot_free:
  "wheel_rep t items \<Longrightarrow> s < 512 \<Longrightarrow> k < 512 \<Longrightarrow> k \<notin> set (items s)"
  using wheel_rep_node[of t items s k] by (auto simp: node_ok_def)

text \<open>The part of the state that moving nodes between slots does not change.\<close>

definition same_data :: "timeWheel \<Rightarrow> timeWheel \<Rightarrow> bool" where
  "same_data t t' \<longleftrightarrow> jiffies t' = jiffies t \<and> submitted t' = submitted t \<and>
     curTimePoint t' = curTimePoint t \<and> cancelled t' = cancelled t \<and> nextPtr t \<le> nextPtr t' \<and>
     (\<forall>p. expire (nodes t' p) = expire (nodes t p) \<and> userExpire (nodes t' p) = userExpire (nodes t p) \<and>
        callback (nodes t' p) = callback (nodes t p) \<and> stopped (nodes t' p) = stopped (nodes t p) \<and>
        isSchedule (nodes t' p) = isSchedule (nodes t p))"

lemma same_data_refl [simp]: "same_data t t"
  by (simp add: same_data_def)

lemma same_data_trans: "same_data t u \<Longrightarrow> same_data u v \<Longrightarrow> same_data t v"
  by (auto simp: same_data_def)

section \<open>Adding a node\<close>

lemma lockPushBack_rep:
  assumes rep: "wheel_rep t items" and s: "s < 512" and p: "512 \<le> p" "p < nextPtr t"
    and new: "p \<notin> pending items" and run: "\<not> stopped (nodes t p)"
  shows "wheel_rep (lockPushBack s p t) (items(s := items s @ [p]))"
    and "same_data t (lockPushBack s p t)"
    and "q \<notin> set (p # s # items s) \<Longrightarrow> heads (lockPushBack s p t) q = heads t q"
    and "versions (lockPushBack s p t) = versions t" and "nextPtr (lockPushBack s p t) = nextPtr t"
proof -
  have d: "dlist (heads t) s (items s)" using rep s by (simp add: wheel_rep_def)
  have nin: "p \<notin> set (s # items s)" using new s p by (auto simp: pending_def)
  let ?t = "lockPushBack s p t"
  show "heads ?t q = heads t q" if "q \<notin> set (p # s # items s)"
    using Head_AddTail_ok(2)[OF d nin that] run by (simp add: lockPushBack_def)
  show "same_data t ?t" "versions ?t = versions t" "nextPtr ?t = nextPtr t"
    by (auto simp: lockPushBack_def same_data_def)
  show "wheel_rep ?t (items(s := items s @ [p]))"
    unfolding wheel_rep_def
  proof (intro conjI allI impI ballI)
    show "512 \<le> nextPtr ?t" using rep by (simp add: lockPushBack_def wheel_rep_def)
  next
    fix k assume k: "k < (512 :: nat)"
    have dk: "dlist (heads t) k (items k)" using rep k by (simp add: wheel_rep_def)
    show "dlist (heads ?t) k ((items(s := items s @ [p])) k)"
    proof (cases "k = s")
      case True
      then show ?thesis using il.push_law[OF d nin] run by (simp add: lockPushBack_def)
    next
      case False
      have "set (k # items k) \<inter> set (p # s # items s) = {}"
        using False wheel_rep_disjoint[OF rep k s] wheel_rep_slot_free[OF rep k s]
          wheel_rep_slot_free[OF rep s k] new k p by (auto simp: pending_def)
      then show ?thesis
        using il.push_frame[OF d dk _ nin] run False by (simp add: lockPushBack_def)
    qed
    fix q assume "q \<in> set ((items(s := items s @ [p])) k)"
    then show "node_ok ?t k q"
      using wheel_rep_node[OF rep k, of q] new k p run
      by (auto simp: node_ok_def lockPushBack_def pending_def split: if_splits)
  qed
qed

lemma timeWheel_add_ok:
  assumes rep: "wheel_rep t items" and p: "512 \<le> p" "p < nextPtr t" and new: "p \<notin> pending items"
    and run: "\<not> stopped (nodes t p)" and le: "unat jif \<le> unat (expire (nodes t p))"
    and bound: "unat jif + gran 4 < 2 ^ 64"
  obtains s where "timeWheel_add p jif t = (Ok (), lockPushBack s p t)" and "s < 512"
    and "placed_new (unat jif) s (unat (expire (nodes t p)))"
  using add_slot_placed[OF le bound] that by (auto simp: timeWheel_add_def)

section \<open>Traversals of a list of nodes\<close>

lemma traverse_ok:
  assumes step: "\<And>x ys t. P (x # ys) t \<Longrightarrow> \<exists>t'. f x t = (Ok (), t') \<and> P ys t'"
    and chain: "\<And>ys t. P ys t \<Longrightarrow> next_chain (heads t) (ys @ [h]) \<and> h \<notin> set ys"
    and "P xs t" and "Next (heads t h) = behind h xs"
  shows "\<exists>t'. traverse f h t = (Ok (), t') \<and> P [] t'"
proof -
  let ?Q = "\<lambda>ys s. fst s = Ok () \<and> P ys (snd s)"
  let ?g = "\<lambda>p s. and_then s (\<lambda>_ t. f p t)"
  have st: "?Q ys (?g x s)" if Q: "?Q (x # ys) s" for x ys and s :: "unit outcome \<times> timeWheel"
  proof (cases s)
    case (Pair o1 t1)
    with Q step[of x ys t1] show ?thesis by auto
  qed
  have "Head_ForEachSafe (heads \<circ> snd) ?g h (Ok (), t) = Some (fold ?g xs (Ok (), t))"
    by (rule ForEachSafe_fold[where P = ?Q, OF st]) (use chain assms(3,4) in auto)
  moreover have "?Q [] (fold ?g xs (Ok (), t))"
  proof -
    have "?Q ys s \<Longrightarrow> ?Q [] (fold ?g ys s)" for ys s
    proof (induction ys arbitrary: s)
      case (Cons y ys)
      show ?case using Cons.IH[OF st[OF Cons.prems]] by simp
    qed simp
    then show ?thesis using assms(3) by simp
  qed
  ultimately show ?thesis
    by (cases "fold ?g xs (Ok (), t)") (auto simp: traverse_def)
qed

section \<open>Taking the nodes out of a slot\<close>

text \<open>The common start of \<open>cascade\<close> and of the execution of a slot.\<close>

definition take_slot :: "ptr \<Rightarrow> timeWheel \<Rightarrow> ptr \<times> timeWheel" where
  "take_slot l t =
     (let (tmp, t1) = tempTimeHead t
      in (tmp, t1\<lparr>heads := Head_ReplaceInit l tmp (heads t1), versions := (versions t1)(l := versions t1 l + 1)\<rparr>))"

lemma wheel_rep_temp:
  assumes "wheel_rep t items" and "tempTimeHead t = (tmp, t1)"
  shows "wheel_rep t1 items" and "same_data t t1" and "tmp = nextPtr t" and "nextPtr t1 = Suc (nextPtr t)"
    and "nodes t1 = nodes t"
proof -
  have t1: "t1 = newTimeHead (nextPtr t) 0 0 (t\<lparr>nextPtr := Suc (nextPtr t)\<rparr>)" "tmp = nextPtr t"
    using assms(2) by (auto simp: tempTimeHead_def)
  then show "same_data t t1" "tmp = nextPtr t" "nextPtr t1 = Suc (nextPtr t)" "nodes t1 = nodes t"
    by (simp_all add: newTimeHead_def same_data_def)
  have big: "512 \<le> nextPtr t" using assms(1) by (simp add: wheel_rep_def)
  show "wheel_rep t1 items"
    unfolding wheel_rep_def
  proof (intro conjI allI impI ballI)
    show "512 \<le> nextPtr t1" using big by (simp add: t1 newTimeHead_def)
  next
    fix s assume s: "s < (512 :: nat)"
    then have d: "dlist (heads t) s (items s)" using assms(1) by (simp add: wheel_rep_def)
    have "nextPtr t \<notin> set (s # items s)"
      using wheel_rep_node[OF assms(1) s] s big by (auto simp: node_ok_def)
    then show "dlist (heads t1) s (items s)"
      by (intro dlist_cong[THEN iffD2, OF _ d]) (auto simp: t1 newTimeHead_def Head_Init_def)
    fix p assume "p \<in> set (items s)"
    from wheel_rep_node[OF assms(1) s this] s big show "node_ok t1 s p"
      by (auto simp: node_ok_def t1 newTimeHead_def)
  qed
qed

lemma take_slot_ok:
  assumes rep: "wheel_rep t items" and l: "l < 512" and ts: "take_slot l t = (tmp, t2)"
  shows "wheel_rep t2 (items(l := []))" and "dlist (heads t2) tmp (items l)" and "same_data t t2"
    and "tmp = nextPtr t" and "nextPtr t2 = Suc (nextPtr t)" and "nodes t2 = nodes t"
proof -
  obtain t1 where tt: "tempTimeHead t = (tmp, t1)"
    using ts by (auto simp: take_slot_def tempTimeHead_def)
  note tmp = wheel_rep_temp[OF rep tt]
  have t2: "t2 = t1\<lparr>heads := Head_ReplaceInit l tmp (heads t1), versions := (versions t1)(l := versions t1 l + 1)\<rparr>"
    using ts tt by (simp add: take_slot_def)
  show "same_data t t2" "tmp = nextPtr t" "nextPtr t2 = Suc (nextPtr t)" "nodes t2 = nodes t"
    using tmp by (simp_all add: t2 same_data_def)
  have d: "dlist (heads t1) l (items l)" using tmp(1) l by (simp add: wheel_rep_def)
  have big: "512 \<le> tmp" "\<forall>s<512. \<forall>p\<in>set (items s). p < tmp"
    using rep tmp(3) by (auto simp: wheel_rep_def node_ok_def)
  have nin: "tmp \<notin> set (l # items l)" using big l by auto
  show "dlist (heads t2) tmp (items l)" using il.move_law[OF d nin] by (simp add: t2)
  show "wheel_rep t2 (items(l := []))"
    unfolding wheel_rep_def
  proof (intro conjI allI impI ballI)
    show "512 \<le> nextPtr t2" using big tmp by (simp add: t2)
  next
    fix s assume s: "s < (512 :: nat)"
    have ds: "dlist (heads t1) s (items s)" using tmp(1) s by (simp add: wheel_rep_def)
    show "dlist (heads t2) s ((items(l := [])) s)"
    proof (cases "s = l")
      case False
      have "set (s # items s) \<inter> set (tmp # l # items l) = {}"
        using False wheel_rep_disjoint[OF rep s l] wheel_rep_slot_free[OF rep s l]
          wheel_rep_slot_free[OF rep l s] big s by auto
      then show ?thesis using il.move_frame[OF d ds _ nin] False by (simp add: t2)
    qed (use il.move_law[OF d nin] in \<open>simp add: t2\<close>)
    fix p assume "p \<in> set ((items(l := [])) s)"
    then have "p \<in> set (items s)" "s \<noteq> l" by (auto split: if_splits)
    with wheel_rep_node[OF tmp(1) s] show "node_ok t2 s p" by (simp add: node_ok_def t2)
  qed
qed

section \<open>Cascading\<close>

text \<open>
  While a list \<open>xs\<close> of nodes taken out of a slot is distributed, with \<open>ys\<close> still to come: the slots
  hold what was left (\<open>it0\<close>) and the nodes of \<open>xs\<close> distributed so far, newly placed.
\<close>

definition moving :: "timeWheel \<Rightarrow> (ptr \<Rightarrow> ptr list) \<Rightarrow> ptr list \<Rightarrow> ptr \<Rightarrow> ptr list \<Rightarrow> timeWheel \<Rightarrow> bool" where
  "moving t0 it0 xs tmp ys t \<longleftrightarrow>
     (\<exists>it. wheel_rep t it \<and> same_data t0 t \<and>
        (\<forall>s<512. \<forall>p\<in>set (it s). p \<in> set (it0 s) \<or>
           p \<in> set xs \<and> placed_new (unat (jiffies t)) s (unat (expire (nodes t p)))) \<and>
        pending it = pending it0 \<union> (set xs - set ys) \<and>
        set ys \<subseteq> set xs \<and> distinct ys \<and> set ys \<inter> pending it = {} \<and>
        next_chain (heads t) (ys @ [tmp]) \<and> tmp \<notin> set ys \<and>
        (\<forall>p\<in>set ys. 512 \<le> p \<and> p < nextPtr t \<and> \<not> stopped (nodes t p) \<and>
           unat (jiffies t) \<le> unat (expire (nodes t p))))"

lemma moving_step:
  assumes m: "moving t0 it0 xs tmp (x # ys) t" and bound: "unat (jiffies t0) + gran 4 < 2 ^ 64"
  shows "\<exists>t'. timeWheel_add x (jiffies t) t = (Ok (), t') \<and> moving t0 it0 xs tmp ys t'"
proof -
  from m obtain it where it: "wheel_rep t it" "same_data t0 t"
      "\<forall>s<512. \<forall>p\<in>set (it s). p \<in> set (it0 s) \<or>
         p \<in> set xs \<and> placed_new (unat (jiffies t)) s (unat (expire (nodes t p)))"
      "pending it = pending it0 \<union> (set xs - set (x # ys))"
      "set (x # ys) \<subseteq> set xs" "distinct (x # ys)" "set (x # ys) \<inter> pending it = {}"
      "next_chain (heads t) ((x # ys) @ [tmp])" "tmp \<notin> set (x # ys)"
      "\<forall>p\<in>set (x # ys). 512 \<le> p \<and> p < nextPtr t \<and> \<not> stopped (nodes t p) \<and>
         unat (jiffies t) \<le> unat (expire (nodes t p))"
    unfolding moving_def by blast
  have x: "512 \<le> x" "x < nextPtr t" "x \<notin> pending it" "\<not> stopped (nodes t x)"
      "unat (jiffies t) \<le> unat (expire (nodes t x))" using it(7,10) by auto
  have b: "unat (jiffies t) + gran 4 < 2 ^ 64" using bound it(2) by (simp add: same_data_def)
  obtain s where s: "timeWheel_add x (jiffies t) t = (Ok (), lockPushBack s x t)" "s < 512"
      "placed_new (unat (jiffies t)) s (unat (expire (nodes t x)))"
    using timeWheel_add_ok[OF it(1) x b] .
  let ?t = "lockPushBack s x t" and ?it = "it(s := it s @ [x])"
  note p = lockPushBack_rep[OF it(1) s(2) x(1-4)]
  have sd: "jiffies ?t = jiffies t" "expire (nodes ?t q) = expire (nodes t q)"
      "stopped (nodes ?t q) = stopped (nodes t q)" for q using p(2) by (auto simp: same_data_def)
  have same: "heads ?t q = heads t q" if "q \<in> set ys" for q
    using that it(6,7,10) s(2) pendingI[OF s(2), of _ it] by (intro p(3)) force
  have nc: "next_chain (heads t) (ys @ [tmp])" using it(8) by (cases ys) auto
  have "moving t0 it0 xs tmp ys ?t"
    unfolding moving_def
  proof (intro exI[of _ ?it] conjI)
    show "wheel_rep ?t ?it" by (rule p(1))
    show "same_data t0 ?t" using same_data_trans[OF it(2) p(2)] .
    show "\<forall>k<512. \<forall>q\<in>set (?it k). q \<in> set (it0 k) \<or>
        q \<in> set xs \<and> placed_new (unat (jiffies ?t)) k (unat (expire (nodes ?t q)))"
      using it(3,5) s(3) by (auto simp: sd)
    show "pending ?it = pending it0 \<union> (set xs - set ys)"
      using it(4-6) s(2) by auto
    show "next_chain (heads ?t) (ys @ [tmp])"
      by (rule next_chain_cong[THEN iffD2, OF _ nc]) (simp add: same butlast_append)
    show "set ys \<inter> pending ?it = {}" using it(6,7) s(2) by auto
    show "\<forall>q\<in>set ys. 512 \<le> q \<and> q < nextPtr ?t \<and> \<not> stopped (nodes ?t q) \<and>
        unat (jiffies ?t) \<le> unat (expire (nodes ?t q))"
      using it(10) p(5) by (simp add: sd)
  qed (use it in auto)
  with s(1) show ?thesis by blast
qed

lemma cascade_ok:
  assumes rep: "wheel_rep t items" and ik: "i \<le> 3" "k < 64"
    and bound: "unat (jiffies t) + gran 4 < 2 ^ 64"
    and fut: "\<forall>p\<in>set (items (t2Tot5 i k)). unat (jiffies t) \<le> unat (expire (nodes t p))"
  obtains t' it where "cascade i k t = (Ok (), t')" and "wheel_rep t' it" and "same_data t t'"
    and "pending it = pending items"
    and "\<forall>s<512. \<forall>p\<in>set (it s). p \<in> set (items s) \<and> s \<noteq> t2Tot5 i k \<or>
      p \<in> set (items (t2Tot5 i k)) \<and> placed_new (unat (jiffies t)) s (unat (expire (nodes t p)))"
proof -
  let ?l = "t2Tot5 i k"
  have l: "?l < 512" using ik by simp
  obtain tmp t1 where tt: "tempTimeHead t = (tmp, t1)" by (simp add: tempTimeHead_def)
  note tmp = wheel_rep_temp[OF rep tt]
  have d: "dlist (heads t1) ?l (items ?l)" using tmp(1) l by (simp add: wheel_rep_def)
  show thesis
  proof (cases "items ?l = []")
    case True
    with d tt have "cascade i k t = (Ok (), t1)"
      by (simp add: cascade_def Head_Len_def dlist_def Let_def)
    then show thesis
      by (rule that) (use tmp True in auto)
  next
    case False
    obtain t2 where ts: "take_slot ?l t = (tmp, t2)" using tt by (simp add: take_slot_def)
    note ts' = take_slot_ok[OF rep l ts]
    have c: "cascade i k t = traverse (\<lambda>pos t. timeWheel_add pos (jiffies t) t) tmp t2"
      using False d tt ts by (auto simp: cascade_def Head_Len_def dlist_def Let_def take_slot_def)
    let ?xs = "items ?l" and ?it0 = "items(?l := [])"
    have rg: "ring (heads t2) tmp ?xs" using ts'(2) by (simp add: dlist_def)
    have nc: "next_chain (heads t2) (?xs @ [tmp])"
    proof -
      have "next_chain (heads t2) (tmp # ?xs @ [tmp])" using rg by (auto simp: ring_def intro: linked_next_chain)
      then show ?thesis by (cases ?xs) auto
    qed
    have st: "moving t2 ?it0 ?xs tmp ?xs t2"
      unfolding moving_def
    proof (intro exI[of _ ?it0] conjI)
      show "set ?xs \<inter> pending ?it0 = {}"
        using wheel_rep_disjoint[OF rep] l by (fastforce simp: pending_def split: if_splits)
      show "\<forall>p\<in>set ?xs. 512 \<le> p \<and> p < nextPtr t2 \<and> \<not> stopped (nodes t2 p) \<and>
          unat (jiffies t2) \<le> unat (expire (nodes t2 p))"
        using wheel_rep_node[OF rep l] fut ts'(3,5,6) by (fastforce simp: node_ok_def same_data_def)
    qed (use ts' rg nc in \<open>auto simp: ring_def\<close>)
    have bound2: "unat (jiffies t2) + gran 4 < 2 ^ 64" using bound ts'(3) by (simp add: same_data_def)
    have "\<exists>t'. traverse (\<lambda>pos t. timeWheel_add pos (jiffies t) t) tmp t2 = (Ok (), t') \<and>
        moving t2 ?it0 ?xs tmp [] t'"
      by (rule traverse_ok[where P = "moving t2 ?it0 ?xs tmp", OF moving_step[OF _ bound2] _ st])
        (use ring_ends(1)[OF rg] in \<open>auto simp: moving_def\<close>)
    then obtain t' it where t': "cascade i k t = (Ok (), t')" "wheel_rep t' it" "same_data t2 t'"
        "\<forall>s<512. \<forall>p\<in>set (it s). p \<in> set (?it0 s) \<or>
           p \<in> set ?xs \<and> placed_new (unat (jiffies t')) s (unat (expire (nodes t' p)))"
        "pending it = pending ?it0 \<union> set ?xs"
      unfolding c moving_def by auto
    show thesis
    proof (rule that[OF t'(1,2)])
      show sd: "same_data t t'" using same_data_trans[OF ts'(3) t'(3)] .
      show "pending it = pending items" using t'(5) l by (auto simp: pending_def split: if_splits)
      show "\<forall>s<512. \<forall>p\<in>set (it s). p \<in> set (items s) \<and> s \<noteq> ?l \<or>
          p \<in> set ?xs \<and> placed_new (unat (jiffies t)) s (unat (expire (nodes t p)))"
        using t'(4) sd by (fastforce simp: same_data_def split: if_splits)
    qed
  qed
qed

end
