(* ===== verification/WheelTick.thy ===== *)
theory WheelTick
  imports WheelInv
begin

text \<open>
  One tick of the time wheel: \<open>moveAndExec\<close> submits exactly the nodes that expire at this tick,
  re-adds the periodic ones, and keeps the invariant.
\<close>

section \<open>The cascade at the start of a tick\<close>

text \<open>Levels below \<open>m\<close> are done for tick \<open>j\<close>, the others may still hold nodes that are due.\<close>

definition slots_placed :: "timeWheel \<Rightarrow> (ptr \<Rightarrow> ptr list) \<Rightarrow> nat \<Rightarrow> bool" where
  "slots_placed t items m \<longleftrightarrow>
     (\<forall>s<512. \<forall>p\<in>set (items s).
        (let j = unat (jiffies t); e = unat (expire (nodes t p))
         in if 256 \<le> s \<and> (s - 256) div 64 < m then placed (Suc j) s e else placed j s e))"

lemma slots_placedD:
  "slots_placed t items m \<Longrightarrow> s < 512 \<Longrightarrow> p \<in> set (items s) \<Longrightarrow>
   if 256 \<le> s \<and> (s - 256) div 64 < m then placed (Suc (unat (jiffies t))) s (unat (expire (nodes t p)))
   else placed (unat (jiffies t)) s (unat (expire (nodes t p)))"
  by (simp add: slots_placed_def Let_def)

lemma slots_placed_future:
  "slots_placed t items m \<Longrightarrow> s < 512 \<Longrightarrow> p \<in> set (items s) \<Longrightarrow> unat (jiffies t) \<le> unat (expire (nodes t p))"
  using slots_placedD[of t items m s p] by (auto split: if_splits dest!: placed_le)

lemma slot_of_level: "256 \<le> s \<Longrightarrow> s = t2Tot5 ((s - 256) div 64) ((s - 256) mod 64)"
  using mult_div_mod_eq[of 64 "s - 256"] by (simp only: t2Tot5_def wheel_consts)

lemma upper_placed_Suc:
  assumes "placed j s e" and "256 \<le> s"
    and "\<not> (gran ((s - 256) div 64) dvd j \<and> (s - 256) mod 64 = (j div gran ((s - 256) div 64)) mod 64)"
  shows "placed (Suc j) s e"
  using assms by (simp add: placed_def level_placed_Suc)

lemma cascade_level:
  assumes rep: "wheel_rep t items" and i: "i \<le> 3" and bound: "unat (jiffies t) + gran 4 < 2 ^ 64"
    and pl: "slots_placed t items i"
    and k: "k = (unat (jiffies t) div gran i) mod 64"
  obtains t' it where "cascade i k t = (Ok (), t')" and "wheel_rep t' it" and "same_data t t'"
    and "pending it = pending items" and "slots_placed t' it (Suc i)"
proof -
  let ?j = "unat (jiffies t)" and ?l = "t2Tot5 i k"
  have k64: "k < 64" using k by simp
  have l: "?l < 512" using i k64 by simp
  have "\<forall>p\<in>set (items ?l). ?j \<le> unat (expire (nodes t p))"
    using slots_placed_future[OF pl l] by blast
  from cascade_ok[OF rep i k64 bound this] obtain t' it where
    t': "cascade i k t = (Ok (), t')" "wheel_rep t' it" "same_data t t'" "pending it = pending items"
      "\<forall>s<512. \<forall>p\<in>set (it s). p \<in> set (items s) \<and> s \<noteq> ?l \<or>
        p \<in> set (items ?l) \<and> placed_new ?j s (unat (expire (nodes t p)))" .
  have "slots_placed t' it (Suc i)"
    unfolding slots_placed_def
  proof (intro allI impI ballI)
    fix s p assume s: "s < 512" and p: "p \<in> set (it s)"
    let ?e = "unat (expire (nodes t p))"
    have sd: "jiffies t' = jiffies t" "expire (nodes t' p) = expire (nodes t p)"
      using t'(3) by (simp_all add: same_data_def)
    from t'(5) s p consider "p \<in> set (items s)" "s \<noteq> ?l" | "placed_new ?j s ?e" by blast
    then have "if 256 \<le> s \<and> (s - 256) div 64 < Suc i then placed (Suc ?j) s ?e else placed ?j s ?e"
    proof cases
      case 1
      have old: "if 256 \<le> s \<and> (s - 256) div 64 < i then placed (Suc ?j) s ?e else placed ?j s ?e"
        using slots_placedD[OF pl s 1(1)] .
      have "placed (Suc ?j) s ?e" if "256 \<le> s" "(s - 256) div 64 = i"
      proof -
        have "s = t2Tot5 i ((s - 256) mod 64)" using slot_of_level[OF that(1)] that(2) by simp
        with 1(2) have "(s - 256) mod 64 \<noteq> k" by auto
        with old that k show ?thesis by (intro upper_placed_Suc) (auto split: if_splits)
      qed
      with old show ?thesis by (auto split: if_splits simp: less_Suc_eq)
    next
      case 2
      then show ?thesis by (auto simp: placed_new_def)
    qed
    then show "let j = unat (jiffies t'); e = unat (expire (nodes t' p))
         in if 256 \<le> s \<and> (s - 256) div 64 < Suc i then placed (Suc j) s e else placed j s e"
      by (simp add: Let_def sd)
  qed
  with t' show thesis by (intro that)
qed

lemma slots_placed_settle:
  assumes "slots_placed t items m" and "\<And>i. m \<le> i \<Longrightarrow> i \<le> 3 \<Longrightarrow> \<not> gran i dvd unat (jiffies t)"
  shows "slots_placed t items 4"
  unfolding slots_placed_def
proof (intro allI impI ballI)
  fix s p assume s: "s < 512" "p \<in> set (items s)"
  let ?j = "unat (jiffies t)" and ?e = "unat (expire (nodes t p))"
  have old: "if 256 \<le> s \<and> (s - 256) div 64 < m then placed (Suc ?j) s ?e else placed ?j s ?e"
    using slots_placedD[OF assms(1) s] .
  have "placed (Suc ?j) s ?e" if u: "256 \<le> s" "\<not> (s - 256) div 64 < m"
    using old u assms(2)[of "(s - 256) div 64"] s(1) by (intro upper_placed_Suc) auto
  with old s(1) show "let j = ?j; e = ?e in
      if 256 \<le> s \<and> (s - 256) div 64 < 4 then placed (Suc j) s e else placed j s e"
    by (auto simp: Let_def split: if_splits)
qed

lemma cascade_loop_ok:
  assumes "wheel_rep t items" and "unat (jiffies t) + gran 4 < 2 ^ 64" and "slots_placed t items i"
    and "i \<le> 4" and "i \<le> 3 \<longrightarrow> gran i dvd unat (jiffies t)"
  shows "\<exists>t' it. cascade_loop i t = (Ok (), t') \<and> wheel_rep t' it \<and> same_data t t' \<and>
    pending it = pending items \<and> slots_placed t' it 4"
  using assms
proof (induction i t arbitrary: items rule: cascade_loop.induct)
  case (1 i t)
  let ?j = "unat (jiffies t)"
  show ?case
  proof (cases "i \<le> 3")
    case False
    with "1.prems"(4) have "i = 4" by simp
    with False "1.prems" show ?thesis by (subst cascade_loop.simps) (auto intro!: exI[of _ items])
  next
    case True
    let ?k = "unat (timeWheel_index i t)"
    have k: "?k = (?j div gran i) mod 64"
      unfolding timeWheel_index_def unat_and_63 unat_drop_bit gran_def
      by (simp add: nearShift_def levelShift_def)
    obtain t1 it where t1: "cascade i ?k t = (Ok (), t1)" "wheel_rep t1 it" "same_data t t1"
        "pending it = pending items" "slots_placed t1 it (Suc i)"
      using cascade_level[OF "1.prems"(1) True "1.prems"(2,3) k] .
    have j1: "jiffies t1 = jiffies t" using t1(3) by (simp add: same_data_def)
    have dv: "gran (Suc i) dvd ?j \<longleftrightarrow> ?k = 0"
    proof -
      obtain q where q: "?j = q * gran i" using "1.prems"(5) True by (metis dvd_def mult.commute)
      then have "gran (Suc i) dvd ?j \<longleftrightarrow> 64 dvd q" by (simp add: gran_Suc)
      then show ?thesis using q by (simp add: k mod_eq_0_iff_dvd)
    qed
    show ?thesis
    proof (cases "timeWheel_index i t = 0")
      case zero: True
      have "\<exists>t' it'. cascade_loop (i + 1) t1 = (Ok (), t') \<and> wheel_rep t' it' \<and> same_data t1 t' \<and>
          pending it' = pending it \<and> slots_placed t' it' 4"
        using True zero t1 dv j1 "1.prems"(2) by (intro "1.IH") auto
      then show ?thesis
        using True zero t1 by (subst cascade_loop.simps) (auto simp: Let_def intro: same_data_trans)
    next
      case False
      then have no: "\<not> gran (Suc i) dvd ?j" unfolding dv by (simp add: unat_eq_zero)
      have "slots_placed t1 it 4"
        by (rule slots_placed_settle[OF t1(5)]) (metis no dvd_trans gran_mono j1)
      then show ?thesis
        using True False t1 by (subst cascade_loop.simps) (auto simp: Let_def)
    qed
  qed
qed

text \<open>After the cascade phase of any tick, the upper levels hold nothing that is due.\<close>

lemma cascade_phase:
  assumes rep: "wheel_rep t items" and bound: "unat (jiffies t) + gran 4 < 2 ^ 64"
    and pl: "slots_placed t items 0"
  shows "\<exists>t' it. (if jiffies t AND nearMask = 0 then cascade_loop 0 t else (Ok (), t)) = (Ok (), t') \<and>
    wheel_rep t' it \<and> same_data t t' \<and> pending it = pending items \<and> slots_placed t' it 4"
proof -
  have m: "jiffies t AND nearMask = 0 \<longleftrightarrow> gran 0 dvd unat (jiffies t)"
    by (metis dvd_eq_mod_eq_0 gran_0 unat_and_255 unat_eq_zero unsigned_0)
  show ?thesis
  proof (cases "jiffies t AND nearMask = 0")
    case True
    then show ?thesis using cascade_loop_ok[OF rep bound pl] m by auto
  next
    case False
    have "slots_placed t items 4"
      by (rule slots_placed_settle[OF pl]) (metis False m dvd_trans gran_mono le0)
    with rep False show ?thesis by (auto intro!: exI[of _ items])
  qed
qed

section \<open>Executing the nodes of a slot\<close>

text \<open>A periodic node has a period of at least one tick (and at most what a duration can hold).\<close>

definition period_ok :: "timeNode \<Rightarrow> bool" where
  "period_ok n \<longleftrightarrow> (isSchedule n \<longrightarrow> 1 \<le> ticks (userExpire n) \<and> ticks (userExpire n) < 2 ^ 40)"

text \<open>The expiry of a node after it was executed at tick \<open>jif\<close>.\<close>

definition next_expire :: "uint64 \<Rightarrow> timeNode \<Rightarrow> uint64" where
  "next_expire jif n = (if isSchedule n then getExpire (userExpire n) jif else expire n)"

lemma unat_next_expire:
  assumes "period_ok n" and "isSchedule n" and "unat jif + 2 ^ 40 < 2 ^ 64"
  shows "unat (next_expire jif n) = unat jif + nat (ticks (userExpire n))"
proof -
  define k where "k = nat (ticks (userExpire n))"
  have t: "0 \<le> ticks (userExpire n)" "ticks (userExpire n) < 2 ^ 40"
    using assms(1,2) by (simp_all add: period_ok_def)
  then have k: "k < 2 ^ 40" "of_int (ticks (userExpire n)) = (of_nat k :: uint64)"
    by (simp_all add: k_def)
  have u: "unat (of_nat k :: uint64) = k" using k(1) by (simp add: unat_of_nat)
  have "unat (of_nat k + jif) = k + unat jif"
    using u assms(3) k(1) by (subst unat_plus_if') simp
  then show ?thesis
    using assms(2) by (simp add: next_expire_def getExpire_def k(2) k_def[symmetric])
qed

text \<open>A change of the state that does not touch the nodes in the slots.\<close>

lemma wheel_rep_cong:
  assumes "wheel_rep t items" and "nextPtr t' = nextPtr t" and "versions t' = versions t"
    and "\<And>s. s < 512 \<Longrightarrow> dlist (heads t') s (items s)"
    and "\<And>p. p \<in> pending items \<Longrightarrow> nodes t' p = nodes t p"
  shows "wheel_rep t' items"
  unfolding wheel_rep_def
proof (intro conjI allI impI ballI)
  fix s p assume "s < 512" and "p \<in> set (items s)"
  with wheel_rep_node[OF assms(1)] assms(5)[OF pendingI] show "node_ok t' s p"
    by (simp add: node_ok_def assms(2,3))
qed (use assms in \<open>simp_all add: wheel_rep_def\<close>)

text \<open>The data of the wheel after the nodes \<open>zs\<close> were executed, starting from \<open>t0\<close>.\<close>

definition exec_data :: "timeWheel \<Rightarrow> ptr list \<Rightarrow> timeWheel \<Rightarrow> bool" where
  "exec_data t0 zs t \<longleftrightarrow>
     jiffies t = jiffies t0 \<and> nextPtr t = nextPtr t0 \<and> submitted t = submitted t0 @ zs \<and>
     curTimePoint t = curTimePoint t0 \<and> cancelled t = cancelled t0 \<and>
     (\<forall>p. userExpire (nodes t p) = userExpire (nodes t0 p) \<and> callback (nodes t p) = callback (nodes t0 p) \<and>
        stopped (nodes t p) = stopped (nodes t0 p) \<and> isSchedule (nodes t p) = isSchedule (nodes t0 p) \<and>
        expire (nodes t p) = (if p \<in> set zs then next_expire (jiffies t0 - 1) (nodes t0 p)
                              else expire (nodes t0 p)))"

lemma exec_dataD:
  assumes "exec_data t0 zs t"
  shows "jiffies t = jiffies t0" "nextPtr t = nextPtr t0" "submitted t = submitted t0 @ zs"
    "userExpire (nodes t p) = userExpire (nodes t0 p)" "callback (nodes t p) = callback (nodes t0 p)"
    "stopped (nodes t p) = stopped (nodes t0 p)" "isSchedule (nodes t p) = isSchedule (nodes t0 p)"
    "expire (nodes t p) = (if p \<in> set zs then next_expire (jiffies t0 - 1) (nodes t0 p) else expire (nodes t0 p))"
  using assms by (simp_all add: exec_data_def)

text \<open>The state after \<open>x\<close> was removed from the list \<open>head\<close>, submitted and given its next expiry.\<close>

definition exec_mid :: "timeWheel \<Rightarrow> ptr \<Rightarrow> ptr \<Rightarrow> timeWheel \<Rightarrow> timeWheel" where
  "exec_mid t0 head x t =
     t\<lparr>heads := Head_Del head x (heads t), submitted := submitted t @ [x],
       nodes := (nodes t)(x := (nodes t x)\<lparr>expire := next_expire (jiffies t0 - 1) (nodes t0 x)\<rparr>)\<rparr>"

lemma exec_mid_data: "exec_data t0 zs t \<Longrightarrow> exec_data t0 (zs @ [x]) (exec_mid t0 head x t)"
  by (simp add: exec_data_def exec_mid_def)

lemma exec_push_data:
  assumes "exec_data t0 zs t" and "same_data t t'" and "nextPtr t' = nextPtr t"
  shows "exec_data t0 zs t'"
  using assms by (simp add: exec_data_def same_data_def)

lemma exec_mid_rep:
  assumes rep: "wheel_rep t it" and d: "dlist (heads t) head (x # ys)" and x: "x \<notin> pending it"
    and dis: "set (head # ys) \<inter> pending it = {}" "\<forall>q\<in>set (head # ys). 512 \<le> q"
  shows "wheel_rep (exec_mid t0 head x t) it" and "dlist (heads (exec_mid t0 head x t)) head ys"
proof -
  show "dlist (heads (exec_mid t0 head x t)) head ys"
    using il.delete_law[of "heads t" head "[]" x ys] d by (simp add: exec_mid_def)
  show "wheel_rep (exec_mid t0 head x t) it"
  proof (rule wheel_rep_cong[OF rep])
    fix s assume s: "s < (512 :: nat)"
    have ds: "dlist (heads t) s (it s)" using rep s by (simp add: wheel_rep_def)
    have "q \<notin> set (head # ys)" if "q \<in> set (s # it s)" for q
      using that dis s pendingI[OF s, of q it] by auto
    then have "set (s # it s) \<inter> set (head # [] @ ys) = {}" by auto
    then show "dlist (heads (exec_mid t0 head x t)) s (it s)"
      using il.delete_frame[of "heads t" head "[]" x ys s "it s"] d ds by (simp add: exec_mid_def)
  next
    fix p assume "p \<in> pending it"
    with x show "nodes (exec_mid t0 head x t) p = nodes t p" by (auto simp: exec_mid_def)
  qed (simp_all add: exec_mid_def)
qed

text \<open>
  The state while the list \<open>zs @ ys\<close> of a slot is executed, with \<open>ys\<close> still to come; \<open>t0\<close> is the
  state before, with the slot already emptied (\<open>it0\<close>).
\<close>

definition executing ::
    "timeWheel \<Rightarrow> (ptr \<Rightarrow> ptr list) \<Rightarrow> ptr list \<Rightarrow> ptr \<Rightarrow> ptr list \<Rightarrow> timeWheel \<Rightarrow> bool" where
  "executing t0 it0 xs head ys t \<longleftrightarrow>
     (\<exists>it zs. xs = zs @ ys \<and> wheel_rep t it \<and> dlist (heads t) head ys \<and> exec_data t0 zs t \<and>
        (\<forall>s<512. \<forall>p\<in>set (it s). p \<in> set (it0 s) \<or>
           p \<in> set zs \<and> placed (unat (jiffies t0)) s (unat (expire (nodes t p)))) \<and>
        pending it = pending it0 \<union> {p \<in> set zs. isSchedule (nodes t0 p)})"

definition exec_ready :: "timeWheel \<Rightarrow> (ptr \<Rightarrow> ptr list) \<Rightarrow> ptr list \<Rightarrow> ptr \<Rightarrow> bool" where
  "exec_ready t0 it0 xs head \<longleftrightarrow>
     distinct xs \<and> set xs \<inter> pending it0 = {} \<and> head \<notin> pending it0 \<and> head \<notin> set xs \<and> 512 \<le> head \<and>
     (\<forall>p\<in>set xs. 512 \<le> p \<and> p < nextPtr t0 \<and> \<not> stopped (nodes t0 p) \<and> period_ok (nodes t0 p)) \<and>
     0 < unat (jiffies t0) \<and> unat (jiffies t0) + 2 ^ 41 < 2 ^ 64"

lemma exec_node_mid:
  assumes "exec_data t0 zs t" and "x \<notin> set zs" and "\<not> stopped (nodes t0 x)"
  shows "exec_node head x t = (if isSchedule (nodes t0 x)
    then timeWheel_add x (jiffies t0) (exec_mid t0 head x t) else (Ok (), exec_mid t0 head x t))"
  using exec_dataD[OF assms(1)] assms(2,3)
  by (simp add: exec_node_def exec_mid_def Let_def next_expire_def fun_upd_idem)

lemma exec_placed_grow:
  assumes "\<forall>s<512. \<forall>p\<in>set (it s). p \<in> set (it0 s) \<or> p \<in> set zs \<and> placed j s (unat (expire (nodes t p)))"
    and "\<And>p. p \<noteq> x \<Longrightarrow> expire (nodes t' p) = expire (nodes t p)" and "x \<notin> pending it"
    and "\<And>k p. k < 512 \<Longrightarrow> p \<in> set (it' k) \<Longrightarrow>
      p \<in> set (it k) \<or> p = x \<and> placed j k (unat (expire (nodes t' x)))"
  shows "\<forall>s<512. \<forall>p\<in>set (it' s). p \<in> set (it0 s) \<or>
    p \<in> set (zs @ [x]) \<and> placed j s (unat (expire (nodes t' p)))"
proof (intro allI impI ballI)
  fix k p assume k: "k < (512 :: nat)" and p: "p \<in> set (it' k)"
  show "p \<in> set (it0 k) \<or> p \<in> set (zs @ [x]) \<and> placed j k (unat (expire (nodes t' p)))"
  proof (cases "p \<in> set (it k)")
    case True
    then have "p \<noteq> x" using pendingI[of k p it] k assms(3) by blast
    with True assms(1,2) k show ?thesis by (metis Un_iff set_append)
  next
    case False
    with assms(4)[OF k p] show ?thesis by simp
  qed
qed

lemma exec_step:
  assumes ex: "executing t0 it0 xs head (x # ys) t" and rd: "exec_ready t0 it0 xs head"
  shows "\<exists>t'. exec_node head x t = (Ok (), t') \<and> executing t0 it0 xs head ys t'"
proof -
  from ex obtain it zs where z: "xs = zs @ x # ys" "wheel_rep t it" "dlist (heads t) head (x # ys)"
      "exec_data t0 zs t"
    and pl: "\<forall>s<512. \<forall>p\<in>set (it s). p \<in> set (it0 s) \<or>
           p \<in> set zs \<and> placed (unat (jiffies t0)) s (unat (expire (nodes t p)))"
    and pend: "pending it = pending it0 \<union> {p \<in> set zs. isSchedule (nodes t0 p)}"
    unfolding executing_def by blast
  let ?t1 = "exec_mid t0 head x t"
  note data1 = exec_mid_data[OF z(4), of x head]
  have x: "512 \<le> x" "x < nextPtr t0" "\<not> stopped (nodes t0 x)" "x \<notin> pending it" "x \<notin> set zs"
      "period_ok (nodes t0 x)" "x \<notin> set ys"
    using rd z(1) pend by (auto simp: exec_ready_def)
  have dis: "set (head # ys) \<inter> pending it = {}" "\<forall>q\<in>set (head # ys). 512 \<le> q" "x \<noteq> head"
    using rd z(1) pend by (auto simp: exec_ready_def)
  note mid = exec_mid_rep[OF z(2,3) x(4) dis(1,2), of t0]
  note run = exec_node_mid[OF z(4) x(5,3), of head]
  have other: "expire (nodes ?t1 p) = expire (nodes t p)" if "p \<noteq> x" for p
    using that by (simp add: exec_mid_def)
  show ?thesis
  proof (cases "isSchedule (nodes t0 x)")
    case False
    have "executing t0 it0 xs head ys ?t1"
      unfolding executing_def
    proof (intro exI[of _ it] exI[of _ "zs @ [x]"] conjI)
      show "pending it = pending it0 \<union> {p \<in> set (zs @ [x]). isSchedule (nodes t0 p)}"
        using pend False by auto
      show "\<forall>s<512. \<forall>p\<in>set (it s). p \<in> set (it0 s) \<or> p \<in> set (zs @ [x]) \<and>
          placed (unat (jiffies t0)) s (unat (expire (nodes ?t1 p)))"
        using exec_placed_grow[OF pl other x(4)] by blast
    qed (use z(1) mid data1 in simp_all)
    with run False show ?thesis by simp
  next
    case True
    have j: "unat (jiffies t0 - 1) = unat (jiffies t0) - 1" "0 < unat (jiffies t0)"
        "unat (jiffies t0) + 2 ^ 41 < 2 ^ 64"
      using rd by (simp_all add: exec_ready_def unat_minus_one unat_gt_0)
    have "unat (expire (nodes ?t1 x)) = unat (jiffies t0) - 1 + nat (ticks (userExpire (nodes t0 x)))"
      using unat_next_expire[OF x(6) True, of "jiffies t0 - 1"] j by (simp add: exec_mid_def)
    moreover have "1 \<le> ticks (userExpire (nodes t0 x))" using x(6) True by (simp add: period_ok_def)
    ultimately have le: "unat (jiffies t0) \<le> unat (expire (nodes ?t1 x))" using j(2) by simp
    have x1: "x < nextPtr ?t1" "\<not> stopped (nodes ?t1 x)" using x exec_dataD[OF data1] by simp_all
    have b: "unat (jiffies t0) + gran 4 < 2 ^ 64" using j(3) by (simp add: gran_4)
    obtain s where s: "timeWheel_add x (jiffies t0) ?t1 = (Ok (), lockPushBack s x ?t1)" "s < 512"
        "placed_new (unat (jiffies t0)) s (unat (expire (nodes ?t1 x)))"
      using timeWheel_add_ok[OF mid(1) x(1) x1(1) x(4) x1(2) le b] .
    let ?t = "lockPushBack s x ?t1" and ?it = "it(s := it s @ [x])"
    note p = lockPushBack_rep[OF mid(1) s(2) x(1) x1(1) x(4) x1(2)]
    have sd: "expire (nodes ?t q) = expire (nodes ?t1 q)" for q using p(2) by (simp add: same_data_def)
    have "executing t0 it0 xs head ys ?t"
      unfolding executing_def
    proof (intro exI[of _ ?it] exI[of _ "zs @ [x]"] conjI)
      show "dlist (heads ?t) head ys"
      proof (rule dlist_cong[THEN iffD2, OF _ mid(2)], rule p(3))
        fix q assume q: "q \<in> set (head # ys)"
        then have "q \<noteq> x" "q \<noteq> s" "q \<notin> set (it s)"
          using dis x(7) s(2) pendingI[OF s(2), of q it] by auto
        then show "q \<notin> set (x # s # it s)" by simp
      qed
      show "pending ?it = pending it0 \<union> {p \<in> set (zs @ [x]). isSchedule (nodes t0 p)}"
        using pend True s(2) by auto
      show "\<forall>k<512. \<forall>q\<in>set (?it k). q \<in> set (it0 k) \<or> q \<in> set (zs @ [x]) \<and>
          placed (unat (jiffies t0)) k (unat (expire (nodes ?t q)))"
        by (rule exec_placed_grow[OF pl _ x(4)])
          (use s(3) other sd in \<open>auto simp: placed_new_def split: if_splits\<close>)
    qed (use z(1) p(1) exec_push_data[OF data1 p(2,5)] in simp_all)
    with run True s(1) show ?thesis by auto
  qed
qed

section \<open>The wheel as a set of timers\<close>

text \<open>
  What the wheel promises: a set of timers, each with the tick it is due at and, if it is periodic,
  its period in ticks. At tick \<open>j\<close> exactly the timers that are due at \<open>j\<close> fire.
\<close>

type_synonym timers = "ptr \<Rightarrow> (nat \<times> nat option) option"

definition due :: "nat \<Rightarrow> timers \<Rightarrow> ptr set" where
  "due j m = {p. \<exists>q. m p = Some (j, q)}"

definition rearm :: "nat \<Rightarrow> nat \<times> nat option \<Rightarrow> (nat \<times> nat option) option" where
  "rearm j v = (if fst v = j then map_option (\<lambda>q. (j + q, Some q)) (snd v) else Some v)"

definition timers_tick :: "nat \<Rightarrow> timers \<Rightarrow> timers" where
  "timers_tick j m p = Option.bind (m p) (rearm j)"

definition timer_of :: "timeNode \<Rightarrow> nat \<times> nat option" where
  "timer_of n = (unat (expire n), if isSchedule n then Some (nat (ticks (userExpire n))) else None)"

definition timers_of :: "timeWheel \<Rightarrow> (ptr \<Rightarrow> ptr list) \<Rightarrow> timers" where
  "timers_of t items p = (if p \<in> pending items then Some (timer_of (nodes t p)) else None)"

text \<open>The wheel stands for the timers \<open>m\<close>.\<close>

definition wheel_timers :: "timeWheel \<Rightarrow> timers \<Rightarrow> bool" where
  "wheel_timers t m \<longleftrightarrow>
     (\<exists>items. wheel_rep t items \<and> slots_placed t items 0 \<and>
        (\<forall>p\<in>pending items. period_ok (nodes t p)) \<and> m = timers_of t items)"

lemma slots_placed_0:
  "slots_placed t items 0 \<longleftrightarrow>
     (\<forall>s<512. \<forall>p\<in>set (items s). placed (unat (jiffies t)) s (unat (expire (nodes t p))))"
  by (simp add: slots_placed_def Let_def)

lemma due_slot:
  assumes "slots_placed t it 4" and "p \<in> set (it (unat (jiffies t) mod 256))"
  shows "unat (expire (nodes t p)) = unat (jiffies t)"
proof -
  let ?j = "unat (jiffies t)" and ?e = "unat (expire (nodes t p))"
  have "placed ?j (?j mod 256) ?e"
    using slots_placedD[OF assms(1) _ assms(2)] by (simp add: not_le order.strict_trans)
  then have *: "?e mod 256 = ?j mod 256" "?j \<le> ?e" "?e < ?j + 256" by (simp_all add: placed_def)
  then have "256 dvd ?e - ?j" by (simp add: mod_eq_dvd_iff_nat)
  with *(3) have "\<not> 0 < ?e - ?j" using nat_dvd_not_less[of "?e - ?j" 256] by fastforce
  with *(2) show ?thesis by simp
qed

lemma other_slot:
  assumes "slots_placed t it 4" and "s < 512" and "s \<noteq> unat (jiffies t) mod 256" and "p \<in> set (it s)"
  shows "placed (Suc (unat (jiffies t))) s (unat (expire (nodes t p)))"
proof (cases "s < 256")
  case True
  then have "placed (unat (jiffies t)) s (unat (expire (nodes t p)))"
    using slots_placedD[OF assms(1,2,4)] by auto
  with True assms(3) show ?thesis by (auto simp: placed_def le_less)
next
  case False
  with assms(2) have "256 \<le> s" "(s - 256) div 64 < 4" by auto
  with slots_placedD[OF assms(1,2,4)] show ?thesis by simp
qed

text \<open>
  The step of the abstract timers, seen from the wheel: \<open>F\<close> are the nodes in the slot that is due,
  \<open>P'\<close> the nodes in the wheel afterwards.
\<close>

lemma due_iff:
  assumes "\<And>p. p \<in> F \<Longrightarrow> p \<in> pending it \<and> unat (expire (nodes t p)) = j"
    and "\<And>p. p \<in> pending it \<Longrightarrow> p \<notin> F \<Longrightarrow> j < unat (expire (nodes t p))"
  shows "due j (timers_of t it) = F"
proof (rule set_eqI)
  fix p
  have "p \<in> due j (timers_of t it) \<longleftrightarrow> p \<in> pending it \<and> unat (expire (nodes t p)) = j"
    by (simp add: due_def timers_of_def timer_of_def)
  also have "\<dots> \<longleftrightarrow> p \<in> F" using assms[of p] by (cases "p \<in> F") auto
  finally show "p \<in> due j (timers_of t it) \<longleftrightarrow> p \<in> F" .
qed

lemma timers_tick_eqI:
  assumes "\<And>p. p \<in> F \<Longrightarrow> p \<in> pending it \<and> unat (expire (nodes t p)) = j"
    and "\<And>p. p \<in> pending it \<Longrightarrow> p \<notin> F \<Longrightarrow> j < unat (expire (nodes t p))"
    and "pending it' = (pending it - F) \<union> {p \<in> F. isSchedule (nodes t p)}"
    and "\<And>p. p \<in> pending it \<Longrightarrow> p \<notin> F \<Longrightarrow> timer_of (nodes t' p) = timer_of (nodes t p)"
    and "\<And>p. p \<in> F \<Longrightarrow> isSchedule (nodes t p) \<Longrightarrow>
      timer_of (nodes t' p) = (j + nat (ticks (userExpire (nodes t p))), snd (timer_of (nodes t p)))"
  shows "timers_of t' it' = timers_tick j (timers_of t it)"
proof
  fix p
  consider "p \<notin> pending it" "p \<notin> F" | "p \<in> F" "p \<in> pending it" | "p \<in> pending it" "p \<notin> F"
    using assms(1) by blast
  then show "timers_of t' it' p = timers_tick j (timers_of t it) p"
  proof cases
    case 1
    then show ?thesis by (simp add: timers_of_def timers_tick_def assms(3))
  next
    case 2
    with assms(1)[of p] assms(5)[of p] show ?thesis
      by (cases "isSchedule (nodes t p)") (simp_all add: timers_of_def timers_tick_def rearm_def timer_of_def assms(3))
  next
    case 3
    with assms(2,4)[of p] show ?thesis
      by (simp add: timers_of_def timers_tick_def rearm_def assms(3)) (simp add: timer_of_def)
  qed
qed

end
