(* ===== verification/WheelRun.thy ===== *)
theory WheelRun
  imports WheelTick
begin

text \<open>
  The time wheel refines a set of timers: a tick submits exactly the timers that are due, over any
  number of ticks a timer fires when it should, and starting, stopping and running timers are
  operations on that set.
\<close>

section \<open>One tick\<close>

text \<open>The second half of \<open>moveAndExec\<close>: the nodes of slot \<open>l\<close>.\<close>

definition exec_slot :: "ptr \<Rightarrow> timeWheel \<Rightarrow> unit outcome \<times> timeWheel" where
  "exec_slot l t = (if Head_Len l (heads t) = 0 then (Ok (), t)
     else case take_slot l t of (head, t') \<Rightarrow> traverse (exec_node head) head t')"

lemma moveAndExec_phases:
  "moveAndExec t = and_then (if jiffies t AND nearMask = 0 then cascade_loop 0 t else (Ok (), t))
     (\<lambda>_ t1. exec_slot (unat (jiffies t) mod 256) (t1\<lparr>jiffies := jiffies t1 + 1\<rparr>))"
  by (simp add: moveAndExec_def exec_slot_def take_slot_def tempTimeHead_def t1_head_def unat_and_255 Let_def
      cong: if_cong)

lemma exec_start:
  assumes rep: "wheel_rep t it" and l: "l < 512" and ts: "take_slot l t = (head, t0)"
    and per: "\<forall>p\<in>set (it l). period_ok (nodes t p)"
    and j: "0 < unat (jiffies t)" "unat (jiffies t) + 2 ^ 41 < 2 ^ 64"
  shows "exec_ready t0 (it(l := [])) (it l) head"
    and "executing t0 (it(l := [])) (it l) head (it l) t0"
    and "Next (heads t0 head) = behind head (it l)"
proof -
  note ts' = take_slot_ok[OF rep l ts]
  have rg: "ring (heads t0) head (it l)" using ts'(2) by (simp add: dlist_def)
  have nh: "512 \<le> head" using rep ts'(4) by (simp add: wheel_rep_def)
  have lt: "p < head" if "p \<in> pending it" for p
    using that rep ts'(4) by (auto simp: pending_def wheel_rep_def node_ok_def)
  have sub: "pending (it(l := [])) \<subseteq> pending it" by (auto simp: pending_def split: if_splits)
  have nd: "node_ok t l p" if "p \<in> set (it l)" for p using wheel_rep_node[OF rep l that] .
  have "set (it l) \<inter> pending (it(l := [])) = {}"
    using wheel_rep_disjoint[OF rep _ l] by (fastforce simp: pending_def split: if_splits)
  moreover have "head \<notin> pending (it(l := []))" using sub lt by blast
  moreover have "head \<notin> set (it l)" "distinct (it l)" using rg by (auto simp: ring_def)
  moreover have "512 \<le> p \<and> p < nextPtr t0 \<and> \<not> stopped (nodes t0 p) \<and> period_ok (nodes t0 p)"
    if "p \<in> set (it l)" for p
    using nd[OF that] per that ts'(5,6) by (simp add: node_ok_def)
  ultimately show "exec_ready t0 (it(l := [])) (it l) head"
    using nh j ts'(3) by (simp add: exec_ready_def same_data_def)
  show "executing t0 (it(l := [])) (it l) head (it l) t0"
    unfolding executing_def
    by (rule exI[of _ "it(l := [])"], rule exI[of _ "[]"])
      (use ts'(1,2) in \<open>simp add: exec_data_def\<close>)
  show "Next (heads t0 head) = behind head (it l)" by (rule ring_ends(1)[OF rg])
qed

lemma executing_chain:
  assumes "executing t0 it0 xs head ys t"
  shows "next_chain (heads t) (ys @ [head]) \<and> head \<notin> set ys"
proof -
  have rg: "ring (heads t) head ys" using assms by (auto simp: executing_def dlist_def)
  then have "next_chain (heads t) (head # ys @ [head])" by (auto simp: ring_def intro: linked_next_chain)
  then have "next_chain (heads t) (ys @ [head])" by (cases ys) auto
  with rg show ?thesis by (simp add: ring_def)
qed

text \<open>The slot is executed: its nodes are submitted in order, the periodic ones are back in the wheel.\<close>

lemma exec_slot_ok:
  assumes rep: "wheel_rep t it" and l: "l < 512"
    and per: "\<forall>p\<in>set (it l). period_ok (nodes t p)"
    and j: "0 < unat (jiffies t)" "unat (jiffies t) + 2 ^ 41 < 2 ^ 64"
  obtains t' it' where "exec_slot l t = (Ok (), t')" and "wheel_rep t' it'"
    and "jiffies t' = jiffies t" and "submitted t' = submitted t @ it l"
    and "curTimePoint t' = curTimePoint t" and "cancelled t' = cancelled t" and "nextPtr t \<le> nextPtr t'"
    and "\<forall>p. userExpire (nodes t' p) = userExpire (nodes t p)"
    and "\<forall>p. callback (nodes t' p) = callback (nodes t p)"
    and "\<forall>p. stopped (nodes t' p) = stopped (nodes t p)"
    and "\<forall>p. isSchedule (nodes t' p) = isSchedule (nodes t p)"
    and "\<forall>p. expire (nodes t' p) =
      (if p \<in> set (it l) then next_expire (jiffies t - 1) (nodes t p) else expire (nodes t p))"
    and "\<forall>s<512. \<forall>p\<in>set (it' s). p \<in> set (it s) \<and> s \<noteq> l \<or>
      p \<in> set (it l) \<and> placed (unat (jiffies t)) s (unat (expire (nodes t' p)))"
    and "pending it' = (pending it - set (it l)) \<union> {p \<in> set (it l). isSchedule (nodes t p)}"
proof (cases "it l = []")
  case True
  have "dlist (heads t) l (it l)" using rep l by (simp add: wheel_rep_def)
  with True have "exec_slot l t = (Ok (), t)" by (simp add: exec_slot_def Head_Len_def dlist_def)
  then show thesis by (rule that[of t it]) (use True rep in auto)
next
  case False
  have d: "dlist (heads t) l (it l)" using rep l by (simp add: wheel_rep_def)
  obtain head t0 where ts: "take_slot l t = (head, t0)" by fastforce
  have run: "exec_slot l t = traverse (exec_node head) head t0"
    using False d ts by (simp add: exec_slot_def Head_Len_def dlist_def)
  note ts' = take_slot_ok[OF rep l ts]
  note st = exec_start[OF rep l ts per j]
  have "\<exists>t'. traverse (exec_node head) head t0 = (Ok (), t') \<and>
      executing t0 (it(l := [])) (it l) head [] t'"
    by (rule traverse_ok[where P = "executing t0 (it(l := [])) (it l) head", OF exec_step[OF _ st(1)] executing_chain st(2,3)])
  then obtain t' it' where t': "exec_slot l t = (Ok (), t')" "wheel_rep t' it'" "exec_data t0 (it l) t'"
      "\<forall>s<512. \<forall>p\<in>set (it' s). p \<in> set ((it(l := [])) s) \<or>
         p \<in> set (it l) \<and> placed (unat (jiffies t0)) s (unat (expire (nodes t' p)))"
      "pending it' = pending (it(l := [])) \<union> {p \<in> set (it l). isSchedule (nodes t0 p)}"
    unfolding run executing_def by auto
  have sd: "jiffies t0 = jiffies t" "submitted t0 = submitted t" "curTimePoint t0 = curTimePoint t"
      "cancelled t0 = cancelled t" "nodes t0 = nodes t" "nextPtr t0 = Suc (nextPtr t)"
    using ts'(3,5,6) by (simp_all add: same_data_def)
  have "pending (it(l := [])) = pending it - set (it l)"
    using wheel_rep_disjoint[OF rep _ l] l by (fastforce simp: pending_def split: if_splits)
  then have pd: "pending it' = (pending it - set (it l)) \<union> {p \<in> set (it l). isSchedule (nodes t p)}"
    using t'(5) sd by simp
  have pl: "\<forall>s<512. \<forall>p\<in>set (it' s). p \<in> set (it s) \<and> s \<noteq> l \<or>
      p \<in> set (it l) \<and> placed (unat (jiffies t)) s (unat (expire (nodes t' p)))"
    using t'(4) sd(1) by (fastforce split: if_splits)
  from t'(3) show thesis
    by (intro that[OF t'(1,2) _ _ _ _ _ _ _ _ _ _ pl pd]) (simp_all add: exec_data_def sd)
qed

lemma same_data_timers: "same_data t t' \<Longrightarrow> pending it = pending it' \<Longrightarrow> timers_of t' it' = timers_of t it"
  by (simp add: timers_of_def timer_of_def same_data_def fun_eq_iff)

lemma wheel_rep_jiffies [simp]: "wheel_rep (t\<lparr>jiffies := j\<rparr>) it = wheel_rep t it"
  by (simp add: wheel_rep_def node_ok_def)

lemma timers_of_jiffies [simp]: "timers_of (t\<lparr>jiffies := j\<rparr>) it = timers_of t it"
  by (simp add: timers_of_def fun_eq_iff)

text \<open>The state between the two phases of a tick.\<close>

lemma exec_phase:
  assumes rep: "wheel_rep t it" and pl: "slots_placed t it 4"
    and per: "\<forall>p\<in>pending it. period_ok (nodes t p)" and bound: "unat (jiffies t) + 2 ^ 42 < 2 ^ 64"
  obtains t' it' fs where
    "exec_slot (unat (jiffies t) mod 256) (t\<lparr>jiffies := jiffies t + 1\<rparr>) = (Ok (), t')"
    and "wheel_rep t' it'" and "slots_placed t' it' 0" and "\<forall>p\<in>pending it'. period_ok (nodes t' p)"
    and "timers_of t' it' = timers_tick (unat (jiffies t)) (timers_of t it)"
    and "submitted t' = submitted t @ fs" and "distinct fs" and "set fs = due (unat (jiffies t)) (timers_of t it)"
    and "jiffies t' = jiffies t + 1" and "curTimePoint t' = curTimePoint t" and "cancelled t' = cancelled t"
    and "\<forall>p. callback (nodes t' p) = callback (nodes t p)"
proof -
  let ?j = "unat (jiffies t)" and ?t = "t\<lparr>jiffies := jiffies t + 1\<rparr>"
  define l where "l = ?j mod 256"
  have "l < 256" by (simp add: l_def)
  then have l: "l < 512" by linarith
  have j1: "unat (jiffies t + 1) = Suc ?j" using bound by (subst unat_plus_if') simp
  have perl: "\<forall>p\<in>set (it l). period_ok (nodes ?t p)" using per l pendingI[of l _ it] by auto
  have due: "p \<in> pending it \<and> unat (expire (nodes t p)) = ?j" if "p \<in> set (it l)" for p
    using due_slot[OF pl] that l pendingI[of l p it] by (auto simp: l_def)
  have later: "?j < unat (expire (nodes t p))" if p: "p \<in> pending it" "p \<notin> set (it l)" for p
  proof -
    obtain s where s: "s < 512" "p \<in> set (it s)" using pendingE[OF p(1)] .
    with p(2) have "s \<noteq> ?j mod 256" by (auto simp: l_def)
    from placed_le[OF other_slot[OF pl s(1) this s(2)]] show ?thesis by simp
  qed
  have rep': "wheel_rep ?t it" using rep by simp
  have jj: "0 < unat (jiffies ?t)" "unat (jiffies ?t) + 2 ^ 41 < 2 ^ 64"
    using bound by (simp_all add: j1)
  obtain t' it' where x: "exec_slot l ?t = (Ok (), t')" "wheel_rep t' it'" "jiffies t' = jiffies ?t"
      "submitted t' = submitted ?t @ it l" "curTimePoint t' = curTimePoint ?t" "cancelled t' = cancelled ?t"
      "nextPtr ?t \<le> nextPtr t'" "\<forall>p. userExpire (nodes t' p) = userExpire (nodes ?t p)" "\<forall>p. callback (nodes t' p) = callback (nodes ?t p)"
      "\<forall>p. stopped (nodes t' p) = stopped (nodes ?t p)" "\<forall>p. isSchedule (nodes t' p) = isSchedule (nodes ?t p)"
      "\<forall>p. expire (nodes t' p) =
        (if p \<in> set (it l) then next_expire (jiffies ?t - 1) (nodes ?t p) else expire (nodes ?t p))"
      "\<forall>s<512. \<forall>p\<in>set (it' s). p \<in> set (it s) \<and> s \<noteq> l \<or>
        p \<in> set (it l) \<and> placed (unat (jiffies ?t)) s (unat (expire (nodes t' p)))"
      "pending it' = (pending it - set (it l)) \<union> {p \<in> set (it l). isSchedule (nodes ?t p)}"
    using exec_slot_ok[OF rep' l perl jj] .
  have ex: "unat (expire (nodes t' p)) = ?j + nat (ticks (userExpire (nodes t p)))"
    if "p \<in> set (it l)" "isSchedule (nodes t p)" for p
    using unat_next_expire[of "nodes t p" "jiffies t"] perl that bound by (simp add: x(12))
  have same: "timer_of (nodes t' p) = timer_of (nodes t p)" if "p \<notin> set (it l)" for p
    using that x(8,11,12) by (simp add: timer_of_def)
  have "slots_placed t' it' 0"
    unfolding slots_placed_0
  proof (intro allI impI ballI)
    fix s p assume s: "s < (512 :: nat)" and p: "p \<in> set (it' s)"
    from x(13)[rule_format, OF this] show "placed (unat (jiffies t')) s (unat (expire (nodes t' p)))"
    proof (elim disjE conjE)
      assume a: "p \<in> set (it s)" "s \<noteq> l"
      then have "p \<notin> set (it l)" using wheel_rep_disjoint[OF rep s l] by blast
      with other_slot[OF pl s _ a(1)] a(2) show ?thesis by (simp add: x(3,12) j1 l_def)
    qed (simp add: x(3))
  qed
  moreover have "\<forall>p\<in>pending it'. period_ok (nodes t' p)"
    using per perl x(8,11,14) by (auto simp: period_ok_def)
  moreover have "timers_of t' it' = timers_tick ?j (timers_of t it)"
    by (rule timers_tick_eqI[where F = "set (it l)"])
      (use due later same ex x(8,11,14) in \<open>auto simp: timer_of_def\<close>)
  moreover have "set (it l) = due ?j (timers_of t it)" using due_iff[OF due later] by simp
  moreover have "distinct (it l)" using rep l by (simp add: wheel_rep_def dlist_def ring_def)
  ultimately show thesis
    using x by (intro that[of t' it' "it l"]) (simp_all add: l_def)
qed

lemma moveAndExec_timers:
  assumes "wheel_timers t m" and bound: "unat (jiffies t) + 2 ^ 42 < 2 ^ 64"
  obtains t' fs where "moveAndExec t = (Ok (), t')" and "wheel_timers t' (timers_tick (unat (jiffies t)) m)"
    and "jiffies t' = jiffies t + 1" and "submitted t' = submitted t @ fs" and "distinct fs"
    and "set fs = due (unat (jiffies t)) m" and "curTimePoint t' = curTimePoint t"
    and "cancelled t' = cancelled t" and "\<forall>p. callback (nodes t' p) = callback (nodes t p)"
proof -
  from assms(1) obtain items where it: "wheel_rep t items" "slots_placed t items 0"
      "\<forall>p\<in>pending items. period_ok (nodes t p)" "m = timers_of t items"
    by (auto simp: wheel_timers_def)
  have b: "unat (jiffies t) + gran 4 < 2 ^ 64" using bound by (simp add: gran_4)
  from cascade_phase[OF it(1) b it(2)] obtain t1 it1 where
    c: "(if jiffies t AND nearMask = 0 then cascade_loop 0 t else (Ok (), t)) = (Ok (), t1)"
      "wheel_rep t1 it1" "same_data t t1" "pending it1 = pending items" "slots_placed t1 it1 4" by blast
  have sd: "jiffies t1 = jiffies t" "submitted t1 = submitted t" "curTimePoint t1 = curTimePoint t"
      "cancelled t1 = cancelled t" "\<forall>p. callback (nodes t1 p) = callback (nodes t p)"
      "timers_of t1 it1 = m"
    using c(3) same_data_timers[OF c(3) c(4)[symmetric]] it(4) by (simp_all add: same_data_def)
  have per: "\<forall>p\<in>pending it1. period_ok (nodes t1 p)"
    using it(3) c(3,4) by (simp add: period_ok_def same_data_def)
  have b1: "unat (jiffies t1) + 2 ^ 42 < 2 ^ 64" using bound sd by simp
  obtain t' it' fs where x: "exec_slot (unat (jiffies t1) mod 256) (t1\<lparr>jiffies := jiffies t1 + 1\<rparr>) = (Ok (), t')"
      "wheel_rep t' it'" "slots_placed t' it' 0" "\<forall>p\<in>pending it'. period_ok (nodes t' p)"
      "timers_of t' it' = timers_tick (unat (jiffies t1)) (timers_of t1 it1)"
      "submitted t' = submitted t1 @ fs" "distinct fs" "set fs = due (unat (jiffies t1)) (timers_of t1 it1)"
      "jiffies t' = jiffies t1 + 1" "curTimePoint t' = curTimePoint t1" "cancelled t' = cancelled t1"
      "\<forall>p. callback (nodes t' p) = callback (nodes t1 p)"
    using exec_phase[OF c(2,5) per b1] .
  have "moveAndExec t = (Ok (), t')" using x(1) sd(1) by (simp add: moveAndExec_phases c(1))
  moreover have "wheel_timers t' (timers_tick (unat (jiffies t)) m)"
    using x(2-5) sd unfolding wheel_timers_def by auto
  ultimately show thesis using x sd by (intro that[of t' fs]) simp_all
qed

section \<open>Many ticks\<close>

text \<open>The timers after \<open>n\<close> ticks from tick \<open>j\<close> on, and how often a timer fires in them.\<close>

primrec timers_run :: "nat \<Rightarrow> nat \<Rightarrow> timers \<Rightarrow> timers" where
  "timers_run 0 j m = m"
| "timers_run (Suc n) j m = timers_run n (Suc j) (timers_tick j m)"

primrec fires :: "nat \<Rightarrow> nat \<Rightarrow> timers \<Rightarrow> ptr \<Rightarrow> nat" where
  "fires 0 j m p = 0"
| "fires (Suc n) j m p = of_bool (p \<in> due j m) + fires n (Suc j) (timers_tick j m) p"

lemma fires_cong: "m p = m' p \<Longrightarrow> fires n j m p = fires n j m' p"
proof (induction n arbitrary: j m m')
  case (Suc n)
  have "timers_tick j m p = timers_tick j m' p" using Suc.prems by (simp add: timers_tick_def)
  with Suc.IH[of "timers_tick j m" "timers_tick j m'" "Suc j"] Suc.prems show ?case by (simp add: due_def)
qed simp

lemma timers_run_cong: "m p = m' p \<Longrightarrow> timers_run n j m p = timers_run n j m' p"
proof (induction n arbitrary: j m m')
  case (Suc n)
  show ?case unfolding timers_run.simps by (rule Suc.IH) (simp add: timers_tick_def Suc.prems)
qed simp

lemma fires_None: "m p = None \<Longrightarrow> fires n j m p = 0"
  by (induction n arbitrary: j m) (simp_all add: due_def timers_tick_def)

lemma fires_later:
  assumes "m p = Some (e, q)" and "j + n \<le> e"
  shows "fires n j m p = 0" and "timers_run n j m p = m p"
  using assms by (induction n arbitrary: j m) (auto simp: due_def timers_tick_def rearm_def)

lemma fires_add: "fires (k + n) j m p = fires k j m p + fires n (j + k) (timers_run k j m) p"
  by (induction k arbitrary: j m) simp_all

lemma fires_add_Suc:
  "fires (k + Suc r) j m p = fires k j m p +
     (of_bool (p \<in> due (j + k) (timers_run k j m)) + fires r (Suc (j + k)) (timers_tick (j + k) (timers_run k j m)) p)"
  by (simp only: fires_add fires.simps)

text \<open>A one-shot timer fires once, at the tick it is due.\<close>

lemma fires_once:
  assumes "m p = Some (e, None)" and "j \<le> e"
  shows "fires n j m p = (if e < j + n then 1 else 0)"
proof (cases "e < j + n")
  case True
  define k r where "k = e - j" and "r = n - Suc k"
  have n: "n = k + Suc r" "j + k = e" using True assms(2) by (auto simp: k_def r_def)
  have late: "fires k j m p = 0" "timers_run k j m p = m p"
    using fires_later[of m p e None j k] assms n(2) by auto
  have "timers_tick e (timers_run k j m) p = None"
    using late(2) assms(1) by (simp add: timers_tick_def rearm_def)
  then show ?thesis
    using True assms(1) late unfolding n(1) fires_add_Suc n(2) by (simp add: fires_None due_def)
qed (use fires_later[of m p e None j n] assms in simp)

text \<open>A periodic timer fires at \<open>e\<close>, \<open>e + q\<close>, \<open>e + 2 q\<close> and so on.\<close>

lemma fires_periodic:
  assumes "m p = Some (e, Some q)" and "j \<le> e" and "0 < q"
  shows "fires n j m p = (if e < j + n then (j + n - 1 - e) div q + 1 else 0)"
  using assms(1,2)
proof (induction n arbitrary: j m e rule: less_induct)
  case (less n)
  show ?case
  proof (cases "e < j + n")
    case True
    define k r where "k = e - j" and "r = n - Suc k"
    have n: "n = k + Suc r" "j + k = e" using True less.prems(2) by (auto simp: k_def r_def)
    have late: "fires k j m p = 0" "timers_run k j m p = m p"
      using fires_later[of m p e "Some q" j k] less.prems n(2) by auto
    let ?m = "timers_tick e (timers_run k j m)"
    have m: "?m p = Some (e + q, Some q)"
      using late(2) less.prems(1) by (simp add: timers_tick_def rearm_def)
    have IH: "fires r (Suc e) ?m p = (if e + q < Suc e + r then (Suc e + r - 1 - (e + q)) div q + 1 else 0)"
      using less.IH[of r ?m "e + q" "Suc e"] m assms(3) n(1) by simp
    have "fires n j m p = 1 + fires r (Suc e) ?m p"
      using late less.prems(1) unfolding n(1) fires_add_Suc n(2) by (simp add: due_def)
    also have "\<dots> = (j + n - 1 - e) div q + 1"
    proof (cases "q \<le> r")
      case True
      then have "e + q < Suc e + r" "Suc e + r - 1 - (e + q) = r - q" by simp_all
      moreover have "r div q = (r - q) div q + 1" using True assms(3) by (simp add: div_if)
      moreover have "j + n - 1 - e = r" using n by simp
      ultimately show ?thesis using IH by simp
    next
      case False
      then have "\<not> e + q < Suc e + r" "r div q = 0" "j + n - 1 - e = r" using n by simp_all
      then show ?thesis using IH by simp
    qed
    finally show ?thesis using True by simp
  qed (use fires_later[of m p e "Some q" j n] less.prems in simp)
qed

lemma count_list_distinct: "distinct xs \<Longrightarrow> count_list xs p = of_bool (p \<in> set xs)"
  by (induction xs) auto

text \<open>
  The interface to a timer service that is driven by ticks: \<open>rel\<close> relates its state to the
  timers it stands for, \<open>fired\<close> lists the timers it has fired so far, up to tick \<open>horizon\<close>.
\<close>

locale timer_service =
  fixes rel :: "'s \<Rightarrow> timers \<Rightarrow> bool" and now :: "'s \<Rightarrow> nat" and horizon :: nat
    and tick :: "'s \<Rightarrow> unit outcome \<times> 's" and run :: "nat \<Rightarrow> 's \<Rightarrow> unit outcome \<times> 's"
    and fired :: "'s \<Rightarrow> ptr list"
  assumes tick_law: "rel s m \<Longrightarrow> now s < horizon \<Longrightarrow>
      \<exists>s' fs. tick s = (Ok (), s') \<and> rel s' (timers_tick (now s) m) \<and> now s' = Suc (now s) \<and>
        fired s' = fired s @ fs \<and> distinct fs \<and> set fs = due (now s) m"
    and run_0: "run 0 s = (Ok (), s)"
    and run_Suc: "run (Suc n) s = and_then (tick s) (\<lambda>_. run n)"
begin

text \<open>A run of \<open>n\<close> ticks ends normally and fires every timer as often as it should.\<close>

lemma run_timers:
  assumes "rel s m" and "now s + n \<le> horizon"
  shows "\<exists>s' fs. run n s = (Ok (), s') \<and> rel s' (timers_run n (now s) m) \<and> now s' = now s + n \<and>
    fired s' = fired s @ fs \<and> (\<forall>p. count_list fs p = fires n (now s) m p)"
  using assms
proof (induction n arbitrary: s m)
  case (Suc n)
  have "now s < horizon" using Suc.prems(2) by simp
  from tick_law[OF Suc.prems(1) this] obtain s1 fs where
    t: "tick s = (Ok (), s1)" "rel s1 (timers_tick (now s) m)" "now s1 = Suc (now s)"
      "fired s1 = fired s @ fs" "distinct fs" "set fs = due (now s) m" by blast
  have b: "now s1 + n \<le> horizon" using Suc.prems(2) t(3) by simp
  from Suc.IH[OF t(2) b] obtain s' gs where
    r: "run n s1 = (Ok (), s')" "rel s' (timers_run n (now s1) (timers_tick (now s) m))" "now s' = now s1 + n"
      "fired s' = fired s1 @ gs" "\<And>p. count_list gs p = fires n (now s1) (timers_tick (now s) m) p" by blast
  show ?case
    by (rule exI[of _ s'], rule exI[of _ "fs @ gs"])
      (use t r in \<open>simp add: run_Suc count_list_append count_list_distinct\<close>)
qed (simp add: run_0)

end

interpretation wheel: timer_service "\<lambda>t m. wheel_timers t m \<and> curTimePoint t = c" "\<lambda>t. unat (jiffies t)"
    "2 ^ 64 - 2 ^ 42" moveAndExec moveAndExec_times submitted for c
proof
  fix t m assume a: "wheel_timers t m \<and> curTimePoint t = c" and b: "unat (jiffies t) < 2 ^ 64 - 2 ^ 42"
  have bound: "unat (jiffies t) + 2 ^ 42 < 2 ^ 64" using b by simp
  obtain t' fs where x: "moveAndExec t = (Ok (), t')" "wheel_timers t' (timers_tick (unat (jiffies t)) m)"
      "jiffies t' = jiffies t + 1" "submitted t' = submitted t @ fs" "distinct fs"
      "set fs = due (unat (jiffies t)) m" "curTimePoint t' = curTimePoint t"
    by (rule moveAndExec_timers[OF conjunct1[OF a] bound]) blast
  have "unat (jiffies t') = Suc (unat (jiffies t))"
    unfolding x(3) using bound by (subst unat_plus_if') simp
  with x a show "\<exists>t' fs. moveAndExec t = (Ok (), t') \<and>
      (wheel_timers t' (timers_tick (unat (jiffies t)) m) \<and> curTimePoint t' = c) \<and>
      unat (jiffies t') = Suc (unat (jiffies t)) \<and> submitted t' = submitted t @ fs \<and> distinct fs \<and>
      set fs = due (unat (jiffies t)) m" by blast
qed simp_all

end
