(* ===== verification/WheelProps.thy ===== *)
theory WheelProps
  imports WheelRun
begin

text \<open>
  The operations of the time wheel as operations on its set of timers, and the properties of the
  timers its users see.
\<close>

section \<open>The empty wheel\<close>

definition empty_head :: "ptr \<Rightarrow> timeWheel \<Rightarrow> bool" where
  "empty_head s t \<longleftrightarrow> heads t s = \<lparr>Next = s, Prev = s, hlen = 0\<rparr>"

lemma empty_head_new [simp]: "empty_head s (newTimeHead p l i t) \<longleftrightarrow> s = p \<or> empty_head s t"
  by (auto simp: empty_head_def newTimeHead_def Head_Init_def)

lemma empty_head_fold:
  "empty_head s (fold (\<lambda>i. newTimeHead (f i) (a i) (b i)) xs t) \<longleftrightarrow> s \<in> f ` set xs \<or> empty_head s t"
  by (induction xs arbitrary: t) auto

lemma empty_head_fold2:
  "empty_head s (fold (\<lambda>i. fold (\<lambda>j. newTimeHead (f i j) (a i) (b j)) ys) xs t) \<longleftrightarrow>
     (\<exists>i\<in>set xs. s \<in> f i ` set ys) \<or> empty_head s t"
  by (induction xs arbitrary: t) (auto simp: empty_head_fold)

lemma newTimeHead_data [simp]:
  "nextPtr (newTimeHead p l i t) = nextPtr t" "jiffies (newTimeHead p l i t) = jiffies t"
  "submitted (newTimeHead p l i t) = submitted t" "curTimePoint (newTimeHead p l i t) = curTimePoint t"
  "cancelled (newTimeHead p l i t) = cancelled t"
  by (simp_all add: newTimeHead_def)

lemma fold_keeps: "(\<And>x t. g (f x t) = g t) \<Longrightarrow> g (fold f xs t) = g t"
  by (induction xs arbitrary: t) simp_all

lemma newTimeWheel_data:
  "nextPtr (newTimeWheel now) = 512" "jiffies (newTimeWheel now) = 0" "submitted (newTimeWheel now) = []"
  "curTimePoint (newTimeWheel now) = now" "cancelled (newTimeWheel now) = False"
  unfolding newTimeWheel_def timeWheel_init_def Let_def
  by (simp_all add: fold_keeps[where g = nextPtr] fold_keeps[where g = jiffies] fold_keeps[where g = submitted]
      fold_keeps[where g = cancelled] wheel_consts)

lemma newTimeWheel_slots: "s < 512 \<Longrightarrow> empty_head s (newTimeWheel now)"
proof -
  assume s: "s < 512"
  have "empty_head s (t\<lparr>curTimePoint := c\<rparr>) = empty_head s t" for t c by (simp add: empty_head_def)
  moreover have "s \<in> t1_head ` {0..<nearSize} \<or> (\<exists>i\<in>{0..<4}. s \<in> t2Tot5 i ` {0..<levelSize})"
  proof (cases "s < 256")
    case False
    then have "s = t2Tot5 ((s - 256) div 64) ((s - 256) mod 64)" by (intro slot_of_level) simp
    moreover have "(s - 256) div 64 < 4" using s by auto
    moreover have "(s - 256) mod 64 < levelSize" by (simp add: levelSize_def)
    ultimately have "\<exists>i\<in>{0..<4}. s \<in> t2Tot5 i ` {0..<levelSize}"
      by (intro bexI[of _ "(s - 256) div 64"] image_eqI[of _ _ "(s - 256) mod 64"]) simp_all
    then show ?thesis ..
  qed (simp add: t1_head_def nearSize_def)
  ultimately show ?thesis
    unfolding newTimeWheel_def timeWheel_init_def Let_def by (simp only: empty_head_fold empty_head_fold2 set_upt) blast
qed

lemma newTimeWheel_timers: "wheel_timers (newTimeWheel now) (\<lambda>_. None)"
proof -
  have "dlist (heads (newTimeWheel now)) s []" if "s < 512" for s
    using newTimeWheel_slots[OF that, of now] by (simp add: empty_head_def dlist_def ring_def)
  then show ?thesis
    unfolding wheel_timers_def
    by (intro exI[of _ "\<lambda>_. []"])
      (simp add: wheel_rep_def slots_placed_def pending_def timers_of_def fun_eq_iff newTimeWheel_data)
qed

section \<open>Starting a timer\<close>

lemma wheel_rep_newNode:
  assumes "wheel_rep t items"
  shows "wheel_rep (snd (newNode n t)) items"
proof -
  have "nodes (snd (newNode n t)) p = nodes t p" "p < nextPtr t" if "p \<in> pending items" for p
    using that assms by (auto simp: newNode_def pending_def wheel_rep_def node_ok_def)
  then show ?thesis
    using assms by (fastforce simp: wheel_rep_def node_ok_def newNode_def)
qed

lemma timeWheel_add_new:
  assumes "wheel_timers t m" and "unat (jiffies t) + 2 ^ 42 < 2 ^ 64"
    and n: "\<not> stopped n" "period_ok n" "unat (jiffies t) \<le> unat (expire n)"
  obtains t' where "timeWheel_add (nextPtr t) (jiffies t) (snd (newNode n t)) = (Ok (), t')"
    and "wheel_timers t' (m(nextPtr t \<mapsto> timer_of n))" and "m (nextPtr t) = None"
    and "same_data (snd (newNode n t)) t'"
proof -
  let ?p = "nextPtr t" and ?t = "snd (newNode n t)"
  from assms(1) obtain items where it: "wheel_rep t items" "slots_placed t items 0"
      "\<forall>p\<in>pending items. period_ok (nodes t p)" "m = timers_of t items"
    by (auto simp: wheel_timers_def)
  have lt: "p < ?p" if "p \<in> pending items" for p
    using that it(1) by (auto simp: pending_def wheel_rep_def node_ok_def)
  then have fresh: "?p \<notin> pending items" by blast
  have nd: "nodes ?t ?p = n" "nextPtr ?t = Suc ?p" "jiffies ?t = jiffies t"
      "\<And>q. q \<in> pending items \<Longrightarrow> nodes ?t q = nodes t q"
    using lt by (auto simp: newNode_def)
  have p: "512 \<le> ?p" "?p < nextPtr ?t" "\<not> stopped (nodes ?t ?p)"
      "unat (jiffies t) \<le> unat (expire (nodes ?t ?p))"
    using it(1) n nd(1,2) by (simp_all add: wheel_rep_def)
  have b: "unat (jiffies t) + gran 4 < 2 ^ 64" using assms(2) by (simp add: gran_4)
  note rep = wheel_rep_newNode[OF it(1), of n]
  obtain s where s: "timeWheel_add ?p (jiffies t) ?t = (Ok (), lockPushBack s ?p ?t)" "s < 512"
      "placed_new (unat (jiffies t)) s (unat (expire (nodes ?t ?p)))"
    using timeWheel_add_ok[OF rep p(1,2) fresh p(3,4) b] .
  let ?t' = "lockPushBack s ?p ?t" and ?it = "items(s := items s @ [?p])"
  note push = lockPushBack_rep[OF rep s(2) p(1,2) fresh p(3)]
  have sd: "jiffies ?t' = jiffies t" "expire (nodes ?t' q) = expire (nodes ?t q)"
      "timer_of (nodes ?t' q) = timer_of (nodes ?t q)" "period_ok (nodes ?t' q) = period_ok (nodes ?t q)" for q
    using push(2) nd(3) by (auto simp: same_data_def timer_of_def period_ok_def)
  have "slots_placed ?t' ?it 0"
    unfolding slots_placed_0
  proof (intro allI impI ballI)
    fix k q assume k: "k < (512 :: nat)" and q: "q \<in> set (?it k)"
    show "placed (unat (jiffies ?t')) k (unat (expire (nodes ?t' q)))"
    proof (cases "q \<in> set (items k)")
      case True
      then have "nodes ?t q = nodes t q" using nd(4) k pendingI[of k q items] by blast
      with True it(2) k show ?thesis by (simp add: sd slots_placed_0)
    next
      case False
      with q have "q = ?p" "k = s" by (auto split: if_splits)
      with s(3) show ?thesis by (simp add: sd placed_new_def)
    qed
  qed
  moreover have "\<forall>q\<in>pending ?it. period_ok (nodes ?t' q)"
    using it(3) s(2) nd n(2) by (auto simp: sd)
  moreover have "timers_of ?t' ?it = m(?p \<mapsto> timer_of n)"
  proof
    fix q
    show "timers_of ?t' ?it q = (m(?p \<mapsto> timer_of n)) q"
      using s(2) nd fresh by (cases "q = ?p") (simp_all add: timers_of_def sd it(4))
  qed
  ultimately have "wheel_timers ?t' (m(?p \<mapsto> timer_of n))"
    using push(1) unfolding wheel_timers_def by metis
  then show thesis
    using that[OF s(1)] push(2) fresh by (simp add: it(4) timers_of_def)
qed

lemma unat_getExpire:
  assumes "0 \<le> d" and "d < 2 ^ 63" and "unat jif + 2 ^ 42 < 2 ^ 64"
  shows "ticks d = d div 10000000" and "ticks d < 2 ^ 40"
    and "unat (getExpire d jif) = unat jif + nat (d div 10000000)"
proof -
  show t: "ticks d = d div 10000000" using assms(1) by (simp add: ticks_def)
  show b: "ticks d < 2 ^ 40" unfolding t using assms(1,2) by auto
  define k where "k = nat (d div 10000000)"
  have k: "k < 2 ^ 40" "of_int (ticks d) = (of_nat k :: uint64)"
    using b assms(1) by (simp_all add: t k_def)
  have "unat (of_nat k :: uint64) = k" using k(1) by (simp add: unat_of_nat)
  then have "unat (of_nat k + jif) = k + unat jif"
    using assms(3) k(1) by (subst unat_plus_if') simp
  then show "unat (getExpire d jif) = unat jif + nat (d div 10000000)"
    by (simp add: getExpire_def k(2) k_def[symmetric])
qed

lemma AfterFunc_ok:
  assumes "wheel_timers t m" and b: "unat (jiffies t) + 2 ^ 42 < 2 ^ 64" and d: "0 \<le> d" "d < 2 ^ 63"
  obtains t' where "AfterFunc d cb t = (Ok (nextPtr t), t')"
    and "wheel_timers t' (m(nextPtr t \<mapsto> (unat (jiffies t) + nat (d div 10000000), None)))"
    and "m (nextPtr t) = None" and "callback (nodes t' (nextPtr t)) = cb"
    and "jiffies t' = jiffies t" and "submitted t' = submitted t"
proof -
  let ?n = "\<lparr>expire = getExpire d (jiffies t), userExpire = 0, callback = cb, stopped = False,
      node_list = None, node_version = 0, isSchedule = False\<rparr>"
  have n: "\<not> stopped ?n" "period_ok ?n" "unat (jiffies t) \<le> unat (expire ?n)"
      "timer_of ?n = (unat (jiffies t) + nat (d div 10000000), None)"
    using unat_getExpire[OF d b] by (simp_all add: period_ok_def timer_of_def)
  obtain t' where t': "timeWheel_add (nextPtr t) (jiffies t) (snd (newNode ?n t)) = (Ok (), t')"
      "wheel_timers t' (m(nextPtr t \<mapsto> timer_of ?n))" "m (nextPtr t) = None"
      "same_data (snd (newNode ?n t)) t'"
    using timeWheel_add_new[OF assms(1) b n(1-3)] .
  have "AfterFunc d cb t = (Ok (nextPtr t), t')"
    using t'(1) by (simp add: AfterFunc_def newNode_def)
  then show thesis
    by (rule that) (use t' n(4) in \<open>simp_all add: same_data_def newNode_def\<close>)
qed

lemma ScheduleFunc_ok:
  assumes "wheel_timers t m" and b: "unat (jiffies t) + 2 ^ 42 < 2 ^ 64" and d: "10000000 \<le> d" "d < 2 ^ 63"
  obtains t' where "ScheduleFunc d cb t = (Ok (nextPtr t), t')"
    and "wheel_timers t' (m(nextPtr t \<mapsto> (unat (jiffies t) + nat (d div 10000000), Some (nat (d div 10000000)))))"
    and "m (nextPtr t) = None" and "callback (nodes t' (nextPtr t)) = cb"
    and "jiffies t' = jiffies t" and "submitted t' = submitted t"
proof -
  let ?n = "\<lparr>expire = getExpire d (jiffies t), userExpire = d, callback = cb, stopped = False,
      node_list = None, node_version = 0, isSchedule = True\<rparr>"
  have d0: "0 \<le> d" "1 \<le> d div 10000000" using d(1) by auto
  have n: "\<not> stopped ?n" "period_ok ?n" "unat (jiffies t) \<le> unat (expire ?n)"
      "timer_of ?n = (unat (jiffies t) + nat (d div 10000000), Some (nat (d div 10000000)))"
    using unat_getExpire[OF d0(1) d(2) b] d0(2) by (simp_all add: period_ok_def timer_of_def)
  obtain t' where t': "timeWheel_add (nextPtr t) (jiffies t) (snd (newNode ?n t)) = (Ok (), t')"
      "wheel_timers t' (m(nextPtr t \<mapsto> timer_of ?n))" "m (nextPtr t) = None"
      "same_data (snd (newNode ?n t)) t'"
    using timeWheel_add_new[OF assms(1) b n(1-3)] .
  have "ScheduleFunc d cb t = (Ok (nextPtr t), t')"
    using t'(1) by (simp add: ScheduleFunc_def newNode_def)
  then show thesis
    by (rule that) (use t' n(4) in \<open>simp_all add: same_data_def newNode_def\<close>)
qed

section \<open>Stopping a timer\<close>

text \<open>A timer that has not fired is taken out of the wheel.\<close>

lemma timeNode_Stop_ok:
  assumes "wheel_timers t m" and "m p \<noteq> None"
  obtains t' where "timeNode_Stop p t = (Ok (), t')" and "wheel_timers t' (m(p := None))"
    and "jiffies t' = jiffies t" and "submitted t' = submitted t" and "stopped (nodes t' p)"
proof -
  from assms(1) obtain items where it: "wheel_rep t items" "slots_placed t items 0"
      "\<forall>p\<in>pending items. period_ok (nodes t p)" "m = timers_of t items"
    by (auto simp: wheel_timers_def)
  have "p \<in> pending items" using assms(2) it(4) by (simp add: timers_of_def split: if_splits)
  then obtain s where s: "s < 512" "p \<in> set (items s)" by (rule pendingE)
  then obtain l r where lr: "items s = l @ p # r" by (meson split_list)
  have ok: "node_ok t s p" using wheel_rep_node[OF it(1) s] .
  have d: "dlist (heads t) s (l @ p # r)" using it(1) s(1) unfolding lr[symmetric] by (simp add: wheel_rep_def)
  then have dis: "p \<notin> set (l @ r)" by (auto simp: dlist_def ring_def)
  define t' where "t' = t\<lparr>nodes := (nodes t)(p := (nodes t p)\<lparr>stopped := True\<rparr>), heads := Head_Del s p (heads t)\<rparr>"
  let ?it = "items(s := l @ r)"
  have run: "timeNode_Stop p t = (Ok (), t')"
    using ok by (simp add: timeNode_Stop_def node_ok_def t'_def)
  have pnot: "p \<notin> set (items k)" if "k < 512" "k \<noteq> s" for k
    using wheel_rep_disjoint[OF it(1) that(1) s(1) that(2)] s(2) by blast
  have pend: "pending ?it = pending items - {p}"
  proof -
    have "set (?it k) = set (items k) - {p}" if "k < 512" for k
      using pnot[OF that] lr dis by (cases "k = s") auto
    then have "(\<Union>k\<in>{..<512}. set (?it k)) = (\<Union>k\<in>{..<512}. set (items k) - {p})"
      by (intro SUP_cong) simp_all
    then show ?thesis by (simp only: pending_def) blast
  qed
  have nd: "nodes t' q = nodes t q" if "q \<noteq> p" for q using that by (simp add: t'_def)
  have sub: "q \<in> set (items k)" "q \<noteq> p" if "k < 512" "q \<in> set (?it k)" for k q
    using that pnot lr dis by (auto split: if_splits)
  have rep: "wheel_rep t' ?it"
    unfolding wheel_rep_def
  proof (intro conjI allI impI ballI)
    show "512 \<le> nextPtr t'" using it(1) by (simp add: wheel_rep_def t'_def)
  next
    fix k assume k: "k < (512 :: nat)"
    have dk: "dlist (heads t) k (items k)" using it(1) k by (simp add: wheel_rep_def)
    show "dlist (heads t') k (?it k)"
    proof (cases "k = s")
      case True
      then show ?thesis using il.delete_law[OF d] by (simp add: t'_def)
    next
      case False
      have "set (k # items k) \<inter> set (s # l @ r) = {}"
        using False wheel_rep_disjoint[OF it(1) k s(1)] wheel_rep_slot_free[OF it(1) k s(1)]
          wheel_rep_slot_free[OF it(1) s(1) k] lr by auto
      then show ?thesis using il.delete_frame[OF d dk] False by (simp add: t'_def)
    qed
    fix q assume "q \<in> set (?it k)"
    from sub[OF k this] wheel_rep_node[OF it(1) k] show "node_ok t' k q"
      by (simp add: node_ok_def t'_def)
  qed
  have "slots_placed t' ?it 0"
    unfolding slots_placed_0
  proof (intro allI impI ballI)
    fix k q assume k: "k < (512 :: nat)" and q: "q \<in> set (?it k)"
    have "placed (unat (jiffies t)) k (unat (expire (nodes t q)))"
      using it(2) k sub(1)[OF k q] by (simp only: slots_placed_0)
    then show "placed (unat (jiffies t')) k (unat (expire (nodes t' q)))"
      using nd[OF sub(2)[OF k q]] by (simp add: t'_def)
  qed
  moreover have "\<forall>q\<in>pending ?it. period_ok (nodes t' q)"
    using it(3) by (simp add: pend nd)
  moreover have "timers_of t' ?it = m(p := None)"
    by (rule ext) (simp add: timers_of_def pend nd it(4))
  ultimately have "wheel_timers t' (m(p := None))"
    using rep unfolding wheel_timers_def by (intro exI[of _ ?it]) simp
  then show thesis by (rule that[OF run]) (simp_all add: t'_def)
qed

section \<open>Running\<close>

lemma wheel_timers_curTimePoint [simp]: "wheel_timers (t\<lparr>curTimePoint := c\<rparr>) m = wheel_timers t m"
proof -
  have "timers_of (t\<lparr>curTimePoint := c\<rparr>) it = timers_of t it" for it
    by (simp add: timers_of_def fun_eq_iff)
  then show ?thesis
    by (simp add: wheel_timers_def wheel_rep_def node_ok_def slots_placed_def)
qed

lemma timeWheel_run_timers:
  assumes "wheel_timers t m" and "curTimePoint t \<le> ms10"
    and "unat (jiffies t) + nat (ms10 - curTimePoint t) + 2 ^ 42 < 2 ^ 64"
  shows "\<exists>t' fs. timeWheel_run ms10 t = (Ok (), t') \<and> curTimePoint t' = ms10 \<and>
    wheel_timers t' (timers_run (nat (ms10 - curTimePoint t)) (unat (jiffies t)) m) \<and>
    unat (jiffies t') = unat (jiffies t) + nat (ms10 - curTimePoint t) \<and> submitted t' = submitted t @ fs \<and>
    (\<forall>p. count_list fs p = fires (nat (ms10 - curTimePoint t)) (unat (jiffies t)) m p)"
proof -
  let ?t = "t\<lparr>curTimePoint := ms10\<rparr>"
  have "wheel_timers ?t m \<and> curTimePoint ?t = ms10" using assms(1) by simp
  moreover have "unat (jiffies ?t) + nat (ms10 - curTimePoint t) \<le> 2 ^ 64 - 2 ^ 42" using assms(3) by simp
  ultimately show ?thesis
    using wheel.run_timers[of ?t m ms10 "nat (ms10 - curTimePoint t)"] assms(2)
    by (simp add: timeWheel_run_def) blast
qed

lemma timers_run_add: "timers_run (k + n) j m = timers_run n (j + k) (timers_run k j m)"
  by (induction k arbitrary: j m) simp_all

lemma timeWheel_Run_timers:
  assumes "wheel_timers t m" and "sorted (curTimePoint t # map get10Ms cs)"
    and "unat (jiffies t) + nat (last (curTimePoint t # map get10Ms cs) - curTimePoint t) + 2 ^ 42 < 2 ^ 64"
  shows "\<exists>t' fs. timeWheel_Run (map TickerC cs) t = (Ok (), t') \<and>
    wheel_timers t' (timers_run (nat (last (curTimePoint t # map get10Ms cs) - curTimePoint t)) (unat (jiffies t)) m) \<and>
    submitted t' = submitted t @ fs \<and>
    (\<forall>p. count_list fs p = fires (nat (last (curTimePoint t # map get10Ms cs) - curTimePoint t)) (unat (jiffies t)) m p)"
  using assms
proof (induction cs arbitrary: t m)
  case (Cons c cs)
  let ?x = "get10Ms c" and ?z = "last (get10Ms c # map get10Ms cs)" and ?j = "unat (jiffies t)"
  define k n where "k = nat (?x - curTimePoint t)" and "n = nat (?z - ?x)"
  have le: "curTimePoint t \<le> ?x" "?x \<le> ?z" "sorted (?x # map get10Ms cs)"
    using Cons.prems(2) by (auto simp: last_map)
  have kn: "nat (?z - curTimePoint t) = k + n" using le by (simp add: k_def n_def)
  have b: "?j + (k + n) + 2 ^ 42 < 2 ^ 64" using Cons.prems(3) kn by simp
  obtain t1 fs where t1: "timeWheel_run ?x t = (Ok (), t1)" "curTimePoint t1 = ?x"
      "wheel_timers t1 (timers_run k ?j m)" "unat (jiffies t1) = ?j + k" "submitted t1 = submitted t @ fs"
      "\<forall>p. count_list fs p = fires k ?j m p"
    using timeWheel_run_timers[OF Cons.prems(1) le(1)] b by (auto simp: k_def)
  from Cons.IH[OF t1(3)] le(3) b obtain t' gs where
    "timeWheel_Run (map TickerC cs) t1 = (Ok (), t')" "wheel_timers t' (timers_run n (?j + k) (timers_run k ?j m))"
      "submitted t' = submitted t1 @ gs" "\<forall>p. count_list gs p = fires n (?j + k) (timers_run k ?j m) p"
    unfolding t1(2,4) n_def by (auto simp: add.assoc)
  moreover have "last (curTimePoint t # map get10Ms (c # cs)) = ?z" by simp
  ultimately show ?case
    using t1 unfolding kn timers_run_add fires_add
    by (intro exI[of _ t'] exI[of _ "fs @ gs"]) (simp only: kn timers_run_add fires_add, simp)
qed simp

lemma max_level:
  "maxVal < (- 1 :: uint64)" "\<not> maxVal < of_nat nearSize" "\<not> (- 1 :: uint64) < of_nat nearSize"
  "\<not> maxVal < levelMax 1" "\<not> maxVal < levelMax 2" "\<not> maxVal < levelMax 3" "maxVal < levelMax 4"
  by (simp_all add: word_less_nat_alt unat_maxVal unat_levelMax gran_def nearSize_def unsigned_minus_1_eq_mask
      mask_eq_exp_minus_1)

lemma add_level_far:
  "add_level jif 0 (- 1) ex = add_level jif 0 maxVal (jif + maxVal)"
  "\<exists>k l. add_level jif 0 maxVal (jif + maxVal) = Some (t2Tot5 3 k, l) \<and> k < 64"
proof -
  show "add_level jif 0 (- 1) ex = add_level jif 0 maxVal (jif + maxVal)"
    by (subst (1 2) add_level.simps) (simp add: Let_def max_level add.commute)
  let ?w = "drop_bit (nearShift + 3 * levelShift) (jif + maxVal) AND levelMask"
  have step: "add_level jif i maxVal ex = add_level jif (i + 1) maxVal ex"
    if "i \<le> 3" "\<not> maxVal < levelMax (i + 1)" for i ex
    using that by (subst add_level.simps) (simp add: Let_def)
  have "add_level jif 0 maxVal (jif + maxVal) = add_level jif 3 maxVal (jif + maxVal)"
    using step[of 0] step[of 1] step[of 2] max_level by (simp add: numeral_eq_Suc)
  also have "\<dots> = Some (t2Tot5 3 (unat ?w), 5, ?w)"
    using max_level(7) by (subst add_level.simps) (simp add: Let_def)
  moreover have "unat ?w < 64" by (simp add: unat_and_63)
  ultimately show "\<exists>k l. add_level jif 0 maxVal (jif + maxVal) = Some (t2Tot5 3 k, l) \<and> k < 64" by auto
qed

lemma dlist_pair:
  "dlist H s [p, q] \<longleftrightarrow> distinct [s, p, q] \<and> hlen (H s) = 2 \<and> Next (H s) = p \<and> Next (H p) = q \<and>
     Next (H q) = s \<and> Prev (H s) = q \<and> Prev (H q) = p \<and> Prev (H p) = s"
  by (auto simp: dlist_def ring_def)

section \<open>Properties\<close>

text \<open>
  C6: a tick of the wheel (\<open>moveAndExec\<close>: cascading the upper levels, then executing a slot) does to
  the pending timers exactly what the abstract timer set says: it never panics or hangs, submits
  every timer that is due at this tick exactly once and no other, drops the one-shot timers among
  them and moves the periodic ones by their period.
\<close>

theorem moveAndExec_refines_timers:
  assumes "wheel_timers t m" and "unat (jiffies t) + 2 ^ 42 < 2 ^ 64"
  shows "\<exists>t' fs. moveAndExec t = (Ok (), t') \<and> wheel_timers t' (timers_tick (unat (jiffies t)) m) \<and>
    jiffies t' = jiffies t + 1 \<and> submitted t' = submitted t @ fs \<and> distinct fs \<and>
    set fs = due (unat (jiffies t)) m"
  by (rule moveAndExec_timers[OF assms]) blast

theorem moveAndExec_refines_timers_witness:
  "\<exists>t' fs. moveAndExec (newTimeWheel 7) = (Ok (), t') \<and> wheel_timers t' (timers_tick 0 (\<lambda>_. None)) \<and>
    jiffies t' = 1 \<and> submitted t' = fs \<and> distinct fs \<and> set fs = due 0 (\<lambda>_. None)"
  using moveAndExec_refines_timers[OF newTimeWheel_timers[of 7]] by (simp add: newTimeWheel_data)

text \<open>
  C13: a callback that is given to \<open>AfterFunc\<close> is submitted exactly once, in the tick that is
  \<open>d\<close> (rounded down to 10 ms) after the current one, and starting it changes nothing for the other
  timers.
\<close>

theorem AfterFunc_fires_once:
  assumes "wheel_timers t m" and "0 \<le> d" and "d < 2 ^ 63" and "unat (jiffies t) + n + 2 ^ 42 < 2 ^ 64"
  shows "\<exists>p t' t'' fs. AfterFunc d cb t = (Ok p, t') \<and> callback (nodes t' p) = cb \<and>
    moveAndExec_times n t' = (Ok (), t'') \<and> submitted t'' = submitted t @ fs \<and>
    count_list fs p = (if nat (d div 10000000) < n then 1 else 0) \<and>
    (\<forall>q. q \<noteq> p \<longrightarrow> count_list fs q = fires n (unat (jiffies t)) m q)"
proof -
  have b: "unat (jiffies t) + 2 ^ 42 < 2 ^ 64" using assms(4) by simp
  let ?j = "unat (jiffies t)" and ?p = "nextPtr t"
  obtain t' where t': "AfterFunc d cb t = (Ok ?p, t')" "wheel_timers t' (m(?p \<mapsto> (?j + nat (d div 10000000), None)))"
      "m ?p = None" "callback (nodes t' ?p) = cb" "jiffies t' = jiffies t" "submitted t' = submitted t"
    using AfterFunc_ok[OF assms(1) b assms(2,3)] .
  have b': "unat (jiffies t') + n \<le> 2 ^ 64 - 2 ^ 42" using assms(4) t'(5) by simp
  from wheel.run_timers[OF conjI[OF t'(2) refl] b'] obtain t'' fs where
    r: "moveAndExec_times n t' = (Ok (), t'')" "submitted t'' = submitted t @ fs"
      "\<And>q. count_list fs q = fires n ?j (m(?p \<mapsto> (?j + nat (d div 10000000), None))) q"
    by (auto simp: t'(5,6))
  have "fires n ?j (m(?p \<mapsto> (?j + nat (d div 10000000), None))) q = fires n ?j m q" if "q \<noteq> ?p" for q
    using that by (intro fires_cong) simp
  with r t' fires_once[of "m(?p \<mapsto> (?j + nat (d div 10000000), None))" ?p "?j + nat (d div 10000000)" ?j n]
  show ?thesis by (intro exI[of _ ?p] exI[of _ t'] exI[of _ t''] exI[of _ fs]) simp
qed

theorem AfterFunc_fires_once_witness:
  "\<exists>p t' t'' fs. AfterFunc 25000000 8 (newTimeWheel 7) = (Ok p, t') \<and> callback (nodes t' p) = 8 \<and>
    moveAndExec_times 3 t' = (Ok (), t'') \<and> submitted t'' = fs \<and> count_list fs p = 1 \<and>
    (\<forall>q. q \<noteq> p \<longrightarrow> count_list fs q = fires 3 0 (\<lambda>_. None) q)"
  using AfterFunc_fires_once[OF newTimeWheel_timers[of 7], of 25000000 3 8] by (simp add: newTimeWheel_data)

text \<open>
  C31: a callback that is given to \<open>ScheduleFunc\<close> with a period of at least 10 ms is submitted once
  per period: \<open>(n - 1) div q\<close> times in \<open>n\<close> ticks when the period is \<open>q\<close> ticks. The drift the
  comment in \<open>moveAndExec\<close> warns of does not occur.
\<close>

theorem ScheduleFunc_fires_periodically:
  assumes "wheel_timers t m" and "10000000 \<le> d" and "d < 2 ^ 63" and "unat (jiffies t) + n + 2 ^ 42 < 2 ^ 64"
  shows "\<exists>p t' t'' fs. ScheduleFunc d cb t = (Ok p, t') \<and> callback (nodes t' p) = cb \<and>
    moveAndExec_times n t' = (Ok (), t'') \<and> submitted t'' = submitted t @ fs \<and>
    count_list fs p = (n - 1) div nat (d div 10000000) \<and>
    (\<forall>q. q \<noteq> p \<longrightarrow> count_list fs q = fires n (unat (jiffies t)) m q)"
proof -
  have b: "unat (jiffies t) + 2 ^ 42 < 2 ^ 64" using assms(4) by simp
  define k where "k = nat (d div 10000000)"
  have k: "0 < k" using assms(2) by (auto simp: k_def)
  let ?j = "unat (jiffies t)" and ?p = "nextPtr t" and ?m = "m(nextPtr t \<mapsto> (unat (jiffies t) + k, Some k))"
  obtain t' where t': "ScheduleFunc d cb t = (Ok ?p, t')" "wheel_timers t' ?m"
      "m ?p = None" "callback (nodes t' ?p) = cb" "jiffies t' = jiffies t" "submitted t' = submitted t"
    using ScheduleFunc_ok[OF assms(1) b assms(2,3)] unfolding k_def .
  have b': "unat (jiffies t') + n \<le> 2 ^ 64 - 2 ^ 42" using assms(4) t'(5) by simp
  from wheel.run_timers[OF conjI[OF t'(2) refl] b'] obtain t'' fs where
    r: "moveAndExec_times n t' = (Ok (), t'')" "submitted t'' = submitted t @ fs"
      "\<And>q. count_list fs q = fires n ?j ?m q"
    by (auto simp: t'(5,6))
  have "fires n ?j ?m ?p = (if k < n then (n - 1 - k) div k + 1 else 0)"
    using fires_periodic[of ?m ?p "?j + k" k ?j n] k by simp
  also have "\<dots> = (n - 1) div k"
  proof (cases "k < n")
    case True
    then have "n - 1 = (n - 1 - k) + 1 * k" using k by simp
    then have "(n - 1) div k = 1 + (n - 1 - k) div k" using k by (metis div_mult_self1 not_gr0)
    with True show ?thesis by simp
  qed (use k in simp)
  finally have "fires n ?j ?m ?p = (n - 1) div k" .
  moreover have "fires n ?j ?m q = fires n ?j m q" if "q \<noteq> ?p" for q
    using that by (intro fires_cong) simp
  ultimately show ?thesis
    using r t' by (intro exI[of _ ?p] exI[of _ t'] exI[of _ t''] exI[of _ fs]) (simp add: k_def)
qed

theorem ScheduleFunc_fires_periodically_witness:
  "\<exists>p t' t'' fs. ScheduleFunc 30000000 8 (newTimeWheel 7) = (Ok p, t') \<and> callback (nodes t' p) = 8 \<and>
    moveAndExec_times 1000 t' = (Ok (), t'') \<and> submitted t'' = fs \<and> count_list fs p = 333 \<and>
    (\<forall>q. q \<noteq> p \<longrightarrow> count_list fs q = fires 1000 0 (\<lambda>_. None) q)"
  using ScheduleFunc_fires_periodically[OF newTimeWheel_timers[of 7], of 30000000 1000 8]
  by (simp add: newTimeWheel_data)

text \<open>
  C32: stopping a pending timer takes it out of the wheel: it is not submitted in any number of
  later ticks, and no other timer is affected.
\<close>

theorem stopped_timer_never_fires:
  assumes "wheel_timers t m" and "m p \<noteq> None" and "unat (jiffies t) + n + 2 ^ 42 < 2 ^ 64"
  shows "\<exists>t' t'' fs. timeNode_Stop p t = (Ok (), t') \<and> wheel_timers t' (m(p := None)) \<and>
    moveAndExec_times n t' = (Ok (), t'') \<and> submitted t'' = submitted t @ fs \<and> p \<notin> set fs \<and>
    (\<forall>q. q \<noteq> p \<longrightarrow> count_list fs q = fires n (unat (jiffies t)) m q)"
proof -
  obtain t' where t': "timeNode_Stop p t = (Ok (), t')" "wheel_timers t' (m(p := None))"
      "jiffies t' = jiffies t" "submitted t' = submitted t" "stopped (nodes t' p)"
    using timeNode_Stop_ok[OF assms(1,2)] .
  have b': "unat (jiffies t') + n \<le> 2 ^ 64 - 2 ^ 42" using assms(3) t'(3) by simp
  from wheel.run_timers[OF conjI[OF t'(2) refl] b'] obtain t'' fs where
    r: "moveAndExec_times n t' = (Ok (), t'')" "submitted t'' = submitted t @ fs"
      "\<And>q. count_list fs q = fires n (unat (jiffies t)) (m(p := None)) q"
    by (auto simp: t'(3,4))
  have "count_list fs p = 0" using r(3) by (simp add: fires_None)
  then have "p \<notin> set fs" by (simp add: count_list_0_iff)
  moreover have "fires n (unat (jiffies t)) (m(p := None)) q = fires n (unat (jiffies t)) m q" if "q \<noteq> p" for q
    using that by (intro fires_cong) simp
  ultimately show ?thesis using r t' by (intro exI[of _ t'] exI[of _ t''] exI[of _ fs]) simp
qed

theorem stopped_timer_never_fires_witness:
  "\<exists>t p t' t'' fs. AfterFunc 25000000 8 (newTimeWheel 7) = (Ok p, t) \<and> timeNode_Stop p t = (Ok (), t') \<and>
    moveAndExec_times 300 t' = (Ok (), t'') \<and> submitted t'' = fs \<and> p \<notin> set fs"
proof -
  obtain t where t: "AfterFunc 25000000 8 (newTimeWheel 7) = (Ok 512, t)"
      "wheel_timers t ((\<lambda>_. None)(512 \<mapsto> (Suc (Suc 0), None)))" "jiffies t = 0" "submitted t = []"
    by (rule AfterFunc_ok[OF newTimeWheel_timers[of 7], of 25000000 8]) (simp_all add: newTimeWheel_data)
  from stopped_timer_never_fires[OF t(2), of 512 300] t show ?thesis by fastforce
qed

text \<open>
  C33: the wheel catches up. However the readings of the clock are spread (as long as the clock is
  not set back), the loop of \<open>Run\<close> executes as many ticks as 10 ms periods have passed since the
  wheel was last up to date, so no timer is skipped when the ticker is late.
\<close>

theorem Run_catches_up:
  assumes "wheel_timers t m" and "sorted (curTimePoint t # map get10Ms cs)"
    and "unat (jiffies t) + nat (last (curTimePoint t # map get10Ms cs) - curTimePoint t) + 2 ^ 42 < 2 ^ 64"
  shows "\<exists>t' fs. timeWheel_Run (map TickerC cs) t = (Ok (), t') \<and>
    wheel_timers t' (timers_run (nat (last (curTimePoint t # map get10Ms cs) - curTimePoint t)) (unat (jiffies t)) m) \<and>
    submitted t' = submitted t @ fs \<and>
    (\<forall>p. count_list fs p = fires (nat (last (curTimePoint t # map get10Ms cs) - curTimePoint t)) (unat (jiffies t)) m p)"
  by (rule timeWheel_Run_timers[OF assms])

theorem Run_catches_up_witness:
  "\<exists>t' fs. timeWheel_Run [TickerC 80000000, TickerC 89999999, TickerC 10000000000] (newTimeWheel 7) = (Ok (), t') \<and>
    wheel_timers t' (timers_run 993 0 (\<lambda>_. None)) \<and> submitted t' = fs \<and>
    (\<forall>p. count_list fs p = fires 993 0 (\<lambda>_. None) p)"
  using Run_catches_up[OF newTimeWheel_timers[of 7], of "[80000000, 89999999, 10000000000]"]
  by (simp add: newTimeWheel_data get10Ms_def go_div_def)

text \<open>
  A periodic timer with a period below 10 ms runs once and then stalls: after its first run it
  is put where a timer goes that is due \<open>2 ^ 32 - 1\<close> ticks (more than a year) later, on the top level.
\<close>

theorem short_period_stalls:
  assumes "0 \<le> d" and "d < 10000000"
  shows "add_slot (getExpire d (jif - 1)) jif = add_slot (jif + maxVal) jif \<and>
    (\<exists>k l. add_slot (getExpire d (jif - 1)) jif = Some (t2Tot5 3 k, l) \<and> k < 64)"
proof -
  have "getExpire d (jif - 1) = jif - 1" using assms by (simp add: getExpire_def ticks_def)
  then have a: "add_slot (getExpire d (jif - 1)) jif = add_level jif 0 maxVal (jif + maxVal)"
    using add_level_far(1)[of jif "jif - 1"] by (simp add: add_slot_def Let_def max_level)
  moreover have "add_slot (jif + maxVal) jif = add_level jif 0 maxVal (jif + maxVal)"
    by (simp add: add_slot_def Let_def max_level)
  ultimately show ?thesis using add_level_far(2)[of jif] by simp
qed

theorem short_period_stalls_witness:
  "add_slot (getExpire 5000000 (10 - 1)) 10 = add_slot (10 + maxVal) 10 \<and>
    (\<exists>k l. add_slot (getExpire 5000000 (10 - 1)) 10 = Some (t2Tot5 3 k, l) \<and> k < 64)"
  by (rule short_period_stalls) simp_all

text \<open>
  C34: \<open>Stop\<close> is not idempotent. When two timers share a slot and one of them is stopped twice, the
  length of the slot's list drops to 0 while the other timer is still linked: the tick that is due
  skips the slot, and that timer is not run.
\<close>

theorem second_Stop_loses_timer:
  assumes "dlist (heads t) s [p, q]" and "node_list (nodes t p) = Some s"
    and "node_version (nodes t p) = versions t s" and "s = unat (jiffies t AND nearMask)" and "s \<noteq> 0"
  shows "\<exists>t' t''. timeNode_Stop p t = (Ok (), t') \<and> timeNode_Stop p t' = (Ok (), t'') \<and>
    ring (heads t'') s [q] \<and> moveAndExec t'' = (Ok (), t''\<lparr>jiffies := jiffies t + 1\<rparr>)"
proof -
  let ?H = "heads t"
  have d: "distinct [s, p, q]" "hlen (?H s) = 2" "Next (?H s) = p" "Next (?H p) = q" "Next (?H q) = s"
      "Prev (?H s) = q" "Prev (?H q) = p" "Prev (?H p) = s"
    using assms(1) by (simp_all add: dlist_pair)
  define t' where "t' = t\<lparr>nodes := (nodes t)(p := (nodes t p)\<lparr>stopped := True\<rparr>), heads := Head_Del s p ?H\<rparr>"
  define t'' where "t'' = t'\<lparr>heads := Head_Del s p (heads t')\<rparr>"
  have h: "timeNode_Stop p t = (Ok (), t')" "timeNode_Stop p t' = (Ok (), t'')"
    using assms(2,3) by (simp_all add: timeNode_Stop_def t'_def t''_def)
  have e: "heads t'' s = \<lparr>Next = q, Prev = q, hlen = 0\<rparr>" "Next (heads t'' q) = s" "Prev (heads t'' q) = s"
    using d by (auto simp: t''_def t'_def Head_Del_def dl_del_def Let_def)
  have "jiffies t AND nearMask \<noteq> 0" using assms(4,5) by auto
  then have "moveAndExec t'' = (Ok (), t''\<lparr>jiffies := jiffies t + 1\<rparr>)"
    using e(1) assms(4) by (simp add: moveAndExec_def Let_def t1_head_def Head_Len_def)
      (simp add: t''_def t'_def)
  moreover have "ring (heads t'') s [q]" using e d(1) by (simp add: ring_def)
  ultimately show ?thesis using h by blast
qed

theorem second_Stop_loses_timer_witness:
  "\<exists>t t' t''. timeNode_Stop 1000 t = (Ok (), t') \<and> timeNode_Stop 1000 t' = (Ok (), t'') \<and>
    ring (heads t'') 5 [1001] \<and> moveAndExec t'' = (Ok (), t''\<lparr>jiffies := 6\<rparr>)"
proof -
  let ?H = "(\<lambda>_. \<lparr>Next = 0, Prev = 0, hlen = 0\<rparr>)(5 := \<lparr>Next = 1000, Prev = 1001, hlen = 2\<rparr>,
    1000 := \<lparr>Next = 1001, Prev = 5, hlen = 0\<rparr>, 1001 := \<lparr>Next = 5, Prev = 1000, hlen = 0\<rparr>)"
  let ?n = "\<lparr>expire = 5, userExpire = 0, callback = 0, stopped = False, node_list = Some 5,
    node_version = 0, isSchedule = False\<rparr>"
  let ?t = "\<lparr>jiffies = 5, curTimePoint = 0, heads = ?H, versions = (\<lambda>_. 0), nodes = (\<lambda>_. ?n),
    nextPtr = 1002, submitted = [], cancelled = False\<rparr>"
  have "dlist (heads ?t) 5 [1000, 1001]" by (simp add: dlist_pair)
  from second_Stop_loses_timer[OF this] show ?thesis by (fastforce simp: nearMask_def)
qed

end
