(* ===== verification/WheelRequests.thy ===== *)
theory WheelRequests
  imports WheelProps "HOL-Library.Multiset"
begin

text \<open>
  The time wheel as its users see it: a collection of requests, each a function that is to run at a
  certain time. The node of a request names it by its number in the log of all requests. A request
  is submitted in the first reading of the clock that finds its time, rounded to the ticks of the
  wheel, has passed.
\<close>

section \<open>Callbacks\<close>

text \<open>Running the wheel leaves the callbacks of all nodes alone.\<close>

interpretation wheel_cb: timer_service
    "\<lambda>t m. wheel_timers t m \<and> curTimePoint t = c \<and> (\<forall>p. callback (nodes t p) = f p)" "\<lambda>t. unat (jiffies t)"
    "2 ^ 64 - 2 ^ 42" moveAndExec moveAndExec_times submitted for c f
proof
  fix t m assume a: "wheel_timers t m \<and> curTimePoint t = c \<and> (\<forall>p. callback (nodes t p) = f p)"
    and b: "unat (jiffies t) < 2 ^ 64 - 2 ^ 42"
  have bound: "unat (jiffies t) + 2 ^ 42 < 2 ^ 64" using b by simp
  obtain t' fs where x: "moveAndExec t = (Ok (), t')" "wheel_timers t' (timers_tick (unat (jiffies t)) m)"
      "jiffies t' = jiffies t + 1" "submitted t' = submitted t @ fs" "distinct fs"
      "set fs = due (unat (jiffies t)) m" "curTimePoint t' = curTimePoint t" "\<forall>p. callback (nodes t' p) = callback (nodes t p)"
    by (rule moveAndExec_timers[OF conjunct1[OF a] bound]) blast
  have "unat (jiffies t') = Suc (unat (jiffies t))"
    unfolding x(3) using bound by (subst unat_plus_if') simp
  with x a show "\<exists>t' fs. moveAndExec t = (Ok (), t') \<and>
      (wheel_timers t' (timers_tick (unat (jiffies t)) m) \<and> curTimePoint t' = c \<and> (\<forall>p. callback (nodes t' p) = f p)) \<and>
      unat (jiffies t') = Suc (unat (jiffies t)) \<and> submitted t' = submitted t @ fs \<and> distinct fs \<and>
      set fs = due (unat (jiffies t)) m" by metis
qed simp_all

lemma timeWheel_run_callbacks:
  assumes "wheel_timers t m" and "curTimePoint t \<le> ms10"
    and "unat (jiffies t) + nat (ms10 - curTimePoint t) + 2 ^ 42 < 2 ^ 64"
  shows "\<exists>t' fs. timeWheel_run ms10 t = (Ok (), t') \<and> curTimePoint t' = ms10 \<and>
    (\<forall>p. callback (nodes t' p) = callback (nodes t p)) \<and>
    wheel_timers t' (timers_run (nat (ms10 - curTimePoint t)) (unat (jiffies t)) m) \<and>
    unat (jiffies t') = unat (jiffies t) + nat (ms10 - curTimePoint t) \<and> submitted t' = submitted t @ fs \<and>
    (\<forall>p. count_list fs p = fires (nat (ms10 - curTimePoint t)) (unat (jiffies t)) m p)"
proof -
  let ?t = "t\<lparr>curTimePoint := ms10\<rparr>"
  have "wheel_timers ?t m \<and> curTimePoint ?t = ms10 \<and> (\<forall>p. callback (nodes ?t p) = callback (nodes t p))"
    using assms(1) by simp
  moreover have "unat (jiffies ?t) + nat (ms10 - curTimePoint t) \<le> 2 ^ 64 - 2 ^ 42" using assms(3) by simp
  ultimately show ?thesis
    using wheel_cb.run_timers[of ?t m ms10 "\<lambda>p. callback (nodes t p)" "nat (ms10 - curTimePoint t)"] assms(2)
    by (simp add: timeWheel_run_def) blast
qed

lemma timers_run_None: "m p = None \<Longrightarrow> timers_run n j m p = None"
  by (induction n arbitrary: j m) (simp_all add: timers_tick_def)

lemma timers_run_once:
  assumes "m p = Some (e, None)" and "j \<le> e"
  shows "timers_run n j m p = (if e < j + n then None else m p)"
proof (cases "e < j + n")
  case True
  define k r where "k = e - j" and "r = n - Suc k"
  have n: "n = k + Suc r" "j + k = e" using True assms(2) by (auto simp: k_def r_def)
  have "timers_run k j m p = m p" using fires_later[of m p e None j k] assms n(2) by auto
  then have "timers_tick e (timers_run k j m) p = None" using assms(1) by (simp add: timers_tick_def rearm_def)
  then show ?thesis using True by (simp only: n(1) timers_run_add n(2) timers_run.simps) (simp add: timers_run_None)
qed (use fires_later[of m p e None j n] assms in simp)

lemma AfterFunc_frame:
  assumes "AfterFunc d cb t = (out, t')"
  shows "curTimePoint t' = curTimePoint t" and "q \<noteq> nextPtr t \<Longrightarrow> callback (nodes t' q) = callback (nodes t q)"
  using assms by (auto simp: AfterFunc_def newNode_def timeWheel_add_def lockPushBack_def Let_def split: option.splits if_splits)

section \<open>Requests\<close>

text \<open>The one-shot requests \<open>R\<close> are in the wheel: none is overdue, and none is due after its time.\<close>

definition request :: "(int \<times> 'a) list \<Rightarrow> timeWheel \<Rightarrow> ptr \<Rightarrow> int \<times> 'a" where
  "request log W p = log ! callback (nodes W p)"

definition in_time :: "(int \<times> 'a) list \<Rightarrow> timeWheel \<Rightarrow> ptr \<Rightarrow> nat \<Rightarrow> bool" where
  "in_time log W p e \<longleftrightarrow> unat (jiffies W) \<le> e \<and> callback (nodes W p) < length log \<and>
     (curTimePoint W + int e - int (unat (jiffies W))) * 10000000 \<le> fst (request log W p)"

definition keeps :: "timeWheel \<Rightarrow> (int \<times> 'a) list \<Rightarrow> (int \<times> 'a) multiset \<Rightarrow> bool" where
  "keeps W log R \<longleftrightarrow> (\<exists>m. wheel_timers W m \<and> finite (dom m) \<and>
     (\<forall>p v. m p = Some v \<longrightarrow> snd v = None \<and> in_time log W p (fst v)) \<and>
     R = image_mset (request log W) (mset_set (dom m)))"

lemma keeps_new: "keeps (newTimeWheel now) [] {#}"
  unfolding keeps_def by (rule exI[of _ "\<lambda>_. None"]) (simp add: newTimeWheel_timers)

lemma keeps_due: "keeps W log R \<Longrightarrow> x \<in># R \<Longrightarrow> curTimePoint W * 10000000 \<le> fst x"
proof -
  assume "keeps W log R" and x: "x \<in># R"
  then obtain m :: WheelTick.timers where m: "finite (dom m)" "R = image_mset (request log W) (mset_set (dom m))"
      "\<And>p v. m p = Some v \<Longrightarrow> in_time log W p (fst v)"
    unfolding keeps_def by blast
  from x m(1,2) obtain p v where p: "m p = Some v" "x = request log W p" by auto
  have "int (unat (jiffies W)) \<le> int (fst v)" using m(3)[OF p(1)] by (simp only: in_time_def of_nat_le_iff)
  then have "curTimePoint W * 10000000 \<le> (curTimePoint W + int (fst v) - int (unat (jiffies W))) * 10000000"
    by (intro mult_right_mono) linarith+
  with m(3)[OF p(1)] show ?thesis unfolding p(2) in_time_def by linarith
qed

lemma keeps_AfterFunc:
  assumes k: "keeps W log R" and b: "unat (jiffies W) + 2 ^ 42 < 2 ^ 64"
    and t: "now \<le> t" "t < now + 2 ^ 63" and n: "curTimePoint W * 10000000 \<le> now"
  obtains W' where "AfterFunc (t - now) (length log) W = (Ok (nextPtr W), W')"
    and "keeps W' (log @ [(t, fn)]) (add_mset (t, fn) R)" and "jiffies W' = jiffies W"
    and "curTimePoint W' = curTimePoint W" and "submitted W' = submitted W"
proof -
  from k obtain m where m: "wheel_timers W m" "finite (dom m)" "R = image_mset (request log W) (mset_set (dom m))"
      "\<And>p v. m p = Some v \<Longrightarrow> snd v = None \<and> in_time log W p (fst v)"
    unfolding keeps_def by blast
  have d: "0 \<le> t - now" "t - now < 2 ^ 63" using t by simp_all
  let ?p = "nextPtr W" and ?log = "log @ [(t, fn)]" and ?e = "unat (jiffies W) + nat ((t - now) div 10000000)"
  obtain W' where W': "AfterFunc (t - now) (length log) W = (Ok ?p, W')" "wheel_timers W' (m(?p \<mapsto> (?e, None)))"
      "m ?p = None" "callback (nodes W' ?p) = length log" "jiffies W' = jiffies W" "submitted W' = submitted W"
    using AfterFunc_ok[OF m(1) b d] .
  note fr = AfterFunc_frame[OF W'(1)]
  have old: "request ?log W' q = request log W q" "in_time ?log W' q (fst v)" if "m q = Some v" for q v
  proof -
    have "q \<noteq> ?p" using that W'(3) by auto
    then show "request ?log W' q = request log W q" "in_time ?log W' q (fst v)"
      using m(4)[OF that] fr(2)[of q] by (simp_all add: request_def in_time_def nth_append fr(1) W'(5))
  qed
  have new: "request ?log W' ?p = (t, fn)" by (simp add: request_def W'(4))
  have "(t - now) div 10000000 * 10000000 \<le> t - now" by simp
  then have "in_time ?log W' ?p ?e"
    using n d(1) new by (simp add: in_time_def W'(4,5) fr(1) distrib_right)
  with old m(4) have "\<forall>q v. (m(?p \<mapsto> (?e, None))) q = Some v \<longrightarrow> snd v = None \<and> in_time ?log W' q (fst v)"
    by (auto split: if_splits)
  moreover have "image_mset (request ?log W') (mset_set (dom m)) = R"
    unfolding m(3) by (rule image_mset_cong) (use old(1) m(2) in auto)
  then have "add_mset (t, fn) R = image_mset (request ?log W') (mset_set (dom (m(?p \<mapsto> (?e, None)))))"
    using m(2) W'(3) new by (simp add: domIff)
  ultimately have "keeps W' ?log (add_mset (t, fn) R)"
    unfolding keeps_def using W'(2) m(2) by (intro exI[of _ "m(?p \<mapsto> (?e, None))"]) simp
  then show thesis using that W'(1,5,6) fr(1) by blast
qed

lemma keeps_run:
  assumes k: "keeps W log R" and le: "curTimePoint W \<le> z"
    and b: "unat (jiffies W) + nat (z - curTimePoint W) + 2 ^ 42 < 2 ^ 64"
  obtains W' fs R' where "timeWheel_run z W = (Ok (), W')" and "keeps W' log R'" and "curTimePoint W' = z"
    and "unat (jiffies W') = unat (jiffies W) + nat (z - curTimePoint W)" and "submitted W' = submitted W @ fs"
    and "R = R' + mset (map (request log W') fs)"
proof -
  from k obtain m where m: "wheel_timers W m" "finite (dom m)" "R = image_mset (request log W) (mset_set (dom m))"
      "\<And>p v. m p = Some v \<Longrightarrow> snd v = None \<and> in_time log W p (fst v)"
    unfolding keeps_def by blast
  let ?n = "nat (z - curTimePoint W)" and ?j = "unat (jiffies W)"
  let ?m = "timers_run ?n ?j m"
  obtain W' fs where W': "timeWheel_run z W = (Ok (), W')" "curTimePoint W' = z" "\<And>p. callback (nodes W' p) = callback (nodes W p)"
      "wheel_timers W' ?m" "unat (jiffies W') = ?j + ?n" "submitted W' = submitted W @ fs"
      "\<And>p. count_list fs p = fires ?n ?j m p"
    using timeWheel_run_callbacks[OF m(1) le b] by blast
  have r: "request log W' = request log W" by (simp add: request_def W'(3) fun_eq_iff)
  define F where "F = {p \<in> dom m. fst (the (m p)) < ?j + ?n}"
  have j: "?j \<le> fst v" "m p = Some (fst v, None)" if "m p = Some v" for p v
    using m(4)[OF that] that by (simp_all add: in_time_def prod_eq_iff)
  have run: "?m p = (if p \<in> F then None else m p)" "fires ?n ?j m p = of_bool (p \<in> F)" for p
    using timers_run_once[of m p "fst (the (m p))" ?j ?n] fires_once[of m p "fst (the (m p))" ?j ?n] j[of p]
      timers_run_None[of m p ?n ?j] fires_None[of m p ?n ?j]
    by (cases "m p"; auto simp: F_def)+
  have F: "finite F" "F \<subseteq> dom m" using m(2) by (auto simp: F_def)
  have fs: "mset fs = mset_set F"
    by (rule multiset_eqI) (simp add: count_mset W'(7) run(2) F(1) count_mset_set')
  have dm: "dom ?m = dom m - F" by (auto simp: run(1) domIff split: if_splits)
  have "mset_set (dom m) = mset_set (dom m - F) + mset_set F"
    using F m(2) by (metis finite_Diff mset_set_Union Diff_disjoint Int_commute Un_Diff_cancel2 sup.absorb1)
  then have split: "R = image_mset (request log W') (mset_set (dom ?m)) + mset (map (request log W') fs)"
    by (simp add: m(3) dm fs r)
  have "in_time log W' p (fst v) \<and> snd v = None" if "?m p = Some v" for p v
  proof -
    have v: "m p = Some v" "p \<notin> F" using that run(1)[of p] by (auto split: if_splits)
    then have "?j + ?n \<le> fst v" by (auto simp: F_def)
    then show ?thesis using m(4)[OF v(1)] le by (simp add: in_time_def r W'(2,3,5))
  qed
  then have "keeps W' log (image_mset (request log W') (mset_set (dom ?m)))"
    unfolding keeps_def using W'(4) m(2) by (intro exI[of _ ?m]) (simp add: dm)
  then show thesis by (rule that[OF W'(1) _ W'(2,5,6) split])
qed

end
