(* ===== verification/KeeperWheel.thy ===== *)
theory KeeperWheel
  imports KeepaliveRun WheelRequests
begin

text \<open>
  Keepers on the time wheel: the requests of the keepers are nodes of the wheel, the wheel advances
  when its ticker lets it read the clock, and what it submits is run by the goroutine pool. Every
  run of this system is a run of the keepers with timers of bounded lateness.
\<close>

section \<open>The combined system\<close>

text \<open>
  The system with its keepers, when each keeper was started, the wheel, the log of all requests
  (a node's callback is a number in it), and the requests that have been submitted to the goroutine
  pool and not yet run, with the time they were submitted.
\<close>

record ('v, 'z) kwheel =
  kw_sys :: "('v, 'z) ka_sys_scheme"
  kw_started :: "nat \<Rightarrow> int"
  kw_wheel :: timeWheel
  kw_log :: "(int \<times> timerFn) list"
  kw_queue :: "((int \<times> timerFn) \<times> int) list"

text \<open>The keepers' calls of \<open>AfterFunc\<close> reach the wheel, at the time \<open>now\<close>.\<close>

fun wheel_arm ::
    "int \<Rightarrow> (int \<times> timerFn) list \<Rightarrow> timeWheel \<times> (int \<times> timerFn) list \<Rightarrow>
     unit outcome \<times> timeWheel \<times> (int \<times> timerFn) list" where
  "wheel_arm now [] (W, log) = (Ok (), W, log)"
| "wheel_arm now (x # xs) (W, log) =
     (case AfterFunc (fst x - now) (length log) W of
        (Ok _, W') \<Rightarrow> wheel_arm now xs (W', log @ [x])
      | (Err e, W') \<Rightarrow> (Err e, W', log)
      | (Panic p, W') \<Rightarrow> (Panic p, W', log)
      | (Hang, W') \<Rightarrow> (Hang, W', log))"

definition int64_durations :: "int \<Rightarrow> (int \<times> 'a) list \<Rightarrow> bool" where
  "int64_durations now xs \<longleftrightarrow> (\<forall>(t, fn)\<in>set xs. now \<le> t \<and> t < now + 2 ^ 63)"

text \<open>
  The wheel reads the clock less than \<open>\<rho>\<close> after each 10 ms period has passed, and a submitted function is run
  within \<open>\<mu>\<close>. The clock is a non-negative 64-bit number of nanoseconds that is not set back; a
  call of \<open>AfterFunc\<close> does not fall into a reading.
\<close>

inductive kw_step ::
    "(outHandler \<Rightarrow> ('v, ('v, 'z) ka_sys_scheme) Handler) \<Rightarrow> int \<Rightarrow> int \<Rightarrow>
     ('v, 'z) kwheel \<Rightarrow> ('v, 'z) kwheel \<Rightarrow> bool"
  for oh \<rho> \<mu> where
  start: "(\<forall>hp. healthParams p = Some hp \<longrightarrow> usable_health hp) \<Longrightarrow> NewKeeper p c (kw_sys a) = (k, s1) \<Longrightarrow>
    s' = Keeper_Keepalive k s1 \<Longrightarrow> new = drop (length (timers (kw_sys a))) (timers s') \<Longrightarrow>
    int64_durations (clock (kw_sys a)) new \<Longrightarrow>
    wheel_arm (clock (kw_sys a)) new (kw_wheel a, kw_log a) = (Ok (), W', log') \<Longrightarrow>
    kw_step oh \<rho> \<mu> a (a\<lparr>kw_sys := s', kw_started := (kw_started a)(k := clock (kw_sys a)), kw_wheel := W', kw_log := log'\<rparr>)"
| run: "((t, fn), \<tau>) \<in> set (kw_queue a) \<Longrightarrow>
    s = (kw_sys a)\<lparr>timers := remove1 (t, fn) (timers (kw_sys a))\<rparr> \<Longrightarrow> run_timer oh fn s = (Ok (), s') \<Longrightarrow>
    new = drop (length (timers s)) (timers s') \<Longrightarrow> int64_durations (clock (kw_sys a)) new \<Longrightarrow>
    wheel_arm (clock (kw_sys a)) new (kw_wheel a, kw_log a) = (Ok (), W', log') \<Longrightarrow>
    kw_step oh \<rho> \<mu> a (a\<lparr>kw_sys := s', kw_wheel := W', kw_log := log', kw_queue := remove1 ((t, fn), \<tau>) (kw_queue a)\<rparr>)"
| other: "calm (kw_sys a) s' \<Longrightarrow> kw_step oh \<rho> \<mu> a (a\<lparr>kw_sys := s'\<rparr>)"
| reading: "timeWheel_run (get10Ms (clock (kw_sys a))) (kw_wheel a) = (Ok (), W') \<Longrightarrow>
    fired = drop (length (submitted (kw_wheel a))) (submitted W') \<Longrightarrow>
    kw_step oh \<rho> \<mu> a (a\<lparr>kw_wheel := W',
      kw_queue := kw_queue a @ map (\<lambda>p. (request (kw_log a) W' p, clock (kw_sys a))) fired\<rparr>)"
| time: "clock (kw_sys a) \<le> n \<Longrightarrow> n < 2 ^ 63 \<Longrightarrow> n < (curTimePoint (kw_wheel a) + 1) * 10000000 + \<rho> \<Longrightarrow>
    (\<forall>(x, \<tau>)\<in>set (kw_queue a). n \<le> \<tau> + \<mu>) \<Longrightarrow> kw_step oh \<rho> \<mu> a (a\<lparr>kw_sys := (kw_sys a)\<lparr>clock := n\<rparr>\<rparr>)"

section \<open>The keepers only add requests\<close>

text \<open>The functions of the timers take no time, and their requests come after the others.\<close>

definition only_adds :: "('v, 'z) ka_sys_scheme \<Rightarrow> ('v, 'z) ka_sys_scheme \<Rightarrow> bool" where
  "only_adds s s' \<longleftrightarrow> clock s' = clock s \<and> (\<exists>new. timers s' = timers s @ new)"

lemma only_adds_calm [intro]: "calm s s' \<Longrightarrow> only_adds s s'"
  by (simp add: only_adds_def calm_def)

lemma only_adds_AfterFunc [simp]: "only_adds s (Timer_AfterFunc d fn s)"
  by (simp add: only_adds_def Timer_AfterFunc_def)

lemma only_adds_trans: "only_adds s t \<Longrightarrow> only_adds t u \<Longrightarrow> only_adds s u"
  by (auto simp: only_adds_def)

lemma only_adds_drop: "only_adds s s' \<Longrightarrow> timers s' = timers s @ drop (length (timers s)) (timers s')"
  by (auto simp: only_adds_def)

lemma only_adds_Keepalive: "only_adds s (Keeper_Keepalive k s)"
proof -
  have a: "only_adds t (if b then Timer_AfterFunc d fn t else t)" for t :: "('a, 'b) ka_sys_scheme" and b d fn
    by (simp add: only_adds_def Timer_AfterFunc_def)
  have h: "only_adds t (case ho of Some hp \<Rightarrow> (if P hp then Timer_AfterFunc (f hp) fn t else t) | None \<Rightarrow> t)"
    for t :: "('a, 'b) ka_sys_scheme" and ho :: "'a HealthParams option" and P f fn
    by (simp add: only_adds_def Timer_AfterFunc_def split: option.split)
  show ?thesis unfolding Keeper_Keepalive_def Let_def by (rule only_adds_trans[OF only_adds_trans[OF a a] h])
qed

lemma only_adds_NewKeeper: "NewKeeper p c s = (k, s1) \<Longrightarrow> only_adds s s1"
  by (auto simp: NewKeeper_def only_adds_def)

context keeper_writes
begin

lemma goAwayChannel_only_adds:
  assumes "goAwayChannel oh k err s = (Ok (), s')"
  shows "only_adds s s'"
proof -
  obtain out s1 where w: "WriteDirectly oh (GoAway (the (goAwayParams (kp (keepers s k))))) (k_ch (keepers s k)) s = (out, s1)"
    by fastforce
  note c = only_adds_calm[OF WriteDirectly_calm[OF w]]
  have st: "only_adds t (stopChannel k err t)" for t by (rule only_adds_calm[OF calm_stopChannel])
  show ?thesis
    using assms w only_adds_trans[OF c only_adds_AfterFunc] only_adds_trans[OF only_adds_trans[OF c st] only_adds_AfterFunc] st
    by (cases out) (auto simp: goAwayChannel_def Let_def split: if_splits)
qed

lemma health_only_adds:
  assumes "health_fn oh hp k s = (Ok (), s')"
  shows "only_adds s s'"
proof (cases "\<not> k_done (keepers s k) \<and> Readable (chans s (k_ch (keepers s k)))")
  case True
  then have d: "\<not> k_done (keepers s k)" and r: "Readable (chans s (k_ch (keepers s k)))" by simp_all
  from assms d r show ?thesis
  proof (cases rule: health_cases)
    case (stopped err s1)
    then show ?thesis using calm_trans[OF stopped(2) calm_stopChannel] by auto
  next
    case (pinged s1)
    have "only_adds s1 (upd_k k (\<lambda>kr. kr\<lparr>lastPing := clock s1\<rparr>) s1)" by (simp add: only_adds_def upd_k_def)
    from only_adds_trans[OF only_adds_trans[OF only_adds_calm[OF pinged(2)] this] only_adds_AfterFunc] show ?thesis
      unfolding pinged(3) .
  qed simp_all
next
  case False
  with assms have "s' = s" by (auto simp: health_fn_def Let_def split: if_splits)
  then show ?thesis by (simp add: only_adds_def)
qed

lemma run_timer_only_adds: "run_timer oh fn s = (Ok (), s') \<Longrightarrow> only_adds s s'"
  using goAwayChannel_only_adds health_only_adds only_adds_calm[OF grace_calm]
  by (auto simp: run_timer_def idle_fn_def age_fn_def Let_def split: timerFn.splits option.splits if_splits)

end

section \<open>Arming\<close>

lemma few_ticks:
  assumes "int n \<le> P" and "P * 10000000 \<le> now" and "now < 2 ^ 63"
  shows "n < 2 ^ 40"
proof -
  have "now < 9223372036854775808" using assms(3) by simp
  with assms(1,2) have "int n < 1099511627776" by linarith
  then show ?thesis by simp
qed

lemma wheel_arm_ok:
  assumes "keeps W log R" and "int (unat (jiffies W)) \<le> curTimePoint W" and "curTimePoint W * 10000000 \<le> now"
    and "now < 2 ^ 63" and "int64_durations now xs"
  shows "\<exists>W'. wheel_arm now xs (W, log) = (Ok (), W', log @ xs) \<and> keeps W' (log @ xs) (R + mset xs) \<and>
    jiffies W' = jiffies W \<and> curTimePoint W' = curTimePoint W"
  using assms
proof (induction xs arbitrary: W log R)
  case (Cons x xs)
  obtain t fn where x: "x = (t, fn)" by fastforce
  have b: "unat (jiffies W) + 2 ^ 42 < 2 ^ 64" using few_ticks[OF Cons.prems(2-4)] by simp
  have d: "now \<le> t" "t < now + 2 ^ 63" "int64_durations now xs" using Cons.prems(5) x by (auto simp: int64_durations_def)
  obtain W1 where W1: "AfterFunc (t - now) (length log) W = (Ok (nextPtr W), W1)" "keeps W1 (log @ [x]) (add_mset x R)"
      "jiffies W1 = jiffies W" "curTimePoint W1 = curTimePoint W"
    using keeps_AfterFunc[OF Cons.prems(1) b d(1,2) Cons.prems(3)] unfolding x by blast
  from Cons.IH[OF W1(2) _ _ Cons.prems(4) d(3)] Cons.prems(2,3) show ?case
    by (simp add: W1 x)
qed simp

section \<open>Every request is in the wheel or in the pool\<close>

definition pool_late :: "int \<Rightarrow> int \<Rightarrow> int \<Rightarrow> (int \<times> timerFn) \<times> int \<Rightarrow> bool" where
  "pool_late \<rho> \<mu> now e \<longleftrightarrow> snd e \<le> fst (fst e) + 10000000 + \<rho> \<and> now \<le> snd e + \<mu>"

definition clocked :: "int \<Rightarrow> timeWheel \<Rightarrow> int \<Rightarrow> bool" where
  "clocked \<rho> W now \<longleftrightarrow> int (unat (jiffies W)) \<le> curTimePoint W \<and> curTimePoint W * 10000000 \<le> now \<and>
     now < (curTimePoint W + 1) * 10000000 + \<rho> \<and> now < 2 ^ 63"

definition kw_inv :: "int \<Rightarrow> int \<Rightarrow> ('v, 'z) kwheel \<Rightarrow> bool" where
  "kw_inv \<rho> \<mu> a \<longleftrightarrow> clocked \<rho> (kw_wheel a) (clock (kw_sys a)) \<and>
     (\<forall>e\<in>set (kw_queue a). pool_late \<rho> \<mu> (clock (kw_sys a)) e) \<and>
     (\<exists>R. keeps (kw_wheel a) (kw_log a) R \<and> mset (timers (kw_sys a)) = R + mset (map fst (kw_queue a)))"

lemma get10Ms_nonneg: "0 \<le> n \<Longrightarrow> get10Ms n = n div 10000000"
  by (simp add: get10Ms_def go_div_def pos_imp_zdiv_nonneg_iff zdiv_zmult2_eq[symmetric])

lemma arm_inv:
  assumes "clocked \<rho> W now" and "keeps W log R" and "int64_durations now new"
    and "wheel_arm now new (W, log) = (Ok (), W', log')"
  shows "clocked \<rho> W' now \<and> keeps W' log' (R + mset new)"
  using wheel_arm_ok[of W log R now new] assms by (auto simp: clocked_def)

text \<open>A reading moves requests from the wheel to the pool, none later than the reading after its time.\<close>

lemma reading_inv:
  assumes c: "clocked \<rho> W now" and k: "keeps W log R" and "0 \<le> \<rho>"
  obtains W' fired R' where "timeWheel_run (get10Ms now) W = (Ok (), W')"
    and "drop (length (submitted W)) (submitted W') = fired" and "clocked \<rho> W' now" and "keeps W' log R'"
    and "R = R' + mset (map (request log W') fired)" and "curTimePoint W' = get10Ms now"
    and "\<forall>p\<in>set fired. now \<le> fst (request log W' p) + 10000000 + \<rho>"
proof -
  let ?z = "get10Ms now" and ?P = "curTimePoint W"
  have p: "0 \<le> ?P" "?P * 10000000 \<le> now" "now < (?P + 1) * 10000000 + \<rho>" "now < 2 ^ 63" "int (unat (jiffies W)) \<le> ?P"
    using c by (auto simp: clocked_def intro: order.trans[of 0 "int (unat (jiffies W))"])
  then have n: "0 \<le> now" by linarith
  obtain r where "now = ?z * 10000000 + r" "0 \<le> r" "r < 10000000"
    by (rule that[of "now mod 10000000"]) (simp_all add: get10Ms_nonneg[OF n])
  with p(2) have z: "?z * 10000000 \<le> now" "now < (?z + 1) * 10000000" "?P \<le> ?z"
    unfolding distrib_right by linarith+
  have "int (unat (jiffies W) + nat (?z - ?P)) \<le> ?z" using p(5) z(3) by (simp only: of_nat_add)
  note z' = this few_ticks[OF this z(1) p(4)]
  have b: "unat (jiffies W) + nat (?z - ?P) + 2 ^ 42 < 2 ^ 64" using z'(2) by simp
  obtain W' fs R' where r: "timeWheel_run ?z W = (Ok (), W')" "keeps W' log R'" "curTimePoint W' = ?z"
      "unat (jiffies W') = unat (jiffies W) + nat (?z - ?P)" "submitted W' = submitted W @ fs"
      "R = R' + mset (map (request log W') fs)"
    using keeps_run[OF k z(3) b] .
  have "now \<le> fst (request log W' q) + 10000000 + \<rho>" if "q \<in> set fs" for q
  proof -
    have "request log W' q \<in># R" using r(6) that by simp
    from keeps_due[OF k this] p(3) show ?thesis by simp
  qed
  moreover have "clocked \<rho> W' now"
    unfolding clocked_def r(3,4) using z z'(1) p(4) assms(3) by simp
  ultimately show thesis by (intro that[OF r(1) _ _ r(2,6,3)]) (simp_all add: r(5))
qed

section \<open>Refinement\<close>

text \<open>
  A step of the combined system keeps every request accounted for and is a step of the keepers
  with timers that are at most \<open>10 ms + \<rho> + \<mu>\<close> late.
\<close>

definition lateness :: "int \<Rightarrow> int \<Rightarrow> int" where
  "lateness \<rho> \<mu> = 10000000 + \<rho> + \<mu>"

lemma requests_late:
  assumes "kw_inv \<rho> \<mu> a" and "(t, fn) \<in> set (timers (kw_sys a))" and "0 \<le> \<mu>"
    and "n < (curTimePoint (kw_wheel a) + 1) * 10000000 + \<rho>" and "\<forall>(x, \<tau>)\<in>set (kw_queue a). n \<le> \<tau> + \<mu>"
  shows "n \<le> t + lateness \<rho> \<mu>"
proof -
  from assms(1) obtain R where R: "keeps (kw_wheel a) (kw_log a) R"
      "mset (timers (kw_sys a)) = R + mset (map fst (kw_queue a))" unfolding kw_inv_def by blast
  have "(t, fn) \<in># R + mset (map fst (kw_queue a))" using assms(2) R(2) by (metis set_mset_mset)
  then consider "(t, fn) \<in># R" | \<tau> where "((t, fn), \<tau>) \<in> set (kw_queue a)" by auto
  then show ?thesis
  proof cases
    case 1
    from keeps_due[OF R(1) 1] assms(3,4) show ?thesis by (simp add: lateness_def)
  next
    case 2
    then show ?thesis using assms(1,5) by (fastforce simp: kw_inv_def pool_late_def lateness_def)
  qed
qed

lemma kw_step_refines:
  assumes w: "keeper_writes oh" and b: "0 \<le> \<rho>" "0 \<le> \<mu>" and st: "kw_step oh \<rho> \<mu> a b" and inv: "kw_inv \<rho> \<mu> a"
  shows "kw_inv \<rho> \<mu> b \<and> (ka_step oh (lateness \<rho> \<mu>))\<^sup>=\<^sup>= (kw_sys a, kw_started a) (kw_sys b, kw_started b)"
proof -
  let ?s = "kw_sys a" and ?W = "kw_wheel a" and ?log = "kw_log a"
  from inv obtain R where R: "keeps ?W ?log R" "mset (timers ?s) = R + mset (map fst (kw_queue a))"
    and c: "clocked \<rho> ?W (clock ?s)" and q: "\<forall>e\<in>set (kw_queue a). pool_late \<rho> \<mu> (clock ?s) e"
    unfolding kw_inv_def by blast
  from st show ?thesis
  proof cases
    case (start p ch k s1 s' new W' log')
    have cl: "clock s1 = clock ?s" "timers s1 = timers ?s" using start(3) by (auto simp: NewKeeper_def)
    have "clock s' = clock s1" using start(4) only_adds_Keepalive[of s1 k] by (simp add: only_adds_def)
    moreover have "timers s' = timers ?s @ new" unfolding start(4,5)
      using only_adds_drop[OF only_adds_trans[OF only_adds_NewKeeper[OF start(3)] only_adds_Keepalive]] by simp
    moreover have "ka_step oh (lateness \<rho> \<mu>) (?s, kw_started a) (s', (kw_started a)(k := clock ?s))"
      unfolding start(4) by (rule ka_step.start[OF start(2,3)])
    ultimately show ?thesis
      using arm_inv[OF c R(1) start(6,7)] R(2) q cl unfolding start(1) kw_inv_def by auto
  next
    case (run t fn \<tau> s s' new W' log')
    have cl: "clock s' = clock ?s" using keeper_writes.run_timer_only_adds[OF w run(4)] run(3) by (simp add: only_adds_def)
    have m: "(t, fn) \<in># image_mset fst (mset (kw_queue a))" using run(2) by force
    then have "(t, fn) \<in># mset (timers ?s)" using R(2) by simp
    then have fire: "ka_step oh (lateness \<rho> \<mu>) (?s, kw_started a) (s', kw_started a)"
      using run(3,4) by (intro ka_step.fire[of t fn]) simp_all
    have "timers s' = timers s @ new"
      using only_adds_drop[OF keeper_writes.run_timer_only_adds[OF w run(4)]] run(5) by simp
    then have "mset (timers s') = mset (timers ?s) - {#(t, fn)#} + mset new" using run(3) by simp
    also have "\<dots> = R + mset new + mset (map fst (remove1 ((t, fn), \<tau>) (kw_queue a)))"
      using run(2) m R(2) by (simp add: image_mset_Diff add_ac)
    finally have ms: "mset (timers s') = R + mset new + mset (map fst (remove1 ((t, fn), \<tau>) (kw_queue a)))" .
    have "\<forall>e\<in>set (remove1 ((t, fn), \<tau>) (kw_queue a)). pool_late \<rho> \<mu> (clock ?s) e"
      using q by (meson notin_set_remove1)
    with fire ms show ?thesis
      using arm_inv[OF c R(1) run(6,7)] cl unfolding run(1) kw_inv_def by auto
  next
    case (other s')
    then have "clock s' = clock ?s" "timers s' = timers ?s" by (simp_all add: calm_def)
    with R c q other show ?thesis unfolding kw_inv_def by (auto intro: ka_step.other)
  next
    case (reading W' fired)
    obtain W1 fs R1 where r: "timeWheel_run (get10Ms (clock ?s)) ?W = (Ok (), W1)"
        "drop (length (submitted ?W)) (submitted W1) = fs" "clocked \<rho> W1 (clock ?s)" "keeps W1 ?log R1"
        "R = R1 + mset (map (request ?log W1) fs)" "curTimePoint W1 = get10Ms (clock ?s)" "\<forall>p\<in>set fs. clock ?s \<le> fst (request ?log W1 p) + 10000000 + \<rho>"
      using reading_inv[OF c R(1) b(1)] .
    have e: "W1 = W'" "fs = fired" using r(1,2) reading(2,3) by simp_all
    have "\<forall>e\<in>set (map (\<lambda>p. (request ?log W' p, clock ?s)) fired). pool_late \<rho> \<mu> (clock ?s) e"
      using r(7) b(2) unfolding e by (simp add: pool_late_def)
    moreover have "mset (timers ?s) = R1 + mset (map fst (kw_queue a @ map (\<lambda>p. (request ?log W' p, clock ?s)) fired))"
      using R(2) r(5) unfolding e by (simp add: comp_def)
    ultimately show ?thesis using r(3,4) q unfolding e reading(1) kw_inv_def by auto
  next
    case (time n)
    have "ka_step oh (lateness \<rho> \<mu>) (?s, kw_started a) (?s\<lparr>clock := n\<rparr>, kw_started a)"
      using requests_late[OF inv _ b(2) time(4,5)] by (intro ka_step.tick[OF time(2)]) auto
    moreover have "clocked \<rho> ?W n" using c time(2-4) by (simp add: clocked_def)
    moreover have "\<forall>e\<in>set (kw_queue a). pool_late \<rho> \<mu> n e" using q time(5) by (fastforce simp: pool_late_def)
    ultimately show ?thesis using R unfolding time(1) kw_inv_def by auto
  qed
qed

lemma kw_run_refines:
  assumes w: "keeper_writes oh" and b: "0 \<le> \<rho>" "0 \<le> \<mu>" and "(kw_step oh \<rho> \<mu>)\<^sup>*\<^sup>* a b" and "kw_inv \<rho> \<mu> a"
  shows "kw_inv \<rho> \<mu> b \<and> (ka_step oh (lateness \<rho> \<mu>))\<^sup>*\<^sup>* (kw_sys a, kw_started a) (kw_sys b, kw_started b)"
  using assms(4,5)
proof induction
  case (step b c)
  from kw_step_refines[OF w b step.hyps(2)] step show ?case
    by (auto intro: rtranclp.rtrancl_into_rtrancl)
qed simp

text \<open>The wheel of the process, made when the package is loaded (\<^verbatim>\<open>timer.go\<close>), and a system with it.\<close>

definition Timer_init :: "int \<Rightarrow> timeWheel" where
  "Timer_init unixNano = newTimeWheel (get10Ms unixNano)"

definition kw_new :: "('v, 'z) ka_sys_scheme \<Rightarrow> (nat \<Rightarrow> int) \<Rightarrow> ('v, 'z) kwheel" where
  "kw_new s st = \<lparr>kw_sys = s, kw_started = st, kw_wheel = Timer_init (clock s), kw_log = [], kw_queue = []\<rparr>"

lemma kw_new_inv:
  assumes "timers s = []" and "0 \<le> clock s" and "clock s < 2 ^ 63" and "0 \<le> \<rho>"
  shows "kw_inv \<rho> \<mu> (kw_new s st)"
proof -
  obtain r where "clock s = get10Ms (clock s) * 10000000 + r" "0 \<le> r" "r < 10000000" "0 \<le> get10Ms (clock s)"
    by (rule that[of "clock s mod 10000000"]) (simp_all add: get10Ms_nonneg[OF assms(2)] pos_imp_zdiv_nonneg_iff assms(2))
  then have "clocked \<rho> (newTimeWheel (get10Ms (clock s))) (clock s)"
    using assms(3,4) unfolding clocked_def distrib_right by (simp add: newTimeWheel_data)
  then show ?thesis using assms(1) keeps_new by (auto simp: kw_inv_def kw_new_def Timer_init_def)
qed

text \<open>The wheel never gets in the way: a reading of the clock is always possible.\<close>

lemma reading_possible:
  assumes "kw_inv \<rho> \<mu> a" and "0 \<le> \<rho>"
  shows "\<exists>W'. timeWheel_run (get10Ms (clock (kw_sys a))) (kw_wheel a) = (Ok (), W')"
proof -
  from assms(1) obtain R where "clocked \<rho> (kw_wheel a) (clock (kw_sys a))" "keeps (kw_wheel a) (kw_log a) R"
    by (auto simp: kw_inv_def)
  from reading_inv[OF this assms(2)] show ?thesis by blast
qed

section \<open>Dead peers\<close>

text \<open>
  C12: a channel that is kept open has a peer that is alive. In every run of the keepers of a
  transport handler on a time wheel that reads the clock less than \<open>\<rho>\<close> after each 10 ms period and
  whose functions are run within \<open>\<mu>\<close> of their submission, while anything else may happen that does
  not reopen a channel (messages, pongs, closings), a channel that is still readable and whose keeper
  has not stopped has received a message less than \<^verbatim>\<open>Time\<close> ago or a pong less than \<^verbatim>\<open>Timeout\<close> ago, up
  to the time one unanswered ping is given (\<^verbatim>\<open>Timeout\<close>) and the lateness of two timers, which is
  at most \<open>10 ms + \<rho> + \<mu>\<close> each; or its keeper was started less than \<^verbatim>\<open>Time\<close> ago, up to the same. And the
  wheel is never stuck: its next reading of the clock ends normally.
\<close>

theorem dead_peer_closed_in_time:
  assumes "nextKeeper s = 0" and "timers s = []" and "0 \<le> clock s" and "clock s < 2 ^ 63" and "0 \<le> \<rho>" and "0 \<le> \<mu>"
    and "(kw_step out_handler \<rho> \<mu>)\<^sup>*\<^sup>* (kw_new s st) b" and "kw_sys b = s'"
    and "k < nextKeeper s'" and "\<not> k_done (keepers s' k)" and "k_ch (keepers s' k) = c" and "Readable (chans s' c)"
    and "healthParams (kp (keepers s' k)) = Some hp" and "0 < Time hp"
  shows "clock s' \<le> max (lastRead (chans s' c) + Time hp)
      (max (kw_started b k + Time hp) (lastPong (keepers s' k) + Timeout hp)) + Timeout hp + 2 * (10000000 + \<rho> + \<mu>) \<and>
    (\<exists>W'. timeWheel_run (get10Ms (clock s')) (kw_wheel b) = (Ok (), W'))"
proof -
  have "kw_inv \<rho> \<mu> b" and "(ka_step out_handler (lateness \<rho> \<mu>))\<^sup>*\<^sup>* (s, st) (s', kw_started b)"
    using kw_run_refines[OF th.keeper_writes_axioms assms(5,6,7) kw_new_inv[OF assms(2-5)]] assms(8)
    by (simp_all add: kw_new_def)
  from reading_possible[OF this(1) assms(5)] dead_peer_bound[OF assms(1) _ _ this(2) assms(9-14)] assms(2,5,6,8)
  show ?thesis by (simp add: lateness_def)
qed

text \<open>A keeper is started, a message arrives, the wheel submits the first check, which finds it.\<close>

definition watch0 :: "unit trans_sys" where
  "watch0 = (trans0 [])\<lparr>nextKeeper := 0\<rparr>"

definition watch1 :: "unit trans_sys" where
  "watch1 = Keeper_Keepalive 0 (snd (NewKeeper params0 0 watch0))"

definition watch2 :: "unit trans_sys" where
  "watch2 = upd_ch 0 (\<lambda>ch. ch\<lparr>lastRead := 500000000\<rparr>) (watch1\<lparr>clock := 500000000\<rparr>)"

definition watch3 :: "unit trans_sys" where
  "watch3 = watch2\<lparr>clock := 1010000000\<rparr>"

definition watch4 :: "unit trans_sys" where
  "watch4 = snd (run_timer out_handler (HealthFn 0) (watch3\<lparr>timers := []\<rparr>))"

lemmas watch_defs = watch4_def watch3_def watch2_def watch1_def watch0_def trans0_def channel0_def keeper0_def params0_def
  health0_def NewKeeper_def Keeper_Keepalive_def Timer_AfterFunc_def second_def upd_ch_def run_timer_def health_fn_def Let_def
  Readable_def calState_def state_defs LastRead_def

lemma watch_facts:
  "timers watch0 = []" "clock watch0 = 0" "nextKeeper watch0 = 0"
  "timers watch1 = [(1000000000, HealthFn 0)]" "clock watch1 = 0" "timers watch2 = timers watch1" "timers watch3 = timers watch1"
  "clock watch2 = 500000000" "clock watch3 = 1010000000" "timers watch4 = [(1500000000, HealthFn 0)]" "clock watch4 = 1010000000"
  "run_timer out_handler (HealthFn 0) (watch3\<lparr>timers := []\<rparr>) = (Ok (), watch4)"
  by (simp_all add: watch_defs)

definition watch_kw ::
    "('v, 'z) ka_sys_scheme \<Rightarrow> timeWheel \<Rightarrow> (int \<times> timerFn) list \<Rightarrow> ((int \<times> timerFn) \<times> int) list \<Rightarrow> ('v, 'z) kwheel" where
  "watch_kw s W log q = \<lparr>kw_sys = s, kw_started = (\<lambda>_. 0), kw_wheel = W, kw_log = log, kw_queue = q\<rparr>"

lemma watch_kw_simps [simp]:
  "kw_sys (watch_kw s W log q) = s" "kw_started (watch_kw s W log q) = (\<lambda>_. 0)" "kw_wheel (watch_kw s W log q) = W"
  "kw_log (watch_kw s W log q) = log" "kw_queue (watch_kw s W log q) = q"
  "(watch_kw s W log q)\<lparr>kw_sys := s'\<rparr> = watch_kw s' W log q" "(watch_kw s W log q)\<lparr>kw_wheel := W'\<rparr> = watch_kw s W' log q"
  "(watch_kw s W log q)\<lparr>kw_log := log'\<rparr> = watch_kw s W log' q" "(watch_kw s W log q)\<lparr>kw_queue := q'\<rparr> = watch_kw s W log q'"
  "(watch_kw s W log q)\<lparr>kw_started := (\<lambda>_. 0)\<rparr> = watch_kw s W log q"
  by (simp_all add: watch_kw_def)

lemma single_fires:
  assumes k: "keeps W [x] {#x#}" and c: "clocked \<rho> W now" and "0 \<le> \<rho>" and late: "fst x < get10Ms now * 10000000"
  obtains W' p where "timeWheel_run (get10Ms now) W = (Ok (), W')" and "drop (length (submitted W)) (submitted W') = [p]"
    and "request [x] W' p = x" and "keeps W' [x] {#}" and "clocked \<rho> W' now"
proof -
  obtain W' fs R where r: "timeWheel_run (get10Ms now) W = (Ok (), W')" "drop (length (submitted W)) (submitted W') = fs"
      "clocked \<rho> W' now" "keeps W' [x] R" "{#x#} = R + mset (map (request [x] W') fs)" "curTimePoint W' = get10Ms now"
      "\<forall>p\<in>set fs. now \<le> fst (request [x] W' p) + 10000000 + \<rho>"
    using reading_inv[OF c k assms(3)] .
  have "x \<notin># R"
  proof
    assume "x \<in># R"
    from keeps_due[OF r(4) this] late show False by (simp add: r(6))
  qed
  with r(5)[symmetric] have R: "R = {#}" "mset (map (request [x] W') fs) = {#x#}" by (auto simp only: union_is_single set_mset_single)
  then have "map (request [x] W') fs = [x]" by (simp only: mset_single_iff)
  then obtain p where "fs = [p]" "request [x] W' p = x" by auto
  then show thesis using that r(1-4) R(1) by simp
qed

lemma watch_start:
  assumes "wheel_arm 0 [(1000000000, HealthFn 0)] (W, []) = (Ok (), W', log')"
  shows "kw_step out_handler \<rho> \<mu> (watch_kw watch0 W [] []) (watch_kw watch1 W' log' [])"
proof -
  have u: "\<forall>hp. healthParams params0 = Some hp \<longrightarrow> usable_health hp"
      "NewKeeper params0 0 watch0 = (0, snd (NewKeeper params0 0 watch0))"
    by (simp_all add: usable_health_def watch_defs)
  have d: "int64_durations 0 [(1000000000, HealthFn 0)]" by (simp add: int64_durations_def)
  have z: "((\<lambda>_. 0)(0 := 0) :: nat \<Rightarrow> int) = (\<lambda>_. 0)" by (rule ext) simp
  show ?thesis
    using kw_step.start[of params0 0 "watch_kw watch0 W [] []" 0 "snd (NewKeeper params0 0 watch0)" watch1 "timers watch1" W' log' out_handler \<rho> \<mu>]
      u d assms by (simp only: watch_kw_simps z watch_facts watch1_def[symmetric] list.size drop_0 simp_thms)
qed

lemma watch_message: "kw_step out_handler \<rho> \<mu> (watch_kw (watch1\<lparr>clock := 500000000\<rparr>) W log q) (watch_kw watch2 W log q)"
proof -
  have "calm (watch1\<lparr>clock := 500000000\<rparr>) watch2" by (simp add: calm_def watch_defs)
  from kw_step.other[of "watch_kw (watch1\<lparr>clock := 500000000\<rparr>) W log q" watch2, OF _] this show ?thesis
    by (simp only: watch_kw_simps)
qed

lemma watch_check:
  assumes "wheel_arm 1010000000 [(1500000000, HealthFn 0)] (W, log) = (Ok (), W', log')"
  shows "kw_step out_handler \<rho> \<mu> (watch_kw watch3 W log [((1000000000, HealthFn 0), \<tau>)]) (watch_kw watch4 W' log' [])"
proof -
  have d: "int64_durations 1010000000 [(1500000000, HealthFn 0)]" by (simp add: int64_durations_def)
  show ?thesis
    using kw_step.run[of 1000000000 "HealthFn 0" \<tau> "watch_kw watch3 W log [((1000000000, HealthFn 0), \<tau>)]" "watch3\<lparr>timers := []\<rparr>"
        out_handler watch4 "[(1500000000, HealthFn 0)]" W' log' \<rho> \<mu>] d assms
    by (simp add: watch_facts)
qed

lemma watch_time:
  assumes "clock s \<le> n" and "n < 2 ^ 63" and "n < (curTimePoint W + 1) * 10000000 + \<rho>"
  shows "kw_step oh \<rho> \<mu> (watch_kw s W log []) (watch_kw (s\<lparr>clock := n\<rparr>) W log [])"
  using kw_step.time[of "watch_kw s W log []" n \<rho> \<mu> oh] assms by simp

lemma watch_reading:
  assumes "timeWheel_run (get10Ms (clock s)) W = (Ok (), W')" and "drop (length (submitted W)) (submitted W') = [p]"
  shows "kw_step oh \<rho> \<mu> (watch_kw s W log []) (watch_kw s W' log [(request log W' p, clock s)])"
  using kw_step.reading[of "watch_kw s W log []" W' "[p]" oh \<rho> \<mu>] assms by simp

lemma watch_run:
  "\<exists>b. (kw_step out_handler 2000000000 0)\<^sup>*\<^sup>* (kw_new watch0 (\<lambda>_. 0)) b \<and> kw_sys b = watch4 \<and> kw_started b = (\<lambda>_. 0)"
proof -
  let ?R = "kw_step out_handler 2000000000 0" and ?x = "(1000000000, HealthFn 0)" and ?y = "(1500000000, HealthFn 0)"
  have g: "get10Ms 0 = 0" "get10Ms 1010000000 = 101" by (simp_all add: get10Ms_nonneg)
  have 0: "kw_new watch0 (\<lambda>_. 0) = watch_kw watch0 (newTimeWheel 0) [] []"
    by (simp only: kw_new_def Timer_init_def watch_kw_def watch_facts g)
  obtain W1 where W1: "wheel_arm 0 [?x] (newTimeWheel 0, []) = (Ok (), W1, [?x])" "keeps W1 [?x] {#?x#}" "jiffies W1 = 0" "curTimePoint W1 = 0"
    using wheel_arm_ok[OF keeps_new[of 0], of 0 "[?x]"] by (auto simp: newTimeWheel_data int64_durations_def)
  have c: "clocked 2000000000 W1 1010000000" by (simp add: clocked_def W1)
  obtain W2 p where W2: "timeWheel_run (get10Ms 1010000000) W1 = (Ok (), W2)" "drop (length (submitted W1)) (submitted W2) = [p]"
      "request [?x] W2 p = ?x" "keeps W2 [?x] {#}" "clocked 2000000000 W2 1010000000"
    by (rule single_fires[OF W1(2) c]) (simp_all add: g)
  obtain W3 where W3: "wheel_arm 1010000000 [?y] (W2, [?x]) = (Ok (), W3, [?x] @ [?y])"
    using wheel_arm_ok[OF W2(4), of 1010000000 "[?y]"] W2(5) by (auto simp: clocked_def int64_durations_def)
  have "?R (watch_kw watch0 (newTimeWheel 0) [] []) (watch_kw watch1 W1 [?x] [])" by (rule watch_start[OF W1(1)])
  moreover have "?R (watch_kw watch1 W1 [?x] []) (watch_kw (watch1\<lparr>clock := 500000000\<rparr>) W1 [?x] [])"
    by (rule watch_time) (simp_all add: watch_facts W1(4))
  moreover note watch_message
  moreover have "?R (watch_kw watch2 W1 [?x] []) (watch_kw watch3 W1 [?x] [])"
    unfolding watch3_def by (rule watch_time) (simp_all add: watch_facts W1(4))
  moreover have "?R (watch_kw watch3 W1 [?x] []) (watch_kw watch3 W2 [?x] [(?x, 1010000000)])"
    using watch_reading[of watch3 W1 W2 p out_handler 2000000000 0 "[?x]"] W2(1-3) by (simp only: watch_facts)
  moreover note watch_check[OF W3]
  ultimately have "?R\<^sup>*\<^sup>* (watch_kw watch0 (newTimeWheel 0) [] []) (watch_kw watch4 W3 ([?x] @ [?y]) [])"
    by (meson rtranclp.intros)
  then show ?thesis unfolding 0 by (intro exI[of _ "watch_kw watch4 W3 ([?x] @ [?y]) []"] conjI) simp_all
qed

theorem dead_peer_closed_in_time_witness:
  "\<exists>b. (kw_step out_handler 2000000000 0)\<^sup>*\<^sup>* (kw_new watch0 (\<lambda>_. 0)) b \<and> kw_sys b = watch4 \<and>
     clock watch4 \<le> max (lastRead (chans watch4 0) + second) (max (kw_started b 0 + second) (lastPong (keepers watch4 0) + second))
       + second + 2 * (10000000 + 2000000000 + 0) \<and> clock watch4 = 1010000000 \<and> lastRead (chans watch4 0) = 500000000"
proof -
  obtain b where b: "(kw_step out_handler 2000000000 0)\<^sup>*\<^sup>* (kw_new watch0 (\<lambda>_. 0)) b" "kw_sys b = watch4" "kw_started b = (\<lambda>_. 0)"
    using watch_run by blast
  have f: "0 < nextKeeper watch4" "\<not> k_done (keepers watch4 0)" "k_ch (keepers watch4 0) = 0" "Readable (chans watch4 0)"
      "healthParams (kp (keepers watch4 0)) = Some health0" "lastRead (chans watch4 0) = 500000000"
      "Time health0 = second" "Timeout health0 = second"
    by (simp_all add: watch_defs)
  from dead_peer_closed_in_time[OF _ _ _ _ _ _ b(1,2) f(1-5)] b f(6-8) show ?thesis
    by (intro exI[of _ b]) (simp add: watch_facts second_def)
qed

end
