(* ===== verification/Registry.thy ===== *)
theory Registry
  imports TransProps
begin

text \<open>
  The whole system in motion: the events of the transport handler together with the goroutines, the
  handlers and the closing calls of its channels. Its invariant ties the table of channels to the
  life of the channels and to the pool of pipelines.
\<close>

section \<open>Accepting a connection, step by step\<close>

text \<open>
  \<open>OnConnect\<close> is not atomic: once the channel has been activated, other goroutines may use and close
  it before it is in the table. The stages of a call after the activation: the keeper is about to be
  made, the counter to be raised, the channel to be stored, the deferred function to be run.
\<close>

datatype stage = AtKeepalive ctx | AtInc ctx registered | AtStore ctx registered | AtReturn "ctx outcome"

text \<open>
  Up to the activation the channel is inactive and known to its own goroutine only, so nobody can
  close it: the first step is everything up to and including \<open>Activate\<close>. A connection that is refused
  leaves nothing behind.
\<close>

definition connect_start ::
    "('v, ('v, 'z) trans_sys_scheme) app \<Rightarrow> plid option \<Rightarrow> ctx \<Rightarrow> connid \<Rightarrow>
     ('v, 'z) trans_sys_scheme \<Rightarrow> (chid \<times> stage) option \<times> ('v, 'z) trans_sys_scheme" where
  "connect_start ap pick x con s =
     (if \<not> isActive s then (None, s)
      else if 0 < maxChannelSize (th_ops s) \<and> AtomicInt64_Value (channelCount s) > uint (maxChannelSize (th_ops s)) then (None, s)
      else case NewChannel con (th_side s) pick s of
             (Ok c, s1) \<Rightarrow>
               (case channel_Activate (app_onChannel ap) x c s1 of
                  (Ok _, s2) \<Rightarrow> (Some (c, AtKeepalive x), s2)
                | (Err e, s2) \<Rightarrow> (Some (c, AtReturn (Err e)), s2)
                | (Panic q, s2) \<Rightarrow> (Some (c, AtReturn (Panic q)), s2)
                | (Hang, s2) \<Rightarrow> (Some (c, AtReturn Hang), s2))
           | (_, s1) \<Rightarrow> (None, s1))"

fun connect_next :: "chid \<Rightarrow> stage \<Rightarrow> ('v, 'z) trans_sys_scheme \<Rightarrow> stage option \<times> ('v, 'z) trans_sys_scheme" where
  "connect_next c (AtKeepalive x) s =
     (case prepareKeepalive c s of
        (Ok k, s1) \<Rightarrow> (Some (AtInc x k), s1)
      | (Err e, s1) \<Rightarrow> (Some (AtReturn (Err e)), s1)
      | (Panic q, s1) \<Rightarrow> (Some (AtReturn (Panic q)), s1)
      | (Hang, s1) \<Rightarrow> (Some (AtReturn Hang), s1))"
| "connect_next c (AtInc x k) s = (Some (AtStore x k), s\<lparr>channelCount := fst (AtomicInt64_Inc (channelCount s))\<rparr>)"
| "connect_next c (AtStore x k) s = (Some (AtReturn (Ok (WithChannel x c))), s\<lparr>th_channels := (th_channels s)(c \<mapsto> k)\<rparr>)"
| "connect_next c (AtReturn out) s = (None, snd (connect_deferred (Some c) (out, s)))"

text \<open>The stages one after the other, with nothing in between, are the whole call.\<close>

fun connect_finish :: "nat \<Rightarrow> chid \<Rightarrow> stage \<Rightarrow> ('v, 'z) trans_sys_scheme \<Rightarrow> ('v, 'z) trans_sys_scheme" where
  "connect_finish 0 c st s = s"
| "connect_finish (Suc n) c st s =
     (case connect_next c st s of (None, s1) \<Rightarrow> s1 | (Some st1, s1) \<Rightarrow> connect_finish n c st1 s1)"

lemma connect_None [simp]: "snd (connect_deferred None (out, s)) = s"
  by (simp add: connect_deferred_def Let_def split: option.split)

lemma OnConnect_stages:
  "snd (OnConnect ap pick x con s) =
     (case connect_start ap pick x con s of (None, s1) \<Rightarrow> s1 | (Some (c, st), s1) \<Rightarrow> connect_finish 4 c st s1)"
proof (cases "isActive s \<and> \<not> (0 < maxChannelSize (th_ops s) \<and> channelCount s > uint (maxChannelSize (th_ops s)))")
  case False
  then show ?thesis by (auto simp: OnConnect_def connect_start_def)
next
  case True
  then have g: "isActive s" "(0 < maxChannelSize (th_ops s) \<and> channelCount s > uint (maxChannelSize (th_ops s))) = False" by blast+
  obtain o1 s1 where n: "NewChannel con (th_side s) pick s = (o1, s1)" by fastforce
  show ?thesis
  proof (cases o1)
    case (Ok c)
    obtain o2 s2 where a: "channel_Activate (app_onChannel ap) x c s1 = (o2, s2)" by fastforce
    obtain o3 s3 where k: "prepareKeepalive c s2 = (o3, s3)" by fastforce
    show ?thesis
      using g n Ok a k by (cases o2; cases o3) (simp_all add: OnConnect_def connect_start_def eval_nat_numeral, blast+)
  qed (use g n in \<open>auto simp: OnConnect_def connect_start_def\<close>)
qed

section \<open>Steps\<close>

text \<open>
  A run of the whole system: the channels with their handlers and goroutines, the connections that are
  being accepted, and the channels that were entered in the table when their hooks on closing, which
  take a channel out of the table, had already been called.
\<close>

record 's sysrun =
  r_life :: "'s life"
  accepting :: "(chid \<times> stage) list"
  late :: "chid set"

definition hooks_over :: "chid \<Rightarrow> ('v, 'z) chan_sys_scheme \<Rightarrow> bool" where
  "hooks_over c s \<longleftrightarrow> ch_done (chans s c) \<or> (\<exists>x. CloseWaitWrite c x \<in> set (tasks s))"

fun stores :: "stage \<Rightarrow> bool" where
  "stores (AtStore x k) = True"
| "stores _ = False"

definition go :: "'s sysrun \<Rightarrow> 's \<Rightarrow> 's sysrun" where
  "go r s = r\<lparr>r_life := (r_life r)\<lparr>lsys := s\<rparr>\<rparr>"

text \<open>
  A handler runs on a channel that exists, a connection takes a pipeline that the pool has. Hooks on
  closing are called by the goroutines of \<open>Close\<close> only.
\<close>

inductive sys_step ::
    "('v, ('v, 'z) trans_sys_scheme) app \<Rightarrow> ('v, 'z) trans_sys_scheme sysrun \<Rightarrow> ('v, 'z) trans_sys_scheme sysrun \<Rightarrow> bool"
  for ap where
  channels: "life_step (closed_hook ap) (r_life r) l' \<Longrightarrow> \<forall>x\<in>set (inflight l'). fst x < nextCh (lsys l') \<Longrightarrow>
    sys_step ap r (r\<lparr>r_life := l'\<rparr>)"
| connect: "connect_start ap pick x con (lsys (r_life r)) = (st, s') \<Longrightarrow>
    \<forall>p. pick = Some p \<longrightarrow> p \<in> set (pool (lsys (r_life r))) \<Longrightarrow>
    sys_step ap r ((go r s')\<lparr>accepting := (case st of None \<Rightarrow> [] | Some e \<Rightarrow> [e]) @ accepting r\<rparr>)"
| connecting: "(c, st) \<in> set (accepting r) \<Longrightarrow> connect_next c st (lsys (r_life r)) = (st', s') \<Longrightarrow>
    sys_step ap r ((go r s')\<lparr>accepting := (case st' of None \<Rightarrow> [] | Some st1 \<Rightarrow> [(c, st1)]) @ remove1 (c, st) (accepting r),
      late := late r \<union> {d. d = c \<and> stores st \<and> hooks_over c (lsys (r_life r))}\<rparr>)"
| message: "OnMessage p x (lsys (r_life r)) = (res, s') \<Longrightarrow> sys_step ap r (go r s')"
| conn_closed: "OnConnClosed x err (lsys (r_life r)) = (res, s') \<Longrightarrow> sys_step ap r (go r s')"
| send: "OnWrite c w m (lsys (r_life r)) = (res, s') \<Longrightarrow> sys_step ap r (go r s')"
| shutdown: "distinct cs \<Longrightarrow> set cs = dom (th_channels (lsys (r_life r))) \<Longrightarrow>
    sys_step ap r (go r (th_Close x err cs (lsys (r_life r))))"
| shutdown_task: "CloseChannelTask x c err \<in> set (tasks (lsys (r_life r))) \<Longrightarrow>
    sys_step ap r (go r (run_closeChannel x c err (lsys (r_life r))))"

section \<open>Invariant\<close>

definition starts_closing :: "pipeline \<Rightarrow> bool" where
  "starts_closing pl \<longleftrightarrow> (\<exists>hs. onChannelClosedChain pl = CloseChannelHook # hs)"

text \<open>The pool holds pipelines that belong to no channel, and every pipeline unregisters its channel first.\<close>

definition pipes_ok :: "('v, 'z) chan_sys_scheme \<Rightarrow> bool" where
  "pipes_ok s \<longleftrightarrow> distinct (pool s) \<and> (\<forall>p\<in>set (pool s). p < nextPl s \<and> pl_ch (pls s p) = None) \<and>
     (\<forall>p<nextPl s. starts_closing (pls s p)) \<and> (\<exists>pl. poolNew s = Some pl \<and> starts_closing pl)"

definition pool_ok :: "('v, 'z) chan_sys_scheme \<Rightarrow> bool" where
  "pool_ok s \<longleftrightarrow> pipes_ok s \<and>
     (\<forall>c. \<not> ch_done (chans s c) \<longrightarrow> ch_pl (chans s c) < nextPl s) \<and> (\<forall>c\<ge>nextCh s. ch_done (chans s c))"

definition registered_ok :: "chid set \<Rightarrow> ('v, 'z) trans_sys_scheme \<Rightarrow> bool" where
  "registered_ok L s \<longleftrightarrow> (\<forall>c\<in>dom (th_channels s) - L. \<not> ch_done (chans s c) \<and> (\<forall>x. CloseWaitWrite c x \<notin> set (tasks s)))"

definition life_ok :: "chid set \<Rightarrow> ('v, 'z) trans_sys_scheme life \<Rightarrow> bool" where
  "life_ok L l \<longleftrightarrow> life_inv l \<and> pool_ok (lsys l) \<and> registered_ok L (lsys l) \<and>
     (\<forall>x\<in>set (inflight l @ leaked l). fst x < nextCh (lsys l))"

definition sys_inv :: "('v, 'z) trans_sys_scheme sysrun \<Rightarrow> bool" where
  "sys_inv r \<longleftrightarrow> life_ok (late r) (r_life r)"

section \<open>Steps that only touch what the invariant does not speak of\<close>

definition mild :: "('v, 'z) trans_sys_scheme \<Rightarrow> ('v, 'z) trans_sys_scheme \<Rightarrow> bool" where
  "mild s s' \<longleftrightarrow> nextCh s' = nextCh s \<and> nextPl s' = nextPl s \<and> pool s' = pool s \<and> poolNew s' = poolNew s \<and>
     (\<forall>c. ch_done (chans s' c) = ch_done (chans s c) \<and> ch_pl (chans s' c) = ch_pl (chans s c)) \<and>
     (\<forall>p. pl_ch (pls s' p) = pl_ch (pls s p) \<and> onChannelClosedChain (pls s' p) = onChannelClosedChain (pls s p)) \<and>
     dom (th_channels s') \<subseteq> dom (th_channels s) \<and>
     (\<forall>c x. CloseWaitWrite c x \<in> set (tasks s') \<longrightarrow> CloseWaitWrite c x \<in> set (tasks s))"

definition tame :: "('v, 'z) trans_sys_scheme \<Rightarrow> ('v, 'z) trans_sys_scheme \<Rightarrow> bool" where
  "tame s s' \<longleftrightarrow> mild s s' \<and> (\<forall>c. ch_tasks (chans s' c) = ch_tasks (chans s c)) \<and> (closing_ok s \<longrightarrow> closing_ok s')"

lemma tame_refl [simp]: "tame s s"
  by (simp add: tame_def mild_def)

lemma mild_trans: "mild s t \<Longrightarrow> mild t u \<Longrightarrow> mild s u"
  unfolding mild_def by (elim conjE, intro conjI allI impI) (auto simp: subset_iff dest: subsetD)

lemma tame_trans: "tame s t \<Longrightarrow> tame t u \<Longrightarrow> tame s u"
  using mild_trans by (auto simp: tame_def)

lemma mild_pool: "mild s s' \<Longrightarrow> pool_ok s \<Longrightarrow> pool_ok s'"
  by (simp add: mild_def pool_ok_def pipes_ok_def starts_closing_def)

lemma mild_registered: "mild s s' \<Longrightarrow> registered_ok L s \<Longrightarrow> registered_ok L s'"
  unfolding mild_def registered_ok_def by blast

lemma mild_linked: "mild s s' \<Longrightarrow> linked_pl s \<Longrightarrow> linked_pl s'"
  by (simp add: mild_def linked_pl_def)

lemma tame_inv:
  assumes "life_ok L l" and t: "tame (lsys l) s'"
  shows "life_ok L (l\<lparr>lsys := s'\<rparr>)"
proof -
  have m: "mild (lsys l) s'" using t by (simp add: tame_def)
  show ?thesis
    using assms mild_pool[OF m] mild_registered[OF m] mild_linked[OF m] m
    by (simp add: life_ok_def life_inv_def tame_def mild_def)
qed

lemma tame_Submit: "(\<forall>c. \<not> is_closer c x) \<Longrightarrow> tame s (Submit x s)"
  by (cases x) (auto simp: tame_def mild_def Submit_def closing_ok_def closers_def)

lemma tame_drop: "x \<in> set (tasks s) \<Longrightarrow> tame s (drop_task x s)"
  using closing_ok_drop[of s x] by (auto simp: tame_def mild_def drop_task_def dest: set_remove1_subset[THEN subsetD])

lemma tame_Close: "tame s (snd (channel_Close x err c s))"
proof -
  obtain out s' where c: "channel_Close x err c s = (out, s')" by fastforce
  have "closing_ok s \<longrightarrow> closing_ok s'" using channel_Close_life(1)[OF c] by blast
  moreover have "s' = s \<or> s' = Submit (CloseWaitRead c x err) (upd_ch c (\<lambda>ch. ch\<lparr>ch_state := inactive\<rparr>) s)"
    using channel_Close_cases[OF c] by blast
  ultimately show ?thesis unfolding c by (auto simp: tame_def mild_def Submit_def upd_ch_def split: if_splits)
qed

lemma upd_ch_more [simp]: "nextPl (upd_ch c f s) = nextPl s" "poolNew (upd_ch c f s) = poolNew s"
  by (simp_all add: upd_ch_def)

lemma upd_ch_table [simp]: "th_channels (upd_ch c f s) = th_channels s"
  by (simp add: upd_ch_def)

lemma tame_SetContext: "tame s (SetContext c x s)"
  by (simp add: SetContext_def tame_def mild_def closing_ok_def)

lemma tame_active: "closers c s = 0 \<Longrightarrow> \<not> ch_done (chans s c) \<Longrightarrow> tame s (active c s)"
  by (simp add: active_def tame_def mild_def closing_ok_def)

text \<open>Changes outside of channels, pipelines, tasks and the table.\<close>

definition elsewhere :: "('v, 'z) trans_sys_scheme \<Rightarrow> ('v, 'z) trans_sys_scheme \<Rightarrow> bool" where
  "elsewhere s s' \<longleftrightarrow> chans s' = chans s \<and> nextCh s' = nextCh s \<and> pls s' = pls s \<and> nextPl s' = nextPl s \<and> pool s' = pool s \<and>
     poolNew s' = poolNew s \<and> tasks s' = tasks s \<and> dom (th_channels s') \<subseteq> dom (th_channels s)"

lemma elsewhere_tame: "elsewhere s s' \<Longrightarrow> tame s s'"
  by (simp add: elsewhere_def tame_def mild_def closing_ok_def closers_def)

lemma elsewhere_trans: "elsewhere s t \<Longrightarrow> elsewhere t u \<Longrightarrow> elsewhere s u"
  by (simp add: elsewhere_def) blast

lemma elsewhere_simps [simp]:
  "elsewhere s s" "elsewhere s (s\<lparr>conns := f\<rparr>)" "elsewhere s (took c r s)" "elsewhere s (Keeper_Close k s)"
  "elsewhere s (s\<lparr>channelCount := n\<rparr>)" "elsewhere s (s\<lparr>th_channels := (th_channels s)(c := None)\<rparr>)"
  "elsewhere s (Timer_AfterFunc d fn s)" "elsewhere s (s\<lparr>th_state := q, closingCtx := y\<rparr>)"
  "elsewhere s (s\<lparr>clock := t\<rparr>)" "elsewhere s (s\<lparr>ctxDone := g\<rparr>)"
  by (auto simp: elsewhere_def took_def Let_def Keeper_Close_def upd_k_def Timer_AfterFunc_def split: option.split)

lemma tame_closeChannel: "tame s (closeChannel x c err s)"
proof (cases "th_channels s c")
  case (Some v)
  let ?s1 = "s\<lparr>th_channels := (th_channels s)(c := None)\<rparr>"
  let ?s2 = "case v of RegKeeper k \<Rightarrow> Keeper_Close k ?s1 | RegNone \<Rightarrow> ?s1"
  have "elsewhere ?s1 ?s2" by (cases v) simp_all
  then have "elsewhere s (?s2\<lparr>channelCount := channelCount ?s2 - 1\<rparr>)"
    using elsewhere_trans[OF elsewhere_trans[OF elsewhere_simps(6) _] elsewhere_simps(5)] by blast
  from tame_trans[OF elsewhere_tame[OF this] tame_Close] Some show ?thesis by (simp add: closeChannel_def Let_def)
qed (simp add: closeChannel_def)

lemma closeChannel_inactive:
  assumes "ch_state (chans s c) = inactive"
  shows "elsewhere s (closeChannel x c err s) \<and> th_channels (closeChannel x c err s) c = None"
proof (cases "th_channels s c")
  case (Some v)
  let ?s1 = "s\<lparr>th_channels := (th_channels s)(c := None)\<rparr>"
  let ?s2 = "case v of RegKeeper k \<Rightarrow> Keeper_Close k ?s1 | RegNone \<Rightarrow> ?s1"
  let ?s3 = "?s2\<lparr>channelCount := channelCount ?s2 - 1\<rparr>"
  have e: "elsewhere ?s1 ?s2" by (cases v) simp_all
  have n: "th_channels ?s2 c = None" by (cases v) (simp_all add: Keeper_Close_def upd_k_def)
  have el: "elsewhere s ?s3" using elsewhere_trans[OF elsewhere_trans[OF elsewhere_simps(6) e] elsewhere_simps(5)] .
  then have "ch_state (chans ?s3 c) = inactive" using assms by (simp add: elsewhere_def)
  then have "closeChannel x c err s = ?s3" using Some by (simp add: closeChannel_def Let_def channel_Close_def)
  with el n show ?thesis by simp
qed (simp add: closeChannel_def)

section \<open>Hooks of the application\<close>

text \<open>
  A hook that accepts a channel may give it middlewares and hooks of its own, and change what belongs
  to the application.
\<close>

locale system_hooks = app_hooks +
  assumes onChannel_frame: "app_onChannel ap h y c s = (o', s') \<Longrightarrow>
      chans s' = chans s \<and> tasks s' = tasks s \<and> nextPl s' = nextPl s \<and> pool s' = pool s \<and> poolNew s' = poolNew s \<and>
      (\<forall>p. pl_ch (pls s' p) = pl_ch (pls s p) \<and> onChannelClosedChain (pls s' p) = onChannelClosedChain (pls s p))"
    and closed_pool: "app_closed ap n x c err s = (out, s') \<Longrightarrow> nextPl s' = nextPl s \<and> pool s' = pool s \<and> poolNew s' = poolNew s"
begin

lemma closed_hook_elsewhere:
  assumes "closed_hook ap h x c err s = (out, s')" and "ch_state (chans s c) = inactive"
  shows "elsewhere s s'" and "h = CloseChannelHook \<Longrightarrow> out = Ok () \<and> th_channels s' c = None"
proof -
  consider "h = CloseChannelHook" "out = Ok ()" "s' = closeChannel x c err s" | n where "h = UserClosed n" "app_closed ap n x c err s = (out, s')"
    using assms(1) by (cases h) simp_all
  then have "elsewhere s s' \<and> (h = CloseChannelHook \<longrightarrow> out = Ok () \<and> th_channels s' c = None)"
  proof cases
    case 1
    from closeChannel_inactive[OF assms(2), of x err] 1 show ?thesis by simp
  next
    case 2
    note f = closed_frame[OF assms(2) 2(2)] closed_pool[OF 2(2)]
    have t: "same_table s s'" by (rule closed_table[OF 2(2)])
    from f t have "elsewhere s s'" by (simp add: elsewhere_def same_table_def)
    with 2(1) show ?thesis by simp
  qed
  then show "elsewhere s s'" "h = CloseChannelHook \<Longrightarrow> out = Ok () \<and> th_channels s' c = None" by blast+
qed

lemma fire_closed_elsewhere:
  "fire_onChannelClosed (closed_hook ap) hs c err s = (out, s') \<Longrightarrow> ch_state (chans s c) = inactive \<Longrightarrow>
   elsewhere s s'"
proof (induction hs arbitrary: s)
  case (Cons h hs)
  obtain o1 s1 where h: "closed_hook ap h (ch_ctx (chans s c)) c err s = (o1, s1)" by fastforce
  note e = closed_hook_elsewhere(1)[OF h Cons.prems(2)]
  show ?case
  proof (cases o1)
    case (Ok a)
    with Cons.prems(1) h have "fire_onChannelClosed (closed_hook ap) hs c err s1 = (out, s')" by simp
    moreover have "ch_state (chans s1 c) = inactive" using e Cons.prems(2) by (simp add: elsewhere_def)
    ultimately show ?thesis using Cons.IH e elsewhere_trans by blast
  qed (use Cons.prems(1) h e in auto)
qed simp

text \<open>After the hooks have run, the channel is not registered any more.\<close>

lemma FireOnChannelClosed_unregisters:
  assumes "FireOnChannelClosed (closed_hook ap) p err s = (out, s')" and "pl_ch (pls s p) = Some c"
    and "ch_state (chans s c) = inactive" and "starts_closing (pls s p)"
  shows "elsewhere s s'" and "th_channels s' c = None"
proof -
  obtain hs where hs: "onChannelClosedChain (pls s p) = CloseChannelHook # hs" using assms(4) by (auto simp: starts_closing_def)
  obtain o1 s1 where h: "closed_hook ap CloseChannelHook (ch_ctx (chans s c)) c err s = (o1, s1)" by fastforce
  note e = closed_hook_elsewhere[OF h assms(3)]
  then have f: "fire_onChannelClosed (closed_hook ap) (hs @ chocc (pls s p)) c err s1 = (out, s')"
    using assms(1,2) hs h by (simp add: FireOnChannelClosed_def Let_def)
  have "ch_state (chans s1 c) = inactive" using e(1) assms(3) by (simp add: elsewhere_def)
  note e2 = fire_closed_elsewhere[OF f this]
  show "elsewhere s s'" using e(1) e2 elsewhere_trans by blast
  show "th_channels s' c = None" using e(2) e2 by (auto simp: elsewhere_def)
qed

end

text \<open>The end of a channel that is not registered.\<close>

lemma close_finish_pool:
  assumes "close_finish c s = (out, s')" and "\<not> ch_done (chans s c)" and "linked_pl s" and "pool_ok s"
  shows "pool_ok s'"
proof -
  let ?p = "ch_pl (chans s c)"
  have "pl_ch (pls s ?p) = Some c" "?p < nextPl s" using assms(2-4) by (simp_all add: linked_pl_def pool_ok_def)
  moreover from this assms(4) have "?p \<notin> set (pool s)" by (auto simp: pool_ok_def pipes_ok_def)
  ultimately show ?thesis
    using assms(1,2,4)
    by (auto simp: close_finish_def Let_def pipeline_Release_def upd_pl_def upd_ch_def pool_ok_def pipes_ok_def starts_closing_def split: if_splits)
qed

lemma close_finish_table: "close_finish c s = (out, s') \<Longrightarrow> same_table s s'"
  by (auto simp: close_finish_def Let_def pipeline_Release_def upd_pl_def upd_ch_def same_table_def split: if_splits)

lemma close_finish_registered:
  assumes "close_finish c s = (out, s')" and "c \<notin> dom (th_channels s) - L" and "registered_ok L s"
  shows "registered_ok L s'"
proof -
  have "tasks s' = tasks s" "\<And>d. d \<noteq> c \<Longrightarrow> ch_done (chans s' d) = ch_done (chans s d)"
    using assms(1) by (auto simp: close_finish_def Let_def pipeline_Release_def upd_pl_def upd_ch_def split: if_splits)
  moreover have "th_channels s' = th_channels s" using close_finish_table[OF assms(1)] by (simp add: same_table_def)
  ultimately show ?thesis using assms(2,3) unfolding registered_ok_def by metis
qed

section \<open>Channels and their goroutines\<close>

lemma life_step_leaked: "life_step hook l l' \<Longrightarrow> set (leaked l') \<subseteq> set (inflight l) \<union> set (leaked l)"
  by (cases rule: life_step.cases) auto

text \<open>What a step of the channels does to table and pool.\<close>

definition keeps :: "chid set \<Rightarrow> ('v, 'z) trans_sys_scheme \<Rightarrow> ('v, 'z) trans_sys_scheme \<Rightarrow> bool" where
  "keeps L s s' \<longleftrightarrow> (closing_ok s \<and> linked_pl s \<and> pool_ok s \<and> registered_ok L s \<longrightarrow>
     nextCh s' = nextCh s \<and> pool_ok s' \<and> registered_ok L s')"

lemma mild_keeps: "mild s s' \<Longrightarrow> keeps L s s'"
  unfolding keeps_def using mild_pool mild_registered by (metis mild_def)

lemma drop_keeps: "x \<in> set (tasks s) \<Longrightarrow> mild s (drop_task x s)"
  using tame_drop by (auto simp: tame_def)

context system_hooks
begin

lemma writes_done_keeps:
  assumes "CloseWaitWrite c x \<in> set (tasks s)" and "close_finish c (drop_task (CloseWaitWrite c x) s) = (out, s')"
  shows "keeps L s s'"
proof -
  let ?s0 = "drop_task (CloseWaitWrite c x) s"
  have m: "mild s ?s0" by (rule drop_keeps[OF assms(1)])
  have st: "same_table s s'" using same_table_trans[OF same_table_ops(5) close_finish_table[OF assms(2)]] .
  show ?thesis
    unfolding keeps_def
  proof (intro conjI impI)
    show "nextCh s' = nextCh s" using st by (simp add: same_table_def)
    assume i: "closing_ok s \<and> linked_pl s \<and> pool_ok s \<and> registered_ok L s"
    have d: "\<not> ch_done (chans ?s0 c)" using closer_facts(2)[of s "CloseWaitWrite c x" c] assms(1) i by simp
    show "pool_ok s'" using close_finish_pool[OF assms(2) d mild_linked[OF m] mild_pool[OF m]] i by blast
    have "c \<notin> dom (th_channels s) - L" using i assms(1) unfolding registered_ok_def by blast
    then have "c \<notin> dom (th_channels ?s0) - L" by (simp add: drop_task_def)
    from close_finish_registered[OF assms(2) this mild_registered[OF m]] i show "registered_ok L s'" by blast
  qed
qed

lemma reads_done_keeps:
  assumes t: "CloseWaitRead c x err \<in> set (tasks s)"
    and h: "close_hooks (closed_hook ap) c x err (drop_task (CloseWaitRead c x err) s) = (out, s')"
    and i: "closing_ok s" "linked_pl s" "pool_ok s" "registered_ok L s"
  shows "nextCh s' = nextCh s" and "pool_ok s'" and "registered_ok L s'"
proof -
  let ?s0 = "drop_task (CloseWaitRead c x err) s" and ?p = "ch_pl (chans s c)"
  have m: "mild s ?s0" by (rule drop_keeps[OF t])
  note cf = closer_facts[OF i(1) t, of c, simplified]
  have p: "pl_ch (pls s ?p) = Some c" "starts_closing (pls s ?p)" using i(2,3) cf(2) by (simp_all add: linked_pl_def pool_ok_def pipes_ok_def)
  obtain o1 s1 where f: "FireOnChannelClosed (closed_hook ap) ?p err ?s0 = (o1, s1)" by fastforce
  have "ch_state (chans ?s0 c) = inactive" using cf(1) by simp
  note u = FireOnChannelClosed_unregisters[OF f _ this]
  have e: "elsewhere ?s0 s1" "th_channels s1 c = None" using u p by simp_all
  have m1: "mild s s1" using mild_trans[OF m] elsewhere_tame[OF e(1)] by (simp add: tame_def)
  have d1: "\<not> ch_done (chans s1 c)" using m1 cf(2) by (simp add: mild_def)
  have i1: "pool_ok s1" "registered_ok L s1" "linked_pl s1" using mild_pool[OF m1] mild_registered[OF m1] mild_linked[OF m1] i by blast+
  obtain o2 s2 where e2: "close_finish c s1 = (o2, s2)" by fastforce
  have o2: "o2 = Ok ()" using e2 d1 by (auto simp: close_finish_def Let_def)
  have "s' = s1 \<or> s' = s2 \<or> s' = Submit (CloseWaitWrite c x) s1"
    using h f e2 o2 by (cases o1) (auto simp: close_hooks_def split: if_splits)
  moreover have "nextCh s1 = nextCh s" using m1 by (simp add: mild_def)
  moreover have "nextCh s2 = nextCh s" "pool_ok s2" "registered_ok L s2"
    using close_finish_table[OF e2] m1 close_finish_pool[OF e2 d1 i1(3,1)]
      close_finish_registered[OF e2 _ i1(2)] e(2) by (simp_all add: same_table_def mild_def domIff)
  moreover have "nextCh (Submit (CloseWaitWrite c x) s1) = nextCh s" "pool_ok (Submit (CloseWaitWrite c x) s1)"
    using m1 i1(1) by (simp_all add: mild_def pool_ok_def pipes_ok_def Submit_def)
  moreover have "registered_ok L (Submit (CloseWaitWrite c x) s1)"
    using i1(2) e(2) by (auto simp: registered_ok_def Submit_def)
  ultimately show "nextCh s' = nextCh s" "pool_ok s'" "registered_ok L s'" using i1 by auto
qed

lemma life_step_keeps:
  assumes "life_step (closed_hook ap) l l'"
  shows "keeps L (lsys l) (lsys l')"
  using assms
proof cases
  case (begin_task e c)
  then show ?thesis
    by (intro mild_keeps) (auto simp: mild_def Recorder_enter_def addTask_def Let_def upd_ch_def Submit_def split: if_splits)
next
  case (end_task c e out er out' s')
  obtain o1 where "tasks_Done e c (lsys l) = (o1, s')" using Recorder_leave_returns[OF end_task(4,3)] by blast
  with end_task show ?thesis
    by (intro mild_keeps) (auto simp: mild_def tasks_Done_def upd_ch_def split: prod.splits if_splits)
next
  case (panic_task c e p out' s')
  then show ?thesis by (simp add: keeps_def)
next
  case (call_Close x err c out s')
  then show ?thesis using tame_Close[of "lsys l" x err c] by (intro mild_keeps) (auto simp: tame_def)
next
  case (call_CloseReader c)
  then show ?thesis
    by (intro mild_keeps) (auto simp: mild_def CloseReader_def channel_close_def upd_ch_def split: if_splits)
next
  case (call_CloseWriter c)
  then show ?thesis
    by (intro mild_keeps) (auto simp: mild_def CloseWriter_def channel_close_def upd_ch_def split: if_splits)
next
  case (reads_done c x err out s')
  then show ?thesis using reads_done_keeps[OF reads_done(2,4), where L = L] by (simp add: keeps_def)
next
  case (writes_done c x out s')
  then show ?thesis using writes_done_keeps[OF writes_done(2,4)] by simp
next
  case (idle_wait c)
  then show ?thesis
    using mild_trans[OF drop_keeps[OF idle_wait(2)], of "lsys l'"] by (intro mild_keeps) (auto simp: mild_def Submit_def)
next
  case (idle_fin c)
  then show ?thesis using drop_keeps[OF idle_fin(2)] by (intro mild_keeps) (auto simp: mild_def upd_ch_def)
next
  case (idle_done x c)
  then show ?thesis using drop_keeps[OF idle_done(3)] by (intro mild_keeps) simp_all
next
  case (time_passes n)
  then show ?thesis by (intro mild_keeps) (auto simp: mild_def)
next
  case (ctx_ends x)
  then show ?thesis by (intro mild_keeps) (auto simp: mild_def)
qed

lemma channels_inv:
  assumes "life_step (closed_hook ap) l l'" and "\<forall>x\<in>set (inflight l'). fst x < nextCh (lsys l')" and inv: "life_ok L l"
  shows "life_ok L l'"
proof -
  have k: "keeps L (lsys l) (lsys l')" by (rule life_step_keeps[OF assms(1)])
  have "fst x < nextCh (lsys l')" if "x \<in> set (leaked l')" for x
    using life_step_leaked[OF assms(1)] that inv k by (auto simp: life_ok_def life_inv_def keeps_def)
  with k inv assms(2) life_inv_step[OF assms(1)] show ?thesis by (auto simp: life_ok_def keeps_def life_inv_def)
qed

lemma fire_onChannel_frame:
  "fire_onChannel (app_onChannel ap) hs y c s = (out, s') \<Longrightarrow> tame s s' \<and> tasks s' = tasks s"
proof (induction hs arbitrary: y s)
  case (Cons h hs)
  obtain o1 s1 where h: "app_onChannel ap h y c s = (o1, s1)" by fastforce
  note f = onChannel_frame[OF h] onChannel_table[OF h]
  then have t: "tame s s1" by (simp add: tame_def mild_def same_table_def closing_ok_def closers_def)
  show ?case
  proof (cases o1)
    case (Ok y')
    let ?t = "case y' of None \<Rightarrow> s1 | Some z \<Rightarrow> SetContext c z s1"
    have "fire_onChannel (app_onChannel ap) hs y' c ?t = (out, s')" using Cons.prems h Ok by simp
    note ih = Cons.IH[OF this]
    have c: "tame s1 ?t" by (cases y') (simp_all add: tame_SetContext)
    have "tasks ?t = tasks s1" by (cases y') (simp_all add: SetContext_def)
    then show ?thesis using tame_trans[OF t tame_trans[OF c]] ih f by simp
  qed (use Cons.prems h t f in auto)
qed simp

text \<open>The accepted channel: the newest one, without goroutines or handlers.\<close>

lemma Activate_tame:
  assumes "channel_Activate (app_onChannel ap) x c s = (out, s')" and "pl_ch (pls s (ch_pl (chans s c))) = Some c"
    and "closers c s = 0" and "\<not> ch_done (chans s c)"
  shows "tame s s'"
proof -
  let ?s0 = "SetContext c x s"
  obtain o1 s1 where f: "fire_onChannel (app_onChannel ap) (onChannelChain (pls s (ch_pl (chans s c)))) (Some x) c ?s0 = (o1, s1)"
    by fastforce
  note fr = fire_onChannel_frame[OF f]
  have t1: "tame s s1" using tame_trans[OF tame_SetContext] fr by blast
  have "closers c s1 = 0" using fr assms(3) by (simp add: closers_def SetContext_def)
  moreover have "\<not> ch_done (chans s1 c)" using t1 assms(4) by (simp add: tame_def mild_def)
  ultimately have a: "tame s1 (active c s1)" by (rule tame_active)
  have "s' = s1 \<or> s' = active c s1"
    using assms(1,2) f by (cases o1) (auto simp: channel_Activate_def FireOnChannel_def)
  then show ?thesis using t1 tame_trans[OF t1 a] by auto
qed

end

lemma pool_Get_effect:
  assumes "pool_Get pick s = (out, s')" and "\<forall>p. pick = Some p \<longrightarrow> p \<in> set (pool s)" and "pipes_ok s"
  obtains p where "out = Ok p" and "chans s' = chans s" and "tasks s' = tasks s" and "nextCh s' = nextCh s" and "pipes_ok s'"
    and "p < nextPl s'" and "p \<notin> set (pool s')" and "\<forall>q. q \<noteq> p \<longrightarrow> pls s' q = pls s q" and "nextPl s \<le> nextPl s'"
    and "p = nextPl s \<or> pl_ch (pls s p) = None"
proof (cases pick)
  case None
  obtain pl where pl: "poolNew s = Some pl" "starts_closing pl" using assms(3) by (auto simp: pipes_ok_def)
  then have s': "out = Ok (nextPl s)" "s' = s\<lparr>pls := (pls s)(nextPl s := pl), nextPl := nextPl s + 1\<rparr>"
    using assms(1) None by (simp_all add: pool_Get_def)
  show thesis by (rule that[of "nextPl s"]) (use s' pl assms(3) in \<open>auto simp: pipes_ok_def less_Suc_eq\<close>)
next
  case (Some p)
  then have s': "out = Ok p" "s' = s\<lparr>pool := remove1 p (pool s)\<rparr>" "p \<in> set (pool s)"
    using assms(1,2) by (simp_all add: pool_Get_def)
  show thesis by (rule that[of p]) (use s' assms(3) in \<open>auto simp: pipes_ok_def dest: notin_set_remove1\<close>)
qed

text \<open>A new channel has a pipeline of its own.\<close>

lemma NewChannel_effect:
  assumes "NewChannel con sd pick s = (out, s')" and "\<forall>p. pick = Some p \<longrightarrow> p \<in> set (pool s)" and "pool_ok s" and "linked_pl s"
  defines "c \<equiv> nextCh s"
  shows "out = Ok c" and "tasks s' = tasks s" and "\<And>d. d \<noteq> c \<Longrightarrow> chans s' d = chans s d"
    and "\<not> ch_done (chans s' c)" and "ch_state (chans s' c) = inactive" and "ch_tasks (chans s' c) = NewWaitGroup"
    and "pool_ok s'" and "linked_pl s'"
proof -
  let ?s0 = "s\<lparr>nextCh := c + 1, chans := (chans s)(c := \<lparr>ch_ctx = Background, ch_conn = con, ch_state = inactive, ch_done = False, ch_pl = 0,
       ch_tasks = NewWaitGroup, ch_side = sd, lastRead = 0, lastWrite = 0, ch_idle = Some (clock s)\<rparr>)\<rparr>"
  obtain o1 s1 where g: "pool_Get pick ?s0 = (o1, s1)" by fastforce
  have "pipes_ok ?s0" using assms(3) by (simp add: pool_ok_def pipes_ok_def)
  then obtain p where p: "o1 = Ok p" "chans s1 = chans ?s0" "tasks s1 = tasks ?s0" "nextCh s1 = nextCh ?s0" "pipes_ok s1"
      "p < nextPl s1" "p \<notin> set (pool s1)" "\<forall>q. q \<noteq> p \<longrightarrow> pls s1 q = pls ?s0 q" "nextPl ?s0 \<le> nextPl s1"
      "p = nextPl ?s0 \<or> pl_ch (pls ?s0 p) = None"
    using assms(2) by (elim pool_Get_effect[OF g, rotated]) simp_all
  let ?s2 = "upd_pl p (\<lambda>pl. pl\<lparr>pl_ch := Some c\<rparr>) s1"
  have s': "out = Ok c" "s' = upd_ch c (\<lambda>ch. ch\<lparr>ch_pl := p\<rparr>) ?s2"
    using assms(1) g p(1) unfolding c_def by (simp_all add: NewChannel_def pipeline_factory_def Let_def)
  show "out = Ok c" by (rule s'(1))
  show "tasks s' = tasks s" "\<And>d. d \<noteq> c \<Longrightarrow> chans s' d = chans s d" "\<not> ch_done (chans s' c)" "ch_state (chans s' c) = inactive"
      "ch_tasks (chans s' c) = NewWaitGroup"
    using p(2,3) by (simp_all add: s'(2) upd_pl_def)
  have f: "ch_done (chans s d)" if "c \<le> d" for d using assms(3) that by (simp add: pool_ok_def c_def)
  have l: "ch_pl (chans s d) < nextPl s" if "\<not> ch_done (chans s d)" for d using assms(3) that by (simp add: pool_ok_def)
  have "pipes_ok s'" using p(5,7) by (auto simp: s'(2) upd_pl_def upd_ch_def pipes_ok_def starts_closing_def)
  moreover have "ch_pl (chans s' d) < nextPl s'" if "\<not> ch_done (chans s' d)" for d
    using that l[of d] p(2,6,9) by (cases "d = c") (simp_all add: s'(2) upd_pl_def)
  moreover have "ch_done (chans s' d)" if "nextCh s' \<le> d" for d
    using that f[of d] p(2,4) by (simp add: s'(2) upd_pl_def)
  ultimately show "pool_ok s'" by (simp add: pool_ok_def)
  show "linked_pl s'"
    unfolding linked_pl_def
  proof (intro allI impI)
    fix d assume d: "\<not> ch_done (chans s' d)"
    show "pl_ch (pls s' (ch_pl (chans s' d))) = Some d"
    proof (cases "d = c")
      case False
      then have o: "chans s' d = chans s d" using p(2) by (simp add: s'(2) upd_pl_def)
      then have k: "pl_ch (pls s (ch_pl (chans s d))) = Some d" using d assms(4) by (simp add: linked_pl_def)
      then have "ch_pl (chans s d) \<noteq> p" using p(10) l[of d] d o by auto
      with k o p(8) show ?thesis by (simp add: s'(2) upd_pl_def)
    qed (simp add: s'(2) upd_pl_def)
  qed
qed

section \<open>Accepting a connection\<close>

lemma prepareKeepalive_elsewhere: "prepareKeepalive c s = (out, s') \<Longrightarrow> elsewhere s s'"
proof -
  have k: "elsewhere t (Keeper_Keepalive k t)" for t :: "('a, 'b) trans_sys_scheme" and k
    by (auto simp: Keeper_Keepalive_def Let_def elsewhere_def Timer_AfterFunc_def split: option.split)
  have "elsewhere s (Keeper_Keepalive k (s\<lparr>keepers := f, nextKeeper := n\<rparr>))" for k f n
    by (rule elsewhere_trans[OF _ k]) (simp add: elsewhere_def)
  then show "prepareKeepalive c s = (out, s') \<Longrightarrow> elsewhere s s'"
    by (auto simp: prepareKeepalive_def Let_def NewKeeper_def split: if_splits option.splits)
qed

lemma connect_deferred_tame: "tame s (snd (connect_deferred co (out, s)))"
  using tame_Close by (auto simp: connect_deferred_def Let_def split: option.splits outcome.splits)

lemma closers_zero: "closing_ok s \<Longrightarrow> ch_done (chans s c) \<Longrightarrow> closers c s = 0"
  using closing_okD(1)[of s c] by simp

lemma no_closer_task: "closers c s = 0 \<Longrightarrow> CloseWaitWrite c x \<notin> set (tasks s)"
  by (auto simp: closers_def filter_empty_conv)

text \<open>A new channel keeps the invariant.\<close>

lemma new_channel_inv:
  assumes n: "NewChannel con sd pick s = (out, s1)" and pick: "\<forall>p. pick = Some p \<longrightarrow> p \<in> set (pool s)"
    and inv: "life_ok L l" and s: "lsys l = s"
  defines "c \<equiv> nextCh s"
  shows "closers c s1 = 0" and "life_ok L (l\<lparr>lsys := s1\<rparr>)"
proof -
  have i: "closing_ok s" "linked_pl s" "pool_ok s" "registered_ok L s"
      "\<forall>d. counted (inflight l @ leaked l) d (ch_tasks (chans s d))" "\<forall>x\<in>set (inflight l @ leaked l). fst x < nextCh s"
    using inv s by (auto simp: life_ok_def life_inv_def)
  note e = NewChannel_effect[OF n pick i(3,2), folded c_def]
  have "ch_done (chans s c)" using i(3) by (simp add: pool_ok_def c_def)
  then show z: "closers c s1 = 0" using closers_zero[OF i(1)] e(2) by (simp add: closers_def)
  have cl: "closers d s1 = closers d s" for d using e(2) by (simp add: closers_def)
  have "closing_ok s1"
    unfolding closing_ok_def
  proof
    fix d
    show "closers d s1 + of_bool (ch_done (chans s1 d)) \<le> 1 \<and>
        (0 < closers d s1 + of_bool (ch_done (chans s1 d)) \<longrightarrow> ch_state (chans s1 d) = inactive)"
      using i(1) e(3)[of d] e(4,5) z cl[of d] by (cases "d = c") (simp_all add: closing_ok_def)
  qed
  moreover have "registered_ok L s1"
    unfolding registered_ok_def
  proof
    fix d assume d: "d \<in> dom (th_channels s1) - L"
    show "\<not> ch_done (chans s1 d) \<and> (\<forall>x. CloseWaitWrite d x \<notin> set (tasks s1))"
    proof (cases "d = c")
      case True
      with e(4) no_closer_task[OF z] show ?thesis by blast
    next
      case False
      with i(4) d e(2,3) NewChannel_table(1)[OF n] show ?thesis by (simp add: registered_ok_def)
    qed
  qed
  moreover have "counted (inflight l @ leaked l) d (ch_tasks (chans s1 d))" for d
  proof -
    have "(c, e) \<notin> set (inflight l @ leaked l)" for e using i(6) unfolding c_def by (metis fst_conv less_irrefl)
    then have "count_list (inflight l @ leaked l) (c, e) = 0" for e by (metis count_notin)
    then show ?thesis using i(5) e(3)[of d] e(6) by (cases "d = c") (simp_all add: counted_def NewWaitGroup_def)
  qed
  moreover have "\<forall>x\<in>set (inflight l @ leaked l). fst x < nextCh s1" using i(6) NewChannel_table(3)[OF n] by (simp add: less_SucI)
  ultimately show "life_ok L (l\<lparr>lsys := s1\<rparr>)" using inv e(7,8) by (simp add: life_ok_def life_inv_def)
qed

context system_hooks
begin

lemma connect_start_inv:
  assumes "connect_start ap pick x con (lsys l) = (st, s')" and pick: "\<forall>p. pick = Some p \<longrightarrow> p \<in> set (pool (lsys l))"
    and inv: "life_ok L l"
  shows "life_ok L (l\<lparr>lsys := s'\<rparr>)"
proof -
  define s where "s = lsys l"
  have i: "pool_ok s" "linked_pl s" using inv by (simp_all add: life_ok_def life_inv_def s_def)
  let ?c = "nextCh s"
  obtain o1 s1 where n: "NewChannel con (th_side s) pick s = (o1, s1)" by fastforce
  note e = NewChannel_effect[OF n pick[folded s_def] i]
  note ni = new_channel_inv[OF n pick[folded s_def] inv s_def[symmetric]]
  obtain o2 s2 where a: "channel_Activate (app_onChannel ap) x ?c s1 = (o2, s2)" by fastforce
  have "pl_ch (pls s1 (ch_pl (chans s1 ?c))) = Some ?c" using e(4,8) by (simp add: linked_pl_def)
  then have "tame s1 s2" using Activate_tame[OF a _ ni(1) e(4)] by blast
  with tame_inv[OF ni(2), of s2] have "life_ok L (l\<lparr>lsys := s2\<rparr>)" by simp
  moreover have "s' = s \<or> s' = s2"
    using assms(1) n e(1) a by (cases o2) (auto simp: connect_start_def s_def[symmetric] split: if_splits)
  ultimately show ?thesis using inv by (auto simp: s_def)
qed

text \<open>The later stages: only the store touches what the invariant speaks of.\<close>

lemma connect_next_inv:
  assumes "connect_next c st (lsys l) = (st', s')" and inv: "life_ok L l"
  shows "life_ok (L \<union> {d. d = c \<and> stores st \<and> hooks_over c (lsys l)}) (l\<lparr>lsys := s'\<rparr>)"
proof (cases st)
  case (AtKeepalive x)
  obtain o1 s1 where k: "prepareKeepalive c (lsys l) = (o1, s1)" by fastforce
  have "s' = s1" using assms(1) AtKeepalive k by (cases o1) simp_all
  then show ?thesis using tame_inv[OF inv elsewhere_tame[OF prepareKeepalive_elsewhere[OF k]]] AtKeepalive by simp
next
  case (AtInc x k)
  then show ?thesis using tame_inv[OF inv elsewhere_tame[OF elsewhere_simps(5)]] assms(1) by auto
next
  case (AtStore x k)
  then have s': "s' = (lsys l)\<lparr>th_channels := (th_channels (lsys l))(c \<mapsto> k)\<rparr>" using assms(1) by simp
  have "registered_ok (L \<union> {d. d = c \<and> hooks_over c (lsys l)}) s'"
    using inv unfolding s' by (auto simp: life_ok_def registered_ok_def hooks_over_def)
  moreover have "pool_ok s'" "life_inv (l\<lparr>lsys := s'\<rparr>)"
    using inv unfolding s' by (simp_all add: life_ok_def pool_ok_def pipes_ok_def life_inv_def closing_ok_def closers_def linked_pl_def)
  ultimately show ?thesis using inv AtStore by (simp add: life_ok_def s')
next
  case (AtReturn out)
  then show ?thesis using tame_inv[OF inv connect_deferred_tame] assms(1) by auto
qed

lemma sys_step_inv:
  assumes "sys_step ap r r'" and inv: "sys_inv r"
  shows "sys_inv r'"
proof -
  let ?s = "lsys (r_life r)"
  have ok: "life_ok (late r) (r_life r)" using inv by (simp add: sys_inv_def)
  have go: "sys_inv (go r s')" if "tame ?s s'" for s' using tame_inv[OF ok that] by (simp add: sys_inv_def go_def)
  from assms(1) show ?thesis
  proof cases
    case channels
    then show ?thesis using channels_inv ok by (simp add: sys_inv_def)
  next
    case (connect pick x con st s')
    then show ?thesis using connect_start_inv[OF connect(2,3) ok] by (simp add: sys_inv_def go_def)
  next
    case (connecting c st st' s')
    then show ?thesis using connect_next_inv[OF connecting(3) ok] by (simp add: sys_inv_def go_def)
  next
    case (message p x res s')
    have a: "tame ?s (closeChannel y c e (took c k ?s))" for y c e k
      using tame_trans[OF elsewhere_tame[OF elsewhere_simps(3)] tame_closeChannel] .
    have b: "tame ?s (Submit (InboundTask c m) (took c k ?s))" for c m k
      by (rule tame_trans[OF elsewhere_tame[OF elsewhere_simps(3)] tame_Submit]) simp
    have "tame ?s s'"
      using message(2) a b elsewhere_tame[OF elsewhere_simps(3)]
      by (auto simp: OnMessage_def OnRead_cases Let_def split: if_splits option.splits outcome.splits prod.splits)
    then show ?thesis unfolding message(1) by (rule go)
  next
    case (conn_closed x err res s')
    then have "tame ?s s'" using tame_closeChannel by (auto simp: OnConnClosed_def split: option.splits)
    then show ?thesis unfolding conn_closed(1) by (rule go)
  next
    case (send c w m res s')
    have a: "tame ?s (closeChannel y c e (?s\<lparr>conns := f\<rparr>))" for y c e f
      using tame_trans[OF elsewhere_tame[OF elsewhere_simps(2)] tame_closeChannel] .
    have "tame ?s s'"
      using send(2) a elsewhere_tame[OF elsewhere_simps(2)]
      by (auto simp: OnWrite_cases Let_def split: if_splits outcome.splits prod.splits)
    then show ?thesis unfolding send(1) by (rule go)
  next
    case (shutdown cs x err)
    let ?s1 = "?s\<lparr>th_state := closed, closingCtx := Some x\<rparr>"
    have s: "tame s (Submit (CloseChannelTask x c err) s)" for c s by (rule tame_Submit) simp
    have "tame ?s1 (fold (\<lambda>c. Submit (CloseChannelTask x c err)) cs ?s1)"
      by (rule fold_invariant[where Q = "\<lambda>_. True" and P = "tame ?s1"]) (auto intro: tame_trans[OF _ s])
    with tame_trans[OF elsewhere_tame[OF elsewhere_simps(8)]] have "tame ?s (th_Close x err cs ?s)"
      by (auto simp: th_Close_def)
    then show ?thesis unfolding shutdown(1) by (rule go)
  next
    case (shutdown_task x c err)
    have "tame ?s (run_closeChannel x c err ?s)"
      unfolding run_closeChannel_def by (rule tame_trans[OF tame_drop[OF shutdown_task(2)] tame_closeChannel])
    then show ?thesis unfolding shutdown_task(1) by (rule go)
  qed
qed

lemma sys_steps_inv: "(sys_step ap)\<^sup>*\<^sup>* r r' \<Longrightarrow> sys_inv r \<Longrightarrow> sys_inv r'"
  by (induction rule: rtranclp_induct) (auto intro: sys_step_inv)

end

interpretation plain_system: system_hooks app0
  by unfold_locales (simp_all add: app0_def)

section \<open>Registered channels\<close>

text \<open>A process in which no channel and no pipeline has been made yet.\<close>

definition fresh_sys :: "('v, 'z) chan_sys_scheme \<Rightarrow> bool" where
  "fresh_sys s \<longleftrightarrow> nextCh s = 0 \<and> nextPl s = 0 \<and> pool s = [] \<and> tasks s = [] \<and>
     (\<forall>c. ch_done (chans s c) \<and> ch_state (chans s c) = inactive \<and> ch_tasks (chans s c) = NewWaitGroup)"

definition begun :: "'s \<Rightarrow> 's sysrun" where
  "begun s = \<lparr>r_life = \<lparr>lsys = s, inflight = [], leaked = []\<rparr>, accepting = [], late = {}\<rparr>"

lemma new_handler_inv:
  assumes "fresh_sys s0" and "NewTransHandler rnd ops defaults s0 = (Ok (), s)"
  shows "sys_inv (begun s)"
proof -
  have s: "th_channels s = (\<lambda>_. None)" "chans s = chans s0" "nextCh s = nextCh s0" "nextPl s = nextPl s0"
      "pool s = pool s0" "tasks s = tasks s0" "\<exists>pl hs. poolNew s = Some pl \<and> onChannelClosedChain pl = CloseChannelHook # hs"
    using assms(2) by (auto simp: NewTransHandler_def Let_def and_then_Ok_iff NewPipelineFactory_def)
  have "pool_ok s" "registered_ok {} s"
    using s assms(1) by (auto simp: pool_ok_def pipes_ok_def registered_ok_def starts_closing_def fresh_sys_def)
  moreover have "life_init \<lparr>lsys = s, inflight = [], leaked = []\<rparr>"
    using s(2,6) assms(1) by (simp add: life_init_def fresh_sys_def closers_def linked_pl_def)
  ultimately show ?thesis using life_init_inv by (simp add: sys_inv_def life_ok_def begun_def)
qed

text \<open>
  C3: channels, table and pool of pipelines fit together. From the start of a process, in every order
  in which connections are accepted (several at a time, each in the steps of \<open>connect_start\<close> and
  \<open>connect_next\<close>), messages are read and sent, handlers run, end or panic, channels are closed from
  anywhere and their goroutines run, and the transport is shut down: a channel in the table that was
  not entered after its hooks on closing had been called is not finished and not past these hooks;
  and every channel that is not finished has a pipeline that refers to it, is not in the pool and is
  shared with no other channel that is not finished, and at most one goroutine is closing it.
\<close>

theorem registered_channels_alive:
  assumes "system_hooks ap" and "fresh_sys s0" and "NewTransHandler rnd ops defaults s0 = (Ok (), s)"
    and "(sys_step ap)\<^sup>*\<^sup>* (begun s) r"
  defines "t \<equiv> lsys (r_life r)"
  shows "(c \<in> dom (th_channels t) \<and> c \<notin> late r \<longrightarrow>
      \<not> ch_done (chans t c) \<and> (\<forall>x. CloseWaitWrite c x \<notin> set (tasks t))) \<and>
    (\<not> ch_done (chans t c) \<longrightarrow>
      pl_ch (pls t (ch_pl (chans t c))) = Some c \<and> ch_pl (chans t c) \<notin> set (pool t) \<and>
      (\<forall>d. d \<noteq> c \<longrightarrow> ch_done (chans t d) \<or> ch_pl (chans t d) \<noteq> ch_pl (chans t c)) \<and> closers c t \<le> 1)"
proof -
  have inv: "sys_inv r" using system_hooks.sys_steps_inv[OF assms(1,4) new_handler_inv[OF assms(2,3)]] .
  then have ok: "life_inv (r_life r)" "pool_ok t" "registered_ok (late r) t" by (simp_all add: sys_inv_def life_ok_def t_def)
  have k: "\<not> ch_done (chans t d) \<Longrightarrow> pl_ch (pls t (ch_pl (chans t d))) = Some d" for d
    using ok(1) by (simp add: life_inv_def linked_pl_def t_def)
  have sh: "ch_done (chans t d) \<or> ch_pl (chans t d) \<noteq> ch_pl (chans t c)" if "d \<noteq> c" "\<not> ch_done (chans t c)" for d
    using that k[of d] k[of c] by auto
  have "ch_pl (chans t c) \<notin> set (pool t)" if "\<not> ch_done (chans t c)" using ok(2) k[OF that] by (auto simp: pool_ok_def pipes_ok_def)
  moreover have "closers c t \<le> 1" using closing_okD(1)[of t c] ok(1) by (simp add: life_inv_def t_def)
  moreover have "\<not> ch_done (chans t c) \<and> (\<forall>x. CloseWaitWrite c x \<notin> set (tasks t))" if "c \<in> dom (th_channels t) \<and> c \<notin> late r"
    using ok(3) that by (auto simp: registered_ok_def)
  ultimately show ?thesis using k sh by blast
qed

definition start0 :: "unit trans_sys" where
  "start0 = (trans0 [])\<lparr>chans := (\<lambda>_. channel0\<lparr>ch_done := True, ch_state := inactive\<rparr>), nextCh := 0, nextPl := 0\<rparr>"

lemma fresh_start0: "fresh_sys start0"
  by (simp add: fresh_sys_def start0_def trans0_def channel0_def NewWaitGroup_def)

definition start1 :: "unit trans_sys" where
  "start1 = snd (NewTransHandler (\<lambda>_. 0) [] defaultTransOptions start0)"

lemma start1: "NewTransHandler (\<lambda>_. 0) [] defaultTransOptions start0 = (Ok (), start1)"
proof -
  have "fst (NewTransHandler (\<lambda>_. 0) [] defaultTransOptions start0) = Ok ()" by code_simp
  then show ?thesis unfolding start1_def by (metis prod.collapse)
qed

text \<open>One connection is accepted: up to the counter, and over the store.\<close>

definition at_stage :: "'s sysrun \<Rightarrow> 's \<Rightarrow> chid \<Rightarrow> stage \<Rightarrow> 's sysrun" where
  "at_stage r s c st = (go r s)\<lparr>accepting := [(c, st)]\<rparr>"

lemma at_stage_simps [simp]:
  "lsys (r_life (at_stage r s c st)) = s" "accepting (at_stage r s c st) = [(c, st)]" "late (at_stage r s c st) = late r"
  "inflight (r_life (at_stage r s c st)) = inflight (r_life r)"
  "go (at_stage r s c st) s' = at_stage r s' c st" "(at_stage r s c st)\<lparr>accepting := [(c, st')]\<rparr> = at_stage r s c st'"
  by (simp_all add: at_stage_def go_def)

lemma stage_step:
  assumes "connect_next c st s = (Some st1, s1)" and "\<not> stores st"
  shows "sys_step ap (at_stage r s c st) (at_stage r s1 c st1)"
proof -
  have "connect_next c st (lsys (r_life (at_stage r s c st))) = (Some st1, s1)" using assms(1) by simp
  from sys_step.connecting[OF _ this] assms(2) show ?thesis by (simp add: at_stage_def go_def)
qed

lemma accept_run:
  assumes "accepting r = []" and "connect_start ap None x con (lsys (r_life r)) = (Some (c, AtKeepalive x), s1)"
    and "prepareKeepalive c s1 = (Ok k, s2)"
  shows "(sys_step ap)\<^sup>*\<^sup>* r (at_stage r s2 c (AtInc x k))"
proof -
  have "sys_step ap r (at_stage r s1 c (AtKeepalive x))"
    using sys_step.connect[OF assms(2)] assms(1) by (simp add: at_stage_def)
  moreover have "sys_step ap (at_stage r s1 c (AtKeepalive x)) (at_stage r s2 c (AtInc x k))"
    by (rule stage_step) (simp_all add: assms(3))
  ultimately show ?thesis by (meson r_into_rtranclp rtranclp.rtrancl_into_rtrancl)
qed

lemma store_run:
  defines "t s \<equiv> s\<lparr>channelCount := channelCount s + 1\<rparr>"
  shows "\<exists>r'. (sys_step ap)\<^sup>*\<^sup>* (at_stage r s c (AtInc x k)) r' \<and>
    lsys (r_life r') = (t s)\<lparr>th_channels := (th_channels s)(c \<mapsto> k)\<rparr> \<and> late r' = late r \<union> {d. d = c \<and> hooks_over c s}"
proof -
  let ?u = "(t s)\<lparr>th_channels := (th_channels s)(c \<mapsto> k)\<rparr>"
  have 1: "sys_step ap (at_stage r s c (AtInc x k)) (at_stage r (t s) c (AtStore x k))"
    by (rule stage_step) (simp_all add: t_def)
  have "connect_next c (AtStore x k) (lsys (r_life (at_stage r (t s) c (AtStore x k)))) = (Some (AtReturn (Ok (WithChannel x c))), ?u)"
    by (simp add: t_def)
  note 2 = sys_step.connecting[OF _ this, where ap = ap]
  let ?r = "(at_stage r ?u c (AtReturn (Ok (WithChannel x c))))\<lparr>late := late r \<union> {d. d = c \<and> hooks_over c s}\<rparr>"
  have "hooks_over c (t s) = hooks_over c s" by (simp add: hooks_over_def t_def)
  with 2 have "sys_step ap (at_stage r (t s) c (AtStore x k)) ?r" by (simp add: at_stage_def go_def)
  with 1 have "(sys_step ap)\<^sup>*\<^sup>* (at_stage r s c (AtInc x k)) ?r" by (meson r_into_rtranclp rtranclp.rtrancl_into_rtrancl)
  then show ?thesis by (intro exI[of _ ?r]) (simp add: at_stage_def go_def)
qed

text \<open>The first stages for the first connection of \<open>start1\<close>.\<close>

definition opened1 :: "unit trans_sys" where
  "opened1 = snd (connect_start app0 None Background 5 start1)"

definition kept1 :: "unit trans_sys" where
  "kept1 = snd (prepareKeepalive 0 opened1)"

lemma kept1_run: "\<exists>k. (sys_step app0)\<^sup>*\<^sup>* (begun start1) (at_stage (begun start1) kept1 0 (AtInc Background k))"
proof -
  have "fst (connect_start app0 None Background 5 start1) = Some (0, AtKeepalive Background)" by code_simp
  then have c: "connect_start app0 None Background 5 (lsys (r_life (begun start1))) = (Some (0, AtKeepalive Background), opened1)"
    by (simp add: begun_def opened1_def prod_eq_iff)
  have "case fst (prepareKeepalive 0 opened1) of Ok k \<Rightarrow> True | _ \<Rightarrow> False" by code_simp
  then obtain k where k: "prepareKeepalive 0 opened1 = (Ok k, kept1)"
    by (auto simp: kept1_def prod_eq_iff split: outcome.splits)
  have "accepting (begun start1) = []" by (simp add: begun_def)
  from accept_run[OF this c k] show ?thesis by blast
qed

theorem registered_channels_alive_witness:
  "\<exists>r. (sys_step app0)\<^sup>*\<^sup>* (begun start1) r \<and> 0 \<in> dom (th_channels (lsys (r_life r))) \<and>
     \<not> ch_done (chans (lsys (r_life r)) 0) \<and> ch_pl (chans (lsys (r_life r)) 0) \<notin> set (pool (lsys (r_life r)))"
proof -
  obtain k where k: "(sys_step app0)\<^sup>*\<^sup>* (begun start1) (at_stage (begun start1) kept1 0 (AtInc Background k))"
    using kept1_run by blast
  obtain r where r: "(sys_step app0)\<^sup>*\<^sup>* (at_stage (begun start1) kept1 0 (AtInc Background k)) r"
      "lsys (r_life r) = kept1\<lparr>channelCount := channelCount kept1 + 1, th_channels := (th_channels kept1)(0 \<mapsto> k)\<rparr>"
      "late r = {d. d = 0 \<and> hooks_over 0 kept1}"
    using store_run[of app0 "begun start1" kept1 0 Background k] by (auto simp: begun_def)
  have "\<not> ch_done (chans kept1 0)" "tasks kept1 = []" by code_simp+
  then have "0 \<notin> late r" using r(3) by (simp add: hooks_over_def)
  moreover have run: "(sys_step app0)\<^sup>*\<^sup>* (begun start1) r" using rtranclp_trans[OF k r(1)] .
  moreover have "0 \<in> dom (th_channels (lsys (r_life r)))" using r(2) by simp
  ultimately show ?thesis
    using registered_channels_alive[OF plain_system.system_hooks_axioms fresh_start0 start1 run, of 0] by blast
qed

text \<open>
  The exception is real: a channel that is closed while its connection is being accepted may have
  finished, and its hooks may have been called in vain, when it is entered in the table.
\<close>

lemma late_channel_registered:
  "\<exists>r. (sys_step app0)\<^sup>*\<^sup>* (begun start1) r \<and> 0 \<in> late r \<and> 0 \<in> dom (th_channels (lsys (r_life r))) \<and>
     ch_done (chans (lsys (r_life r)) 0) \<and> 0 < channelCount (lsys (r_life r))"
proof -
  let ?b = "begun start1"
  obtain k where k: "(sys_step app0)\<^sup>*\<^sup>* ?b (at_stage ?b kept1 0 (AtInc Background k))" using kept1_run by blast
  let ?at = "\<lambda>s. at_stage ?b s 0 (AtInc Background k)"
  obtain o3 s3 where c: "channel_Close Background (Some EOF) 0 kept1 = (o3, s3)" by fastforce
  let ?d = "drop_task (CloseWaitRead 0 Background (Some EOF)) s3"
  obtain o4 s4 where h: "close_hooks (closed_hook app0) 0 Background (Some EOF) ?d = (o4, s4)" by fastforce
  have "ch_state (chans kept1 0) \<noteq> inactive" "WaitReadTask (ch_tasks (chans kept1 0))" by code_simp+
  then have w: "CloseWaitRead 0 Background (Some EOF) \<in> set (tasks s3)" "WaitReadTask (ch_tasks (chans s3 0))"
    using channel_Close_cases[OF c] by auto
  have "ch_done (chans (snd (close_hooks (closed_hook app0) 0 Background (Some EOF)
      (drop_task (CloseWaitRead 0 Background (Some EOF)) (snd (channel_Close Background (Some EOF) 0 kept1))))) 0)" by code_simp
  then have d: "ch_done (chans s4 0)" using c h by simp
  have n: "channelCount (snd (close_hooks (closed_hook app0) 0 Background (Some EOF)
      (drop_task (CloseWaitRead 0 Background (Some EOF)) (snd (channel_Close Background (Some EOF) 0 kept1))))) = 0" by code_simp
  have st: "sys_step app0 (?at s) (?at s')" if "life_step (closed_hook app0) (r_life (?at s)) ((r_life (?at s))\<lparr>lsys := s'\<rparr>)" for s s'
    using sys_step.channels[OF that] by (simp add: at_stage_def go_def begun_def)
  have "sys_step app0 (?at kept1) (?at s3)" by (rule st, rule call_Close[where c = 0]) (use c in simp)
  moreover have "sys_step app0 (?at s3) (?at s4)" by (rule st, rule reads_done[where c = 0]) (use w h in simp_all)
  ultimately have run: "(sys_step app0)\<^sup>*\<^sup>* ?b (?at s4)" using k by (meson rtranclp.rtrancl_into_rtrancl)
  obtain r where r: "(sys_step app0)\<^sup>*\<^sup>* (?at s4) r"
      "lsys (r_life r) = s4\<lparr>channelCount := channelCount s4 + 1, th_channels := (th_channels s4)(0 \<mapsto> k)\<rparr>"
      "late r = late ?b \<union> {d. d = 0 \<and> hooks_over 0 s4}"
    using store_run[of app0 ?b s4 0 Background k] by auto
  have "channelCount s4 = 0" using n c h by simp
  then show ?thesis
    using rtranclp_trans[OF run r(1)] r(2,3) d by (intro exI[of _ r]) (simp add: hooks_over_def)
qed

text \<open>
  The other direction fails: a channel whose two sides are closed one by one is as good as closed,
  so \<open>Close\<close> refuses to work on it; \<open>closeChannel\<close> takes it out of the table, but no goroutine is started
  that would run the hooks and close the connection.
\<close>

lemma half_closed_leaks:
  assumes "ch_state (chans s c) = readWriteMode" and "t = upd_ch c (CloseWriter \<circ> CloseReader) s" and "th_channels s c \<noteq> None"
  shows "channel_Close x err c t = (Err ErrChannelClosed, t)" and "th_channels (closeChannel x c err t) c = None"
    and "tasks (closeChannel x c err t) = tasks s" and "conns (closeChannel x c err t) = conns s"
proof -
  have i: "ch_state (chans t c) = inactive"
    using assms(1,2) by (simp add: CloseReader_def CloseWriter_def channel_close_def state_defs)
  then show "channel_Close x err c t = (Err ErrChannelClosed, t)" by (simp add: channel_Close_def)
  note e = closeChannel_inactive[OF i, of x err]
  then show "th_channels (closeChannel x c err t) c = None" "tasks (closeChannel x c err t) = tasks s"
    using assms(2) by (simp_all add: elsewhere_def)
  show "conns (closeChannel x c err t) = conns s"
    using i assms(2) by (auto simp: closeChannel_def Let_def channel_Close_def Keeper_Close_def upd_k_def upd_ch_def
        split: option.split registered.split)
qed

end
