(* ===== verification/Tcp.thy ===== *)
theory Tcp
  imports Trans
begin

text \<open>
  The TCP transport (\<^verbatim>\<open>transport/tcp/options.go\<close>, \<^verbatim>\<open>transport/tcp/trans_std.go\<close>): its options, the loop
  that accepts connections, dialling, and the read loop of a connection. The event driver is the
  transport handler of \<open>Trans\<close>. The socket calls of the package \<^verbatim>\<open>net\<close> are parameters: what they
  return is part of the input.
\<close>

section \<open>Options (options.go)\<close>

record TCPOptions =
  Network :: string
  DialTimeout :: int
  tcp_Keepalive :: bool
  KeepAlivePeriod :: int
  Linger :: int
  NoDelay :: bool

definition DefaultOptions :: TCPOptions where
  "DefaultOptions =
     \<lparr>Network = ''tcp'', DialTimeout = 5 * second, tcp_Keepalive = True, KeepAlivePeriod = 60 * second, Linger = - 1,
      NoDelay = True\<rparr>"

text \<open>
  An option is a function on an interface value, which holds either a struct or a pointer to one.
  \<open>deref\<close> is the struct that the pointer of \<open>New\<close> points to. The type assertion to the struct type
  gives a copy, and fails for a pointer.
\<close>

datatype Options = OpsValue TCPOptions | OpsPointer

type_synonym trans_Option = "Options \<Rightarrow> TCPOptions \<Rightarrow> TCPOptions"

definition as_TCPOptions :: "Options \<Rightarrow> TCPOptions option" where
  "as_TCPOptions ops = (case ops of OpsValue v \<Rightarrow> Some v | OpsPointer \<Rightarrow> None)"

text \<open>An assignment to a field of the copy: the copy is dropped.\<close>

definition set_field :: "(TCPOptions \<Rightarrow> TCPOptions) \<Rightarrow> trans_Option" where
  "set_field f ops deref =
     (case as_TCPOptions ops of
        Some tcpOps \<Rightarrow> (let tcpOps = f tcpOps in deref)
      | None \<Rightarrow> deref)"

definition WithNetwork :: "string \<Rightarrow> trans_Option" where
  "WithNetwork network = set_field (\<lambda>o'. o'\<lparr>Network :=
     (if network \<in> {''tcp'', ''tcp4'', ''tcp6''} then network else ''tcp'')\<rparr>)"

definition WithTimeout_option :: "int \<Rightarrow> trans_Option" where
  "WithTimeout_option d = set_field (\<lambda>o'. o'\<lparr>DialTimeout := d\<rparr>)"

definition WithKeepalive :: "bool \<Rightarrow> trans_Option" where
  "WithKeepalive keepalive = set_field (\<lambda>o'. o'\<lparr>tcp_Keepalive := keepalive\<rparr>)"

definition WithKeepalivePeriod :: "int \<Rightarrow> trans_Option" where
  "WithKeepalivePeriod period = set_field (\<lambda>o'. o'\<lparr>KeepAlivePeriod := period\<rparr>)"

definition WithLinger :: "int \<Rightarrow> trans_Option" where
  "WithLinger linger = set_field (\<lambda>o'. o'\<lparr>Linger := linger\<rparr>)"

definition WithNoDelay :: "bool \<Rightarrow> trans_Option" where
  "WithNoDelay delay = set_field (\<lambda>o'. o'\<lparr>NoDelay := delay\<rparr>)"

section \<open>The transport (trans_std.go)\<close>

text \<open>
  The context of the transport is nil until \<open>Listen\<close>, then a context that \<open>Close\<close> cancels. \<open>raw_closed\<close>
  are the connections that were closed before they were wrapped, \<open>loops\<close> the read loops that run.
\<close>

record 'v tcp_sys = "'v trans_sys" +
  tcp_ops :: TCPOptions
  tcp_ctx :: "bool option"
  raw_closed :: "connid list"
  loops :: "(ctx \<times> connid) list"

definition New :: "trans_Option list \<Rightarrow> TCPOptions \<Rightarrow> TCPOptions" where
  "New op defaults = fold (\<lambda>f deref. f OpsPointer deref) op defaults"

definition transport_Close :: "('v, 'z) tcp_sys_scheme \<Rightarrow> ('v, 'z) tcp_sys_scheme" where
  "transport_Close s = (if tcp_ctx s \<noteq> None then s\<lparr>tcp_ctx := Some True\<rparr> else s)"

text \<open>The four socket options; \<open>setopt\<close> tells which of them fail.\<close>

datatype sockopt = SetKeepAlive bool | SetKeepAlivePeriod int | SetLinger int | SetNoDelay bool

definition applyOptions :: "(sockopt \<Rightarrow> go_error option) \<Rightarrow> TCPOptions \<Rightarrow> go_error option" where
  "applyOptions setopt ops =
     (case setopt (SetKeepAlive (tcp_Keepalive ops)) of
        Some e \<Rightarrow> Some e
      | None \<Rightarrow>
     (case setopt (SetKeepAlivePeriod (KeepAlivePeriod ops)) of
        Some e \<Rightarrow> Some e
      | None \<Rightarrow>
     (case setopt (SetLinger (Linger ops)) of
        Some e \<Rightarrow> Some e
      | None \<Rightarrow>
     (case setopt (SetNoDelay (NoDelay ops)) of
        Some e \<Rightarrow> Some e
      | None \<Rightarrow> None))))"

text \<open>
  What one call of \<open>Accept\<close> gives: an error (temporary or not), or a connection with its address in
  the model, what it will deliver, the outcome of its socket calls and the pipeline that the pool
  will hand out.
\<close>

record incoming =
  in_id :: connid
  in_conn :: connection
  in_setopt :: "sockopt \<Rightarrow> go_error option"
  in_pick :: "plid option"

datatype accepted = AcceptErr go_error bool | Accepted incoming

definition wrap_incoming :: "incoming \<Rightarrow> ('v, 'z) tcp_sys_scheme \<Rightarrow> ('v, 'z) tcp_sys_scheme" where
  "wrap_incoming i s = s\<lparr>conns := (conns s)(in_id i :=
     WrapConnection (c_source (in_conn i)) (c_world (in_conn i)) (c_local (in_conn i)) (c_remote (in_conn i)))\<rparr>"

text \<open>
  The body of the accept loop. \<open>None\<close> is the next round. After a temporary error the connection is
  nil, and its type assertion panics.
\<close>

definition accept_round ::
    "('v, ('v, 'z) tcp_sys_scheme) app \<Rightarrow> accepted \<Rightarrow> ('v, 'z) tcp_sys_scheme \<Rightarrow> unit outcome option \<times> ('v, 'z) tcp_sys_scheme" where
  "accept_round ap a s =
     (case a of
        AcceptErr e temporary \<Rightarrow>
          (if temporary then (Some (Panic TypeAssertion), s) else (Some (Err e), s))
      | Accepted i \<Rightarrow>
          (case applyOptions (in_setopt i) (tcp_ops s) of
             Some e \<Rightarrow> (None, s\<lparr>raw_closed := in_id i # raw_closed s\<rparr>)
           | None \<Rightarrow>
               (case OnConnect ap (in_pick i) Background (in_id i) (wrap_incoming i s) of
                  (Ok cc, s1) \<Rightarrow> (None, s1\<lparr>loops := (cc, in_id i) # loops s1\<rparr>)
                | (Err e, s1) \<Rightarrow> (None, s1)
                | (Panic p, s1) \<Rightarrow> (Some (Panic p), s1)
                | (Hang, s1) \<Rightarrow> (Some Hang, s1))))"

text \<open>The loop itself, on the connections that come in; it goes on when there is none.\<close>

fun accept_loop ::
    "('v, ('v, 'z) tcp_sys_scheme) app \<Rightarrow> accepted list \<Rightarrow> ('v, 'z) tcp_sys_scheme \<Rightarrow> unit outcome option \<times> ('v, 'z) tcp_sys_scheme" where
  "accept_loop ap [] s = (None, s)"
| "accept_loop ap (a # as) s =
     (case accept_round ap a s of
        (None, s1) \<Rightarrow> accept_loop ap as s1
      | (Some out, s1) \<Rightarrow> (Some out, s1))"

text \<open>
  \<open>resolve\<close> and \<open>listen\<close> are \<^verbatim>\<open>net.ResolveTCPAddr\<close> and \<^verbatim>\<open>net.ListenTCP\<close>. The result \<open>None\<close> means that
  \<open>Listen\<close> is still waiting for connections.
\<close>

definition Listen ::
    "(string \<Rightarrow> string \<Rightarrow> string outcome) \<Rightarrow> (string \<Rightarrow> unit outcome) \<Rightarrow> ('v, ('v, 'z) tcp_sys_scheme) app \<Rightarrow>
     string \<Rightarrow> accepted list \<Rightarrow> ('v, 'z) tcp_sys_scheme \<Rightarrow> unit outcome option \<times> ('v, 'z) tcp_sys_scheme" where
  "Listen resolve listen ap addr as s =
     (case resolve (Network (tcp_ops s)) addr of
        Ok tcpAddr \<Rightarrow>
          (case listen tcpAddr of
             Ok _ \<Rightarrow> accept_loop ap as (s\<lparr>tcp_ctx := Some False\<rparr>)
           | Err e \<Rightarrow> (Some (Err e), s)
           | Panic p \<Rightarrow> (Some (Panic p), s)
           | Hang \<Rightarrow> (None, s))
      | Err e \<Rightarrow> (Some (Err e), s)
      | Panic p \<Rightarrow> (Some (Panic p), s)
      | Hang \<Rightarrow> (None, s))"

text \<open>
  \<open>Dial\<close>: \<open>dial\<close> is given the timeout, if one is set. When the event driver refuses the connection, the
  connection is closed and its read loop is started all the same, with the context that \<open>OnConnect\<close>
  returned: the one it was given.
\<close>

definition Dial ::
    "(string \<Rightarrow> string \<Rightarrow> string outcome) \<Rightarrow> (int option \<Rightarrow> string \<Rightarrow> incoming outcome) \<Rightarrow> ('v, ('v, 'z) tcp_sys_scheme) app \<Rightarrow>
     string \<Rightarrow> string \<Rightarrow> ('v, 'z) tcp_sys_scheme \<Rightarrow> unit outcome \<times> ('v, 'z) tcp_sys_scheme" where
  "Dial resolve dial ap network addr s =
     and_then (resolve network addr, s) (\<lambda>remoteAddr s.
     and_then (dial (if 0 < DialTimeout (tcp_ops s) then Some (DialTimeout (tcp_ops s)) else None) remoteAddr, s) (\<lambda>i s.
       case applyOptions (in_setopt i) (tcp_ops s) of
         Some e \<Rightarrow> (Err e, s\<lparr>raw_closed := in_id i # raw_closed s\<rparr>)
       | None \<Rightarrow>
           (case OnConnect ap (in_pick i) Background (in_id i) (wrap_incoming i s) of
              (Ok cc, s1) \<Rightarrow> (Ok (), s1\<lparr>loops := (cc, in_id i) # loops s1\<rparr>)
            | (Err e, s1) \<Rightarrow> (Ok (), s1\<lparr>raw_closed := in_id i # raw_closed s1, loops := (Background, in_id i) # loops s1\<rparr>)
            | (Panic p, s1) \<Rightarrow> (Panic p, s1)
            | (Hang, s1) \<Rightarrow> (Hang, s1))))"

text \<open>
  One round of \<open>readLoop\<close>; \<open>Some\<close> means that the loop has ended. The call of \<^verbatim>\<open>recovery.Recover\<close> before
  the loop is not deferred and does nothing. \<open>pooled\<close> is the reader that comes out of the pool.
\<close>

definition read_round ::
    "bufferReader \<Rightarrow> ctx \<Rightarrow> ('v, 'z) tcp_sys_scheme \<Rightarrow> unit outcome option \<times> ('v, 'z) tcp_sys_scheme" where
  "read_round pooled cc s =
     (case tcp_ctx s of
        None \<Rightarrow> (Some (Panic NilDereference), s)
      | Some True \<Rightarrow> (Some (Ok ()), s)
      | Some False \<Rightarrow>
          (case OnMessage pooled cc s of
             (Ok _, s1) \<Rightarrow> (None, s1)
           | (Err _, s1) \<Rightarrow> (None, s1)
           | (Panic p, s1) \<Rightarrow> (Some (Panic p), s1)
           | (Hang, s1) \<Rightarrow> (Some Hang, s1)))"

text \<open>As many rounds as there are readers in the list.\<close>

fun readLoop ::
    "bufferReader list \<Rightarrow> ctx \<Rightarrow> ('v, 'z) tcp_sys_scheme \<Rightarrow> unit outcome option \<times> ('v, 'z) tcp_sys_scheme" where
  "readLoop [] cc s = (None, s)"
| "readLoop (p # ps) cc s =
     (case read_round p cc s of
        (None, s1) \<Rightarrow> readLoop ps cc s1
      | (Some out, s1) \<Rightarrow> (Some out, s1))"

end
