(* ===== verification/TcpProps.thy ===== *)
theory TcpProps
  imports Tcp TransProps
begin

text \<open>
  Properties of the TCP transport: a stream of packets is delivered in order, and what becomes of
  the loops when a channel is closed, a connection is refused or the transport only dials.
\<close>

section \<open>The read loop\<close>

definition frame :: "bytes \<Rightarrow> bytes" where
  "frame t = length_header (length t) @ t"

text \<open>
  C1: the read loop takes a stream of packets apart completely. When a connection delivers packets of
  texts of at most 251 bytes, in whatever segments, as many rounds of the read loop as there are
  packets start one goroutine for each text, in the order of the stream, that will hand it to the
  channel's pipeline; they end with the loop still running, and leave the stream behind the last
  packet; the readers may come from the pool in any state that the pool can hold. The order in which
  the goroutines run, and with it the order in which the pipeline sees the texts, is not fixed.
\<close>

theorem readLoop_delivers_stream:
  assumes "isActive s" and "tcp_ctx s = Some False" and "ctx_channel cc = Some c" and "Readable (chans s c)"
    and "packetCodec (th_ops s) = NewVariableLengthCodec" and "payloadCodec (th_ops s) = NewTextCodec"
    and "256 \<le> maxReceiveMessageSize (th_ops s)" and "\<forall>p\<in>set ps. pooled_ok p" and "\<forall>t\<in>set ts. length t \<le> 251"
    and "length ps = length ts"
    and "flat (c_source (conns s (ch_conn (chans s c)))) = concat (map frame ts) @ rest"
  shows "\<exists>s'. readLoop ps cc s = (None, s') \<and> tasks s' = tasks s @ map (\<lambda>t. InboundTask c (StringMsg t)) ts \<and>
    flat (c_source (conns s' (ch_conn (chans s c)))) = rest"
  using assms(10,8,9,11,1-7)
proof (induction ps ts arbitrary: s rule: list_induct2)
  case (Cons p ps t ts)
  have f: "flat (c_source (conns s (ch_conn (chans s c)))) = length_header (length t) @ t @ concat (map frame ts) @ rest"
    using Cons.prems(3) by (simp add: frame_def[of t])
  obtain r src where r: "OnMessage p cc s = (Ok (), Submit (InboundTask c (StringMsg t)) (took c (BufR r) s))"
      "r_decorator r = Some src" "flat src = concat (map frame ts) @ rest"
    using OnMessage_text[OF Cons.prems(4,6,7) _ Cons.prems(8-10) _ f] Cons.prems(1,2) by auto
  define s1 where "s1 = Submit (InboundTask c (StringMsg t)) (took c (BufR r) s)"
  have s1: "tcp_ctx s1 = Some False" "isActive s1" "chans s1 = chans s" "th_ops s1 = th_ops s"
      "flat (c_source (conns s1 (ch_conn (chans s c)))) = concat (map frame ts) @ rest"
      "tasks s1 = tasks s @ [InboundTask c (StringMsg t)]"
    using r(2,3) Cons.prems(4,5) by (simp_all add: s1_def Submit_def took_def Let_def isActive_def)
  obtain s' where "readLoop ps cc s1 = (None, s')" "tasks s' = tasks s1 @ map (\<lambda>t. InboundTask c (StringMsg t)) ts"
      "flat (c_source (conns s' (ch_conn (chans s1 c)))) = rest"
    using Cons.IH[of s1] Cons.prems s1 by auto
  moreover have "read_round p cc s = (None, s1)" using r(1) Cons.prems(5) by (simp add: read_round_def s1_def)
  ultimately show ?case using s1 by simp
qed auto

text \<open>The system of \<open>trans0\<close> with a transport that is listening.\<close>

definition tcp0 :: "bytes list \<Rightarrow> bool option \<Rightarrow> unit tcp_sys" where
  "tcp0 bss x = trans_sys.extend (trans0 bss) (tcp_sys.fields DefaultOptions x [] [])"

lemma tcp0_simps [simp]:
  "tcp_ctx (tcp0 bss x) = x" "isActive (tcp0 bss x)" "th_ops (tcp0 bss x) = defaultTransOptions" "tasks (tcp0 bss x) = []"
  "chans (tcp0 bss x) 0 = channel0" "conns (tcp0 bss x) k = conn_with bss" "loops (tcp0 bss x) = []"
  by (simp_all add: tcp0_def trans_sys.defs tcp_sys.defs trans0_def isActive_def serving_def)

theorem readLoop_delivers_stream_witness:
  "\<exists>s'. readLoop [bufferReaderPool_New, bufferReaderPool_New] (WithChannel Background 0)
      (tcp0 [length_header 2, str ''hi'' @ length_header 3, str ''you''] (Some False)) = (None, s') \<and>
    tasks s' = [InboundTask 0 (StringMsg (str ''hi'')), InboundTask 0 (StringMsg (str ''you''))]"
proof -
  let ?s = "tcp0 [length_header 2, str ''hi'' @ length_header 3, str ''you''] (Some False)"
  have "flat (c_source (conns ?s (ch_conn (chans ?s 0)))) = concat (map frame [str ''hi'', str ''you'']) @ []"
    by (simp add: frame_def eval_nat_numeral)
  from readLoop_delivers_stream[OF _ _ _ _ _ _ _ _ _ _ this,
      of "WithChannel Background 0" "[bufferReaderPool_New, bufferReaderPool_New]"]
  show ?thesis by (auto simp: pooled_New)
qed

text \<open>
  C39: the read loop of a closed channel spins. Once a channel can no longer be read (it, or its reader,
  was closed), each round of its read loop returns at once without touching the connection and the
  loop goes on: it uses a processor for nothing until the transport itself is closed, when it ends.
\<close>

theorem closed_channel_spins:
  assumes "isActive s" and "ctx_channel cc = Some c" and "\<not> Readable (chans s c)" and "tcp_ctx s = Some False" and "ps \<noteq> []"
  shows "readLoop ps cc s = (None, s) \<and> readLoop ps cc (transport_Close s) = (Some (Ok ()), transport_Close s)"
proof -
  have "read_round p cc s = (None, s)" for p
    using assms(1-4) by (simp add: read_round_def OnMessage_def channel_Reader_def Readable_def)
  then have "readLoop qs cc s = (None, s)" for qs by (induction qs) simp_all
  moreover have "readLoop ps cc (transport_Close s) = (Some (Ok ()), transport_Close s)"
    using assms(4,5) by (cases ps) (simp_all add: transport_Close_def read_round_def)
  ultimately show ?thesis by simp
qed

theorem closed_channel_spins_witness:
  "let s = upd_ch 0 (\<lambda>ch. ch\<lparr>ch_state := inactive\<rparr>) (tcp0 [str ''left behind''] (Some False)) in
     readLoop (replicate 1000 bufferReaderPool_New) (WithChannel Background 0) s = (None, s)"
proof -
  let ?s = "upd_ch 0 (\<lambda>ch. ch\<lparr>ch_state := inactive\<rparr>) (tcp0 [str ''left behind''] (Some False))"
  have "isActive ?s" "tcp_ctx ?s = Some False" "\<not> Readable (chans ?s 0)"
    by (simp_all add: upd_ch_def isActive_def Readable_def calState_def state_defs)
      (simp add: tcp0_def trans_sys.defs tcp_sys.defs trans0_def)
  with closed_channel_spins[of ?s "WithChannel Background 0" 0 "replicate 1000 bufferReaderPool_New"]
  show ?thesis by simp
qed

section \<open>Options, dialling and accepting\<close>

text \<open>No option has an effect: \<^verbatim>\<open>New\<close> hands them a pointer, and they look for a struct.\<close>

lemma set_field_ignored: "set_field f ops d = d"
  by (simp add: set_field_def Let_def split: option.split)

theorem tcp_options_ignored:
  assumes "set op \<subseteq> range WithNetwork \<union> range WithTimeout_option \<union> range WithKeepalive \<union> range WithKeepalivePeriod \<union>
    range WithLinger \<union> range WithNoDelay"
  shows "New op d = d"
proof -
  have "\<forall>f\<in>set op. f OpsPointer d = d"
    using assms by (auto simp: WithNetwork_def WithTimeout_option_def WithKeepalive_def WithKeepalivePeriod_def
        WithLinger_def WithNoDelay_def set_field_ignored)
  then show ?thesis by (induction op) (simp_all add: New_def)
qed

text \<open>The read loop of a transport that does not listen, as a client's, panics in its first round.\<close>

theorem dial_only_loop_panics: "tcp_ctx s = None \<Longrightarrow> readLoop (p # ps) cc s = (Some (Panic NilDereference), s)"
  by (simp add: read_round_def)

text \<open>A temporary error of \<^verbatim>\<open>Accept\<close>, which is meant to be retried, ends the program.\<close>

theorem temporary_accept_error_panics:
  "accept_loop ap (AcceptErr e True # as) s = (Some (Panic TypeAssertion), s)"
  by (simp add: accept_round_def)

end
