(* ===== verification/Exchange.thy ===== *)
theory Exchange
  imports TcpProps "HOL-Library.Multiset"
begin

text \<open>
  The whole way of a message: from the stream of a connection through reader, codecs and inbound
  pipeline to the application, and from the application through the outbound pipeline, codecs and
  writer back to the connection. The application is a server that answers every message with itself.
\<close>

section \<open>What a channel needs to serve\<close>

definition counters_ok :: "WaitGroup \<Rightarrow> bool" where
  "counters_ok wg \<longleftrightarrow> 0 \<le> readTask wg \<and> 0 \<le> writeTask wg \<and> 0 \<le> allTask wg"

text \<open>The pipeline that \<^verbatim>\<open>NewTransHandler\<close> makes without keepalive and further middlewares, for router \<open>r\<close>.\<close>

definition plain_pipeline :: "nat \<Rightarrow> chid \<Rightarrow> pipeline \<Rightarrow> bool" where
  "plain_pipeline r c pl \<longleftrightarrow> pl_ch pl = Some c \<and> inbound pl = [RecorderIn] \<and> chIn pl = [] \<and>
     router pl = Some (RouterMw (Some r)) \<and> outbound pl = [RecorderOut] \<and> chOut pl = [] \<and>
     outboundHandler pl = Some TransOutbound"

text \<open>An open channel on a connection that does not fail, in a transport with the default codecs.\<close>

definition ready :: "nat \<Rightarrow> chid \<Rightarrow> ('v, 'z) tcp_sys_scheme \<Rightarrow> bool" where
  "ready r c s \<longleftrightarrow> isActive s \<and> tcp_ctx s = Some False \<and> ch_state (chans s c) = readWriteMode \<and>
     packetCodec (th_ops s) = NewVariableLengthCodec \<and> payloadCodec (th_ops s) = NewTextCodec \<and>
     256 \<le> maxReceiveMessageSize (th_ops s) \<and> plain_pipeline r c (pls s (ch_pl (chans s c))) \<and>
     counters_ok (ch_tasks (chans s c)) \<and> faults (c_world (conns s (ch_conn (chans s c)))) = []"

text \<open>The same but for the pipeline and the counters.\<close>

definition serves :: "chid \<Rightarrow> ('v, 'z) tcp_sys_scheme \<Rightarrow> bool" where
  "serves c s \<longleftrightarrow> isActive s \<and> tcp_ctx s = Some False \<and> ch_state (chans s c) = readWriteMode \<and>
     packetCodec (th_ops s) = NewVariableLengthCodec \<and> payloadCodec (th_ops s) = NewTextCodec \<and>
     256 \<le> maxReceiveMessageSize (th_ops s) \<and> faults (c_world (conns s (ch_conn (chans s c)))) = []"

lemma ready_serves: "ready r c s \<Longrightarrow> serves c s"
  by (simp add: ready_def serves_def)

definition conn_of :: "chid \<Rightarrow> ('v, 'z) tcp_sys_scheme \<Rightarrow> connection" where
  "conn_of c s = conns s (ch_conn (chans s c))"

text \<open>The texts that wait for the pipeline of a channel.\<close>

fun inbound_text :: "chid \<Rightarrow> 'v task \<Rightarrow> bytes list" where
  "inbound_text c (InboundTask d (StringMsg t)) = (if d = c then [t] else [])"
| "inbound_text c _ = []"

definition pending :: "chid \<Rightarrow> ('v, 'z) tcp_sys_scheme \<Rightarrow> bytes list" where
  "pending c s = concat (map (inbound_text c) (tasks s))"

lemma inbound_text_iff: "inbound_text c x = [t] \<longleftrightarrow> x = InboundTask c (StringMsg t)"
  by (cases "(c, x)" rule: inbound_text.cases) auto

lemma inbound_text_cases: "inbound_text c x = [] \<or> (\<exists>t. x = InboundTask c (StringMsg t))"
  by (cases "(c, x)" rule: inbound_text.cases) auto

lemma pending_drop: "pending c (drop_task (InboundTask c (StringMsg t)) s) = remove1 t (pending c s)"
proof -
  have "concat (map (inbound_text c) (remove1 (InboundTask c (StringMsg t)) xs)) = remove1 t (concat (map (inbound_text c) xs))"
    for xs :: "'a task list"
  proof (induction xs)
    case (Cons x xs)
    show ?case
    proof (cases "inbound_text c x = []")
      case False
      then obtain u where "x = InboundTask c (StringMsg u)" using inbound_text_cases by blast
      with Cons show ?thesis by simp
    qed (use Cons in auto)
  qed simp
  then show ?thesis by (simp add: pending_def drop_task_def)
qed

lemma pending_has: "t \<in> set (pending c s) \<Longrightarrow> InboundTask c (StringMsg t) \<in> set (tasks s)"
proof -
  assume "t \<in> set (pending c s)"
  then obtain x where x: "x \<in> set (tasks s)" "t \<in> set (inbound_text c x)" by (auto simp: pending_def)
  with inbound_text_cases[of c x] show ?thesis by auto
qed

text \<open>
  The steps of recording, sending and dropping a task change the counters, the times and the
  connection of a channel, and add or remove tasks of other kinds: everything else is as before.
\<close>

definition same_service :: "chid \<Rightarrow> ('v, 'z) tcp_sys_scheme \<Rightarrow> ('v, 'z) tcp_sys_scheme \<Rightarrow> bool" where
  "same_service c s s' \<longleftrightarrow> isActive s' = isActive s \<and> tcp_ctx s' = tcp_ctx s \<and> th_ops s' = th_ops s \<and> pls s' = pls s \<and>
     ch_state (chans s' c) = ch_state (chans s c) \<and> ch_pl (chans s' c) = ch_pl (chans s c) \<and>
     ch_conn (chans s' c) = ch_conn (chans s c) \<and> ch_ctx (chans s' c) = ch_ctx (chans s c) \<and> c_source (conn_of c s') = c_source (conn_of c s)"

lemma same_service_refl [simp]: "same_service c s s"
  by (simp add: same_service_def)

lemma same_service_trans: "same_service c s t \<Longrightarrow> same_service c t u \<Longrightarrow> same_service c s u"
  by (simp add: same_service_def)

lemma ready_same:
  assumes "ready r c s" and "same_service c s s'" and "counters_ok (ch_tasks (chans s' c))"
    and "faults (c_world (conn_of c s')) = []"
  shows "ready r c s'"
  using assms unfolding ready_def same_service_def conn_of_def by simp

section \<open>Recording\<close>

lemma Done_Add:
  assumes "counters_ok wg" and "e \<in> {ReadEvent, WriteEvent}"
  shows "WaitGroup_Done e (WaitGroup_Add e wg) = (Ok (), wg)" and "counters_ok (WaitGroup_Add e wg)"
  using assms by (auto simp: WaitGroup_Done_def WaitGroup_Add_def counter_Done_def counters_ok_def ReadEvent_def WriteEvent_def)

lemma addTask_tasks: "ch_tasks (chans (addTask e c s) c) = WaitGroup_Add e (ch_tasks (chans s c))"
  by (simp add: addTask_def Let_def upd_ch_def Submit_def)

lemma addTask_service:
  "same_service c s (addTask e c s)"
  "pending d (addTask e c s) = pending d s" "conns (addTask e c s) = conns s"
  by (auto simp: addTask_def Let_def same_service_def upd_ch_def Submit_def isActive_def conn_of_def pending_def)

lemma Recorder_ok:
  assumes "counters_ok (ch_tasks (chans s c))" and "e \<in> {ReadEvent, WriteEvent}"
    and "h x c m (addTask e c s) = (Ok (), s1)" and "ch_tasks (chans s1 c) = ch_tasks (chans (addTask e c s) c)"
  shows "Recorder e h x c m s = (Ok (), upd_ch c (\<lambda>ch. ch\<lparr>ch_tasks := ch_tasks (chans s c)\<rparr>) s1)"
  using assms(3,4) Done_Add(1)[OF assms(1,2)] by (simp add: Recorder_def Recorder_enter_def Recorder_leave_def tasks_Done_def addTask_tasks)

lemma set_tasks_service:
  "same_service c s (upd_ch c (\<lambda>ch. ch\<lparr>ch_tasks := wg\<rparr>) s)" "pending d (upd_ch c (\<lambda>ch. ch\<lparr>ch_tasks := wg\<rparr>) s) = pending d s"
  "conns (upd_ch c (\<lambda>ch. ch\<lparr>ch_tasks := wg\<rparr>) s) = conns s" "ch_tasks (chans (upd_ch c (\<lambda>ch. ch\<lparr>ch_tasks := wg\<rparr>) s) c) = wg"
  by (simp_all add: same_service_def upd_ch_def isActive_def conn_of_def pending_def)

lemma conn_of_same: "same_service c s s' \<Longrightarrow> conns s' = conns s \<Longrightarrow> conn_of c s' = conn_of c s"
  by (simp add: conn_of_def same_service_def)

section \<open>Sending\<close>

lemma outbound_text:
  assumes "serves c s" and enc: "text_enc m = Ok b" and "length b \<le> 251"
  obtains s' where "th_outboundHandler x c m s = (Ok (), s')" and "same_service c s s'"
    and "sent (c_world (conn_of c s')) = sent (c_world (conn_of c s)) @ frame b" and "faults (c_world (conn_of c s')) = []"
    and "chans s' = chans s" and "pending c s' = pending c s" and "s' = s\<lparr>conns := conns s'\<rparr>"
proof -
  let ?k = "ch_conn (chans s c)"
  let ?h = "c_world (conns s ?k)"
  have r: "isActive s" "calState readable (chans s c)" "packetCodec (th_ops s) = NewVariableLengthCodec"
      "payloadCodec (th_ops s) = NewTextCodec" "faults ?h = []"
    using assms(1) by (simp_all add: serves_def calState_def state_defs)
  have room: "wf_room (base_of (connection_Writer ?h)) (5 + length b)" using assms(3) by (simp add: connection_Writer_ok)
  have acc: "accepts (snd (connection_Writer ?h))" using r(5) by (simp add: accepts_def connection_Writer_ok)
  from tx.var_Encode_ok[OF connection_Writer_ok(1,2) acc enc room] obtain w where
    w: "variableLengthCodec_Encode m (connection_Writer ?h) NewTextCodec = (Ok (), w)"
      "sent (snd w) = sent ?h @ frame b"
    by (auto simp: connection_Writer_ok frame_def)
  have f: "faults (snd w) = []"
    using tx.var_Encode_faults[OF connection_Writer_ok(1,2) _ enc room w(1)] r(5) by (simp add: connection_Writer_ok)
  let ?s' = "s\<lparr>conns := (conns s)(?k := (conns s ?k)\<lparr>c_world := snd w\<rparr>)\<rparr>"
  have "th_outboundHandler x c m s = (Ok (), ?s')"
    using r w(1) by (cases w) (simp add: th_outboundHandler_def channel_Writer_def OnWrite_cases isActive_def NewVariableLengthCodec_def Let_def)
  then show thesis
    using w(2) f by (intro that[of ?s']) (simp_all add: same_service_def isActive_def conn_of_def pending_def)
qed

lemma Write_text:
  assumes "ready r c s" and "length b \<le> 251"
  obtains s' where "channel_Write (out_mw ap) out_handler c (StringMsg b) s = (Ok (), s')" and "same_service c s s'"
    and "sent (c_world (conn_of c s')) = sent (c_world (conn_of c s)) @ frame b" and "faults (c_world (conn_of c s')) = []"
    and "ch_tasks (chans s' c) = ch_tasks (chans s c)" and "pending c s' = pending c s"
proof -
  let ?p = "ch_pl (chans s c)" and ?s1 = "addTask WriteEvent c s"
  have r: "counters_ok (ch_tasks (chans s c))" "plain_pipeline r c (pls s ?p)" "calState writeable (chans s c)"
      "faults (c_world (conns s (ch_conn (chans s c)))) = []"
    using assms(1) by (simp_all add: ready_def calState_def state_defs)
  have c1: "conn_of c ?s1 = conn_of c s" using conn_of_same[OF addTask_service(1,3)] .
  then have "ready r c ?s1"
    using ready_same[OF assms(1) addTask_service(1), of WriteEvent] r Done_Add(2)[OF r(1), of WriteEvent]
    by (simp add: addTask_tasks conn_of_def)
  then obtain s2 where s2: "th_outboundHandler (ch_ctx (chans s c)) c (StringMsg b) ?s1 = (Ok (), s2)" "same_service c ?s1 s2"
      "sent (c_world (conn_of c s2)) = sent (c_world (conn_of c ?s1)) @ frame b" "faults (c_world (conn_of c s2)) = []"
      "chans s2 = chans ?s1" "pending c s2 = pending c ?s1"
    by (rule outbound_text[OF ready_serves, of r c ?s1 "StringMsg b" b]) (use assms(2) in simp_all)
  let ?s3 = "upd_ch c (\<lambda>ch. ch\<lparr>ch_tasks := ch_tasks (chans s c)\<rparr>) s2"
  have "Recorder WriteEvent th_outboundHandler (ch_ctx (chans s c)) c (StringMsg b) s = (Ok (), ?s3)"
    using Recorder_ok[OF r(1), of WriteEvent th_outboundHandler "ch_ctx (chans s c)" "StringMsg b" s2] s2(1,5) by simp
  then have "channel_Write (out_mw ap) out_handler c (StringMsg b) s = (Ok (), ?s3)"
    using r(2,3) by (simp add: channel_Write_def FireOutbound_def Let_def plain_pipeline_def)
  moreover have "same_service c s ?s3"
    using same_service_trans[OF same_service_trans[OF addTask_service(1) s2(2)] set_tasks_service(1)] .
  moreover have "conn_of c ?s3 = conn_of c s2" using conn_of_same[OF set_tasks_service(1,3)] .
  ultimately show thesis
    using s2 c1 by (intro that[of ?s3]) (simp_all add: set_tasks_service addTask_service)
qed

section \<open>Answering\<close>

text \<open>A router that answers every message with itself.\<close>

definition echo_app :: "nat \<Rightarrow> ('v, ('v, 'z) tcp_sys_scheme) app \<Rightarrow> bool" where
  "echo_app r ap \<longleftrightarrow>
     (\<forall>x c m s. app_router ap r x c m s = (Ok (\<lambda>x c m s. channel_Write (out_mw ap) out_handler c m s), s))"

text \<open>
  A message for a pipeline whose router gives a handler that sends \<open>out\<close>: the recorders around it
  count the task up and down again.
\<close>

lemma inbound_router:
  assumes rt: "\<And>x c m s. app_router ap r x c m s = (Ok h, s)" and rd: "ready r c s"
    and h: "\<And>s1. ready r c s1 \<Longrightarrow> same_service c s s1 \<Longrightarrow> conns s1 = conns s \<Longrightarrow> P s1 \<Longrightarrow>
      \<exists>s2. h (ch_ctx (chans s c)) c (StringMsg b) s1 = (Ok (), s2) \<and> same_service c s1 s2 \<and> faults (c_world (conn_of c s2)) = [] \<and>
        sent (c_world (conn_of c s2)) = sent (c_world (conn_of c s1)) @ out \<and>
        ch_tasks (chans s2 c) = ch_tasks (chans s1 c) \<and> pending c s2 = pending c s1 \<and> Q s2"
    and P: "P (addTask ReadEvent c (drop_task (InboundTask c (StringMsg b)) s))"
    and Q: "\<And>s2 wg. Q s2 \<Longrightarrow> Q (upd_ch c (\<lambda>ch. ch\<lparr>ch_tasks := wg\<rparr>) s2)"
  obtains s' where "run_inbound ap c (StringMsg b) s = (Ok (), s')" and "same_service c s s'" and "ready r c s'"
    and "sent (c_world (conn_of c s')) = sent (c_world (conn_of c s)) @ out"
    and "pending c s' = remove1 b (pending c s)" and "Q s'"
proof -
  define s0 where "s0 = drop_task (InboundTask c (StringMsg b)) s"
  have s0: "same_service c s s0" "chans s0 = chans s" "conns s0 = conns s" "pls s0 = pls s"
    by (simp_all add: s0_def drop_task_def same_service_def isActive_def conn_of_def)
  let ?s1 = "addTask ReadEvent c s0" and ?x = "ch_ctx (chans s c)" and ?wg = "ch_tasks (chans s c)"
  have r: "counters_ok ?wg" "plain_pipeline r c (pls s (ch_pl (chans s c)))" "faults (c_world (conn_of c s)) = []"
    using rd by (simp_all add: ready_def conn_of_def)
  have c0: "conn_of c s0 = conn_of c s" using conn_of_same[OF s0(1,3)] .
  have c1: "conn_of c ?s1 = conn_of c s" by (rule conn_of_same[OF addTask_service(1,3), THEN trans, OF c0])
  have ss1: "same_service c s ?s1" using same_service_trans[OF s0(1) addTask_service(1)] .
  have "ready r c ?s1"
    using ready_same[OF rd ss1] r(1,3) c1 Done_Add(2)[OF r(1), of ReadEvent] by (simp add: addTask_tasks s0)
  from h[OF this ss1 _ P[folded s0_def]] obtain s2 where s2: "h ?x c (StringMsg b) ?s1 = (Ok (), s2)" "same_service c ?s1 s2"
      "sent (c_world (conn_of c s2)) = sent (c_world (conn_of c ?s1)) @ out" "faults (c_world (conn_of c s2)) = []"
      "ch_tasks (chans s2 c) = ch_tasks (chans ?s1 c)" "pending c s2 = pending c ?s1" "Q s2"
    by (auto simp: addTask_service s0)
  let ?h = "newRouter (app_router ap r) emptyHandler" and ?s3 = "upd_ch c (\<lambda>ch. ch\<lparr>ch_tasks := ?wg\<rparr>) s2"
  have "?h ?x c (StringMsg b) ?s1 = (Ok (), s2)" using rt s2(1) by (simp add: newRouter_def)
  then have "Recorder ReadEvent ?h ?x c (StringMsg b) s0 = (Ok (), ?s3)"
    using Recorder_ok[of s0 c ReadEvent ?h ?x "StringMsg b" s2] r(1) s2(5) s0 by simp
  then have run: "run_inbound ap c (StringMsg b) s = (Ok (), ?s3)"
    using r(2) s0 unfolding run_inbound_def s0_def[symmetric]
    by (simp add: TriggerInbound_def FireInbound_def Let_def plain_pipeline_def)
  have ss: "same_service c s ?s3"
    using same_service_trans[OF ss1 same_service_trans[OF s2(2) set_tasks_service(1)]] .
  have c3: "conn_of c ?s3 = conn_of c s2" using conn_of_same[OF set_tasks_service(1,3)] .
  have "ready r c ?s3" using ready_same[OF rd ss] r(1) s2(4) c3 by (simp add: set_tasks_service)
  moreover have "pending c ?s3 = remove1 b (pending c s)"
    using s2(6) by (simp add: set_tasks_service addTask_service s0_def pending_drop)
  ultimately show thesis using run ss s2(3) c1 c3 Q[OF s2(7)] by (intro that[of ?s3]) simp_all
qed

lemma inbound_echo:
  assumes "echo_app r ap" and "ready r c s" and "length b \<le> 251"
  obtains s' where "run_inbound ap c (StringMsg b) s = (Ok (), s')" and "same_service c s s'" and "ready r c s'"
    and "sent (c_world (conn_of c s')) = sent (c_world (conn_of c s)) @ frame b"
    and "pending c s' = remove1 b (pending c s)"
proof -
  let ?h = "\<lambda>x c m s. channel_Write (out_mw ap) out_handler c m s"
  have rt: "app_router ap r x c m s = (Ok ?h, s)" for x c m s using assms(1) by (simp add: echo_app_def)
  show thesis
    by (rule inbound_router[OF rt assms(2), where P = "\<lambda>_. True" and Q = "\<lambda>_. True" and out = "frame b"])
      (use that in \<open>auto elim: Write_text[OF _ assms(3)]\<close>)
qed

text \<open>A round of the read loop takes a packet from the stream.\<close>

lemma round_serves:
  assumes "serves c s" and "ctx_channel cc = Some c" and "pooled_ok p" and "length b \<le> 251"
    and "flat (c_source (conn_of c s)) = frame b @ rest"
  obtains src where "read_round p cc s = (None, s\<lparr>tasks := tasks s @ [InboundTask c (StringMsg b)],
      conns := (conns s)(ch_conn (chans s c) := (conn_of c s)\<lparr>c_source := src\<rparr>)\<rparr>)" and "flat src = rest"
proof -
  have r: "isActive s" "Readable (chans s c)" "packetCodec (th_ops s) = NewVariableLengthCodec"
      "payloadCodec (th_ops s) = NewTextCodec" "256 \<le> maxReceiveMessageSize (th_ops s)" "tcp_ctx s = Some False"
    using assms(1) by (simp_all add: serves_def Readable_def calState_def state_defs)
  have f: "flat (c_source (conns s (ch_conn (chans s c)))) = length_header (length b) @ b @ rest"
    using assms(5) by (simp add: conn_of_def frame_def)
  obtain q src where q: "OnMessage p cc s = (Ok (), Submit (InboundTask c (StringMsg b)) (took c (BufR q) s))"
      "r_decorator q = Some src" "flat src = rest"
    by (rule OnMessage_text[OF r(1) assms(2) r(2) assms(3) r(3-5) assms(4) f])
  have "read_round p cc s = (None, s\<lparr>tasks := tasks s @ [InboundTask c (StringMsg b)],
      conns := (conns s)(ch_conn (chans s c) := (conn_of c s)\<lparr>c_source := src\<rparr>)\<rparr>)"
    using q(1,2) r(6) by (simp add: read_round_def Submit_def took_def Let_def conn_of_def)
  then show thesis using that q(3) by blast
qed

lemma round_reads:
  assumes "ready r c s" and "ctx_channel cc = Some c" and "pooled_ok p" and "length b \<le> 251"
    and "flat (c_source (conn_of c s)) = frame b @ rest"
  obtains s' where "read_round p cc s = (None, s')" and "ready r c s'" and "flat (c_source (conn_of c s')) = rest"
    and "c_world (conn_of c s') = c_world (conn_of c s)" and "pending c s' = pending c s @ [b]"
proof -
  obtain src where src: "read_round p cc s = (None, s\<lparr>tasks := tasks s @ [InboundTask c (StringMsg b)],
      conns := (conns s)(ch_conn (chans s c) := (conn_of c s)\<lparr>c_source := src\<rparr>)\<rparr>)" "flat src = rest"
    by (rule round_serves[OF ready_serves[OF assms(1)] assms(2-5)])
  show thesis
    by (rule that[OF src(1)]) (use assms(1) src(2) in \<open>simp_all add: ready_def isActive_def conn_of_def pending_def\<close>)
qed

section \<open>A connection being served\<close>

text \<open>
  The read loop and the goroutines that it starts run side by side: an event is a round of the read
  loop (with the reader that the pool hands out), or the run of a goroutine with a text.
\<close>

datatype event = ReadRound bufferReader | Serve bytes

fun serve_events ::
    "('v, ('v, 'z) tcp_sys_scheme) app \<Rightarrow> ctx \<Rightarrow> chid \<Rightarrow> event list \<Rightarrow> ('v, 'z) tcp_sys_scheme \<Rightarrow>
     unit outcome option \<times> ('v, 'z) tcp_sys_scheme" where
  "serve_events ap cc c [] s = (None, s)"
| "serve_events ap cc c (ReadRound p # es) s =
     (case read_round p cc s of
        (None, s1) \<Rightarrow> serve_events ap cc c es s1
      | (Some out, s1) \<Rightarrow> (Some out, s1))"
| "serve_events ap cc c (Serve t # es) s =
     (case run_inbound ap c (StringMsg t) s of
        (Ok _, s1) \<Rightarrow> serve_events ap cc c es s1
      | (out, s1) \<Rightarrow> (Some out, s1))"

text \<open>
  The orders in which events can happen when the stream holds the texts \<open>ts\<close> and \<open>pend\<close> are waiting:
  a goroutine runs at any time after its text was read. The texts of the events have at most 251
  bytes, and the pool hands out the readers that it can hold.
\<close>

fun schedule :: "bytes list \<Rightarrow> bytes list \<Rightarrow> event list \<Rightarrow> bool" where
  "schedule ts pend [] = True"
| "schedule (t # ts) pend (ReadRound p # es) = (pooled_ok p \<and> length t \<le> 251 \<and> schedule ts (pend @ [t]) es)"
| "schedule [] pend (ReadRound p # es) = False"
| "schedule ts pend (Serve t # es) = (t \<in> set pend \<and> length t \<le> 251 \<and> schedule ts (remove1 t pend) es)"

definition served :: "event list \<Rightarrow> bytes list" where
  "served es = concat (map (\<lambda>e. case e of Serve t \<Rightarrow> [t] | ReadRound p \<Rightarrow> []) es)"

lemma served_simps [simp]: "served [] = []" "served (ReadRound p # es) = served es" "served (Serve t # es) = t # served es"
  by (simp_all add: served_def)

text \<open>What is left of the stream after the events.\<close>

fun unread :: "bytes list \<Rightarrow> event list \<Rightarrow> bytes list" where
  "unread ts [] = ts"
| "unread ts (ReadRound p # es) = unread (tl ts) es"
| "unread ts (Serve t # es) = unread ts es"

lemma echo_events:
  assumes "echo_app r ap" and "ready r c s" and "ctx_channel cc = Some c"
    and "flat (c_source (conn_of c s)) = concat (map frame ts) @ rest" and "schedule ts (pending c s) es"
  shows "\<exists>s'. serve_events ap cc c es s = (None, s') \<and> ready r c s' \<and>
    sent (c_world (conn_of c s')) = sent (c_world (conn_of c s)) @ concat (map frame (served es)) \<and>
    flat (c_source (conn_of c s')) = concat (map frame (unread ts es)) @ rest \<and>
    mset (served es) + mset (pending c s') + mset (unread ts es) = mset (pending c s) + mset ts"
  using assms(2,4,5)
proof (induction es arbitrary: s ts)
  case (Cons e es)
  show ?case
  proof (cases e)
    case (ReadRound p)
    with Cons.prems(3) obtain t ts' where ts: "ts = t # ts'" "pooled_ok p" "length t \<le> 251"
        "schedule ts' (pending c s @ [t]) es"
      by (cases ts) auto
    have f: "flat (c_source (conn_of c s)) = frame t @ concat (map frame ts') @ rest" using Cons.prems(2) ts(1) by simp
    obtain s1 where s1: "read_round p cc s = (None, s1)" "ready r c s1" "flat (c_source (conn_of c s1)) = concat (map frame ts') @ rest"
        "c_world (conn_of c s1) = c_world (conn_of c s)" "pending c s1 = pending c s @ [t]"
      by (rule round_reads[OF Cons.prems(1) assms(3) ts(2,3) f])
    have sch: "schedule ts' (pending c s1) es" using ts(4) s1(5) by simp
    obtain s2 where s2: "serve_events ap cc c es s1 = (None, s2)" "ready r c s2"
        "sent (c_world (conn_of c s2)) = sent (c_world (conn_of c s1)) @ concat (map frame (served es))"
        "flat (c_source (conn_of c s2)) = concat (map frame (unread ts' es)) @ rest"
        "mset (served es) + mset (pending c s2) + mset (unread ts' es) = mset (pending c s1) + mset ts'"
      using Cons.IH[OF s1(2,3) sch] by blast
    have "mset (served es) + mset (pending c s2) + mset (unread ts' es) = mset (pending c s) + mset ts"
      unfolding s2(5) by (simp add: s1(5) ts(1))
    then show ?thesis using s2(1-4) s1(1,4) by (intro exI[of _ s2]) (simp add: ReadRound ts(1))
  next
    case (Serve t)
    with Cons.prems(3) have t: "t \<in> set (pending c s)" "length t \<le> 251" "schedule ts (remove1 t (pending c s)) es"
      by (cases ts; simp)+
    obtain s1 where s1: "run_inbound ap c (StringMsg t) s = (Ok (), s1)" "same_service c s s1" "ready r c s1"
        "sent (c_world (conn_of c s1)) = sent (c_world (conn_of c s)) @ frame t" "pending c s1 = remove1 t (pending c s)"
      by (rule inbound_echo[OF assms(1) Cons.prems(1) t(2)])
    have f: "flat (c_source (conn_of c s1)) = concat (map frame ts) @ rest"
      using Cons.prems(2) s1(2) by (simp add: same_service_def)
    have m: "mset (pending c s) = add_mset t (mset (pending c s1))" using t(1) s1(5) by simp
    have sch: "schedule ts (pending c s1) es" using t(3) s1(5) by simp
    obtain s2 where s2: "serve_events ap cc c es s1 = (None, s2)" "ready r c s2"
        "sent (c_world (conn_of c s2)) = sent (c_world (conn_of c s1)) @ concat (map frame (served es))"
        "flat (c_source (conn_of c s2)) = concat (map frame (unread ts es)) @ rest"
        "mset (served es) + mset (pending c s2) + mset (unread ts es) = mset (pending c s1) + mset ts"
      using Cons.IH[OF s1(3) f sch] by blast
    have "mset (t # served es) + mset (pending c s2) + mset (unread ts es) = mset (pending c s) + mset ts"
      using s2(5) m by simp
    then show ?thesis using s2(1-4) s1(1,4) by (intro exI[of _ s2]) (simp add: Serve)
  qed
qed simp

section \<open>From the start\<close>

text \<open>A handler with the default options and a router makes every connection it accepts ready to be served.\<close>

lemma accepted_ready:
  assumes "NewTransHandler rnd [WithRouter r] defaultTransOptions s0 = (Ok (), s)" and "tcp_ctx s0 = Some False"
    and "faults (c_world (conns s0 con)) = []"
  obtains s' where "OnConnect ap None x con s = (Ok (WithChannel x (nextCh s0)), s')" and "ready r (nextCh s0) s'"
    and "conn_of (nextCh s0) s' = conns s0 con" and "tasks s' = tasks s0"
proof -
  have s: "th_state s = serving" "packetCodec (th_ops s) = NewVariableLengthCodec" "payloadCodec (th_ops s) = NewTextCodec"
      "maxReceiveMessageSize (th_ops s) = 4194304" "maxChannelSize (th_ops s) = - 1" "channelCount s = 0"
      "tcp_ctx s = tcp_ctx s0" "conns s = conns s0" "nextCh s = nextCh s0" "tasks s = tasks s0"
      "poolNew s = Some \<lparr>onChannelChain = [], onChannelClosedChain = [CloseChannelHook], inbound = [RecorderIn],
         outbound = [RecorderOut], router = Some (RouterMw (Some r)), outboundHandler = Some TransOutbound, pl_ch = None,
         chocc = [], chIn = [], chOut = []\<rparr>"
      "MaxChannelIdleTime (o_kp (th_ops s)) = 0" "MaxChannelAge (o_kp (th_ops s)) = 0"
      "map_option Time (healthParams (o_kp (th_ops s))) = Some 0"
    using assms(1) by (auto simp: NewTransHandler_def Let_def ConsummateKeepaliveParams_def defaultTransOptions_def WithRouter_def
        NewPipelineFactory_def consummate_health_def)
  let ?c = "nextCh s0"
  obtain s1 where n: "NewChannel con (th_side s) None s = (Ok ?c, s1)" and s1: "chans s1 ?c =
        \<lparr>ch_ctx = Background, ch_conn = con, ch_state = inactive, ch_done = False, ch_pl = nextPl s,
         ch_tasks = NewWaitGroup, ch_side = th_side s, lastRead = 0, lastWrite = 0, ch_idle = Some (clock s)\<rparr>"
      "pls s1 (nextPl s) = the (poolNew s)\<lparr>pl_ch := Some ?c\<rparr>" "th_state s1 = serving" "th_ops s1 = th_ops s" "tcp_ctx s1 = tcp_ctx s"
      "conns s1 = conns s" "tasks s1 = tasks s"
    using s by (simp add: NewChannel_def Let_def pipeline_factory_def pool_Get_def upd_ch_def upd_pl_def)
  let ?s2 = "active ?c (SetContext ?c x s1)"
  have a: "channel_Activate (app_onChannel ap) x ?c s1 = (Ok (), ?s2)"
    using s1(1,2) s(11) by (simp add: channel_Activate_def FireOnChannel_def)
  obtain hp where hp: "healthParams (o_kp (th_ops s)) = Some hp" "Time hp = 0" using s(14) by auto
  have k: "prepareKeepalive ?c ?s2 = (Ok RegNone, ?s2)"
    using s s1(4) hp by (simp add: prepareKeepalive_def Let_def active_def SetContext_def upd_ch_def)
  let ?s3 = "?s2\<lparr>channelCount := channelCount ?s2 + 1, th_channels := (th_channels ?s2)(?c \<mapsto> RegNone)\<rparr>"
  have st: "isActive s" "isActive ?s3" using s(1) s1(3) by (simp_all add: isActive_def active_def SetContext_def upd_ch_def)
  then have "OnConnect ap None x con s = (Ok (WithChannel x ?c), ?s3)"
    using n a k s(6) by (simp add: OnConnect_def connect_deferred_def not_less[of _ 0])
  moreover have "ready r ?c ?s3"
    using st s s1 assms(2,3)
    by (simp add: ready_def active_def SetContext_def upd_ch_def plain_pipeline_def counters_ok_def NewWaitGroup_def)
  ultimately show thesis
    using s1 s(8,10) by (intro that[of ?s3]) (simp_all add: conn_of_def active_def SetContext_def upd_ch_def)
qed

text \<open>
  C2: from the stream and back. A handler is made with the default options and a router that answers
  every message with itself, and a connection is accepted that delivers packets with texts (those
  that are read have at most 251 bytes), in whatever segments. In every order in which the rounds of the read loop and the goroutines can run,
  nothing fails, each goroutine sends its text back as one whole packet, in the order in which the
  goroutines run, and every text that was read is either answered or still waiting: none is lost,
  none is answered twice.
\<close>

theorem echo_served:
  assumes "echo_app r ap" and "NewTransHandler rnd [WithRouter r] defaultTransOptions s0 = (Ok (), s)"
    and "tcp_ctx s0 = Some False" and "faults (c_world (conns s0 con)) = []" and "tasks s0 = []"
    and "flat (c_source (conns s0 con)) = concat (map frame ts) @ rest" and "schedule ts [] es"
  shows "\<exists>cc c s1 s'. OnConnect ap None x con s = (Ok cc, s1) \<and> serve_events ap cc c es s1 = (None, s') \<and>
    sent (c_world (conn_of c s')) = sent (c_world (conns s0 con)) @ concat (map frame (served es)) \<and>
    flat (c_source (conn_of c s')) = concat (map frame (unread ts es)) @ rest \<and>
    mset (served es) + mset (pending c s') + mset (unread ts es) = mset ts"
proof -
  let ?c = "nextCh s0"
  obtain s1 where s1: "OnConnect ap None x con s = (Ok (WithChannel x ?c), s1)" "ready r ?c s1" "conn_of ?c s1 = conns s0 con"
      "tasks s1 = tasks s0"
    by (rule accepted_ready[OF assms(2-4)])
  have p: "pending ?c s1 = []" using s1(4) assms(5) by (simp add: pending_def)
  have "flat (c_source (conn_of ?c s1)) = concat (map frame ts) @ rest" "schedule ts (pending ?c s1) es"
    using s1(3) p assms(6,7) by simp_all
  from echo_events[OF assms(1) s1(2) _ this, of "WithChannel x ?c"] s1(1,3) p show ?thesis by fastforce
qed

text \<open>An application that echoes, on top of one without hooks and middlewares.\<close>

definition echo0 :: "('v, ('v, 'z) tcp_sys_scheme) app" where
  "echo0 = app0\<lparr>app_router := (\<lambda>n x c m s. (Ok (\<lambda>x c m s. channel_Write (out_mw app0) out_handler c m s), s))\<rparr>"

lemma echo0_out_mw: "out_mw echo0 = out_mw app0"
proof
  fix k
  show "out_mw echo0 k = out_mw app0 k" by (cases k) (simp_all add: echo0_def)
qed

lemma echo0_echoes: "echo_app r echo0"
  unfolding echo_app_def echo0_out_mw by (simp add: echo0_def)

theorem echo_served_witness:
  "\<exists>cc c s1 s'. OnConnect echo0 None Background 0 (snd (NewTransHandler (\<lambda>_. 0) [WithRouter 7] defaultTransOptions
       (tcp0 [length_header 2, str ''hi'' @ length_header 3, str ''you''] (Some False)))) = (Ok cc, s1) \<and>
     serve_events echo0 cc c [ReadRound bufferReaderPool_New, ReadRound bufferReaderPool_New, Serve (str ''you''), Serve (str ''hi'')] s1
       = (None, s') \<and>
     sent (c_world (conn_of c s')) = frame (str ''you'') @ frame (str ''hi'')"
proof -
  let ?s0 = "tcp0 [length_header 2, str ''hi'' @ length_header 3, str ''you''] (Some False)"
  let ?n = "NewTransHandler (\<lambda>_. 0) [WithRouter 7] defaultTransOptions ?s0"
  have "fst ?n = Ok ()" by (simp add: NewTransHandler_def Let_def ConsummateKeepaliveParams_def defaultTransOptions_def WithRouter_def)
  then have n: "?n = (Ok (), snd ?n)" by (metis prod.collapse)
  have f: "flat (c_source (conns ?s0 0)) = concat (map frame [str ''hi'', str ''you'']) @ []"
    by (simp add: frame_def eval_nat_numeral)
  have w: "sent (c_world (conns ?s0 0)) = []" "faults (c_world (conns ?s0 0)) = []"
    by (simp_all add: conn_with_def conn0_def WrapConnection_def)
  have ne: "str ''you'' \<noteq> str ''hi''" by (metis length_map length_Cons list.size(3) str_def n_not_Suc_n nat.inject)
  show ?thesis
    using ne echo_served[OF echo0_echoes n _ w(2) _ f, of "[ReadRound bufferReaderPool_New, ReadRound bufferReaderPool_New,
        Serve (str ''you''), Serve (str ''hi'')]" Background] w(1) by (auto simp: pooled_New)
qed

end
