(* ===== verification/FakeClient.thy ===== *)
theory FakeClient
  imports TcpProps
begin

text \<open>
  The client of the manual tests (\<^verbatim>\<open>test/fake_client/client.go\<close>) and the function \<^verbatim>\<open>write\<close> with which
  \<^verbatim>\<open>test/keepalive/server.go\<close> sends: the other end of the protocol that a server speaks with its
  default codecs.
\<close>

section \<open>State\<close>

text \<open>A \<^verbatim>\<open>net.Conn\<close>: the segments that will arrive, the bytes written, and whether it was closed.\<close>

record netconn =
  n_source :: source
  n_written :: bytes
  n_closed :: bool

text \<open>What changes while a client runs: its context, its connection, and the state of the program that uses it.\<close>

record 's cl_state =
  cl_done :: bool
  cl_conn :: "netconn option"
  cl_reading :: nat
  cl_app :: 's

record 's fake_client =
  cl_network :: string
  cl_addr :: string
  cl_onConnect :: "('s cl_state \<Rightarrow> 's cl_state) option"
  cl_onMessage :: "(bytes \<Rightarrow> 's cl_state \<Rightarrow> go_error option \<times> 's cl_state) option"

section \<open>Operations (client.go)\<close>

definition ConnectSuccess :: "('s cl_state \<Rightarrow> 's cl_state) \<Rightarrow> 's fake_client \<Rightarrow> 's fake_client" where
  "ConnectSuccess fn c = c\<lparr>cl_onConnect := Some fn\<rparr>"

definition OnMessage_option :: "(bytes \<Rightarrow> 's cl_state \<Rightarrow> go_error option \<times> 's cl_state) \<Rightarrow> 's fake_client \<Rightarrow> 's fake_client" where
  "OnMessage_option fn c = c\<lparr>cl_onMessage := Some fn\<rparr>"

definition NewClient :: "string \<Rightarrow> string \<Rightarrow> ('s fake_client \<Rightarrow> 's fake_client) list \<Rightarrow> 's \<Rightarrow> 's fake_client \<times> 's cl_state" where
  "NewClient network addr ops a =
     (fold (\<lambda>op c. op c) ops \<lparr>cl_network = network, cl_addr = addr, cl_onConnect = None, cl_onMessage = None\<rparr>,
      \<lparr>cl_done = False, cl_conn = None, cl_reading = 0, cl_app = a\<rparr>)"

text \<open>\<open>dial\<close> is \<^verbatim>\<open>net.Dial\<close>. The read loop is started as a goroutine.\<close>

definition Client_Dial ::
    "(string \<Rightarrow> string \<Rightarrow> go_error + netconn) \<Rightarrow> 's fake_client \<Rightarrow> 's cl_state \<Rightarrow> unit outcome \<times> 's cl_state" where
  "Client_Dial dial c s =
     (case dial (cl_network c) (cl_addr c) of
        Inl e \<Rightarrow> (Panic (InvalidArgument ''dial err''), s)
      | Inr k \<Rightarrow>
          (let s1 = s\<lparr>cl_conn := Some k\<rparr>;
               s2 = (case cl_onConnect c of Some fn \<Rightarrow> fn s1 | None \<Rightarrow> s1)
           in (Ok (), s2\<lparr>cl_reading := cl_reading s2 + 1\<rparr>)))"

definition Client_Close :: "'s cl_state \<Rightarrow> unit outcome \<times> 's cl_state" where
  "Client_Close s =
     (case cl_conn s of
        None \<Rightarrow> (Panic NilDereference, s\<lparr>cl_done := True\<rparr>)
      | Some k \<Rightarrow> (Ok (), s\<lparr>cl_done := True, cl_conn := Some (k\<lparr>n_closed := True\<rparr>)\<rparr>))"

text \<open>\<open>conn.Read(buf)\<close> with a buffer of \<open>n\<close> zero bytes: what the buffer holds afterwards.\<close>

definition conn_Read :: "nat \<Rightarrow> 's cl_state \<Rightarrow> bytes outcome \<times> 's cl_state" where
  "conn_Read n s =
     (case cl_conn s of
        None \<Rightarrow> (Panic NilDereference, s)
      | Some k \<Rightarrow>
          (if n_closed k then (Err (ErrMsg ''use of closed network connection''), s)
           else case source_Read (n_source k) n of
                  ((bs, None), src) \<Rightarrow> (Ok (bs @ replicate (n - length bs) 0), s\<lparr>cl_conn := Some (k\<lparr>n_source := src\<rparr>)\<rparr>)
                | ((bs, Some e), src) \<Rightarrow> (Err e, s\<lparr>cl_conn := Some (k\<lparr>n_source := src\<rparr>)\<rparr>)))"

text \<open>
  One round of the loop of \<^verbatim>\<open>read\<close>; an error of the connection is turned into a panic, and every panic
  ends the loop silently. The number of bytes that were read is ignored.
\<close>

definition read_body :: "'s fake_client \<Rightarrow> 's cl_state \<Rightarrow> go_error option outcome \<times> 's cl_state" where
  "read_body c s =
     and_then (conn_Read 5 s) (\<lambda>header s.
     and_then (Uint32 header, s) (\<lambda>bodyLength s.
     and_then (conn_Read (unat bodyLength) s) (\<lambda>msg s.
       case cl_onMessage c of
         None \<Rightarrow> (Panic NilDereference, s)
       | Some fn \<Rightarrow> (case fn msg s of (err, s) \<Rightarrow> (Ok err, s)))))"

text \<open>The rounds of the loop, at most \<open>n\<close> of them, and whether it has ended.\<close>

fun Client_read :: "nat \<Rightarrow> 's fake_client \<Rightarrow> 's cl_state \<Rightarrow> bool \<times> 's cl_state" where
  "Client_read 0 c s = (False, s)"
| "Client_read (Suc n) c s =
     (if cl_done s then (True, s)
      else case read_body c s of
             (Ok None, s1) \<Rightarrow> Client_read n c s1
           | (_, s1) \<Rightarrow> (True, s1))"

section \<open>Sending (test/keepalive/server.go)\<close>

definition test_write :: "bytes \<Rightarrow> netconn \<Rightarrow> netconn" where
  "test_write msg k =
     (let header = overwrite 0 (PutUint32 (of_nat (length msg))) (replicate 5 0);
          content = header @ msg
      in if n_closed k then k else k\<lparr>n_written := n_written k @ content\<rparr>)"

section \<open>Both ends agree\<close>

lemma test_write_frame: "\<not> n_closed k \<Longrightarrow> test_write msg k = k\<lparr>n_written := n_written k @ frame msg\<rparr>"
  by (simp add: test_write_def frame_def length_header_def overwrite_def PutUint32_def Let_def numeral_eq_Suc)

lemma test_writes:
  "\<not> n_closed k \<Longrightarrow> n_written (fold test_write ts k) = n_written k @ concat (map frame ts)"
  by (induction ts arbitrary: k) (simp_all add: test_write_frame)

text \<open>Reading within a segment; an empty read leaves the segments alone.\<close>

definition with_chunks :: "bytes list \<Rightarrow> 's cl_state \<Rightarrow> 's cl_state" where
  "with_chunks cs s = s\<lparr>cl_conn := map_option (\<lambda>k. k\<lparr>n_source := (n_source k)\<lparr>chunks := cs\<rparr>\<rparr>) (cl_conn s)\<rparr>"

definition arriving :: "bytes list \<Rightarrow> 's cl_state \<Rightarrow> bool" where
  "arriving cs s \<longleftrightarrow> (\<exists>k. cl_conn s = Some k \<and> \<not> n_closed k \<and> chunks (n_source k) = cs)"

lemma arriving_simps [simp]:
  "arriving cs s \<Longrightarrow> arriving ds (with_chunks ds s)" "with_chunks ds (with_chunks cs s) = with_chunks ds s"
  "arriving cs s \<Longrightarrow> with_chunks cs s = s" "cl_done (with_chunks cs s) = cl_done s" "cl_app (with_chunks cs s) = cl_app s"
  "arriving cs (s\<lparr>cl_app := a\<rparr>) = arriving cs s" "with_chunks cs (s\<lparr>cl_app := a\<rparr>) = (with_chunks cs s)\<lparr>cl_app := a\<rparr>"
  by (auto simp: arriving_def with_chunks_def option.map_comp o_def)

lemma conn_Read_empty: "arriving cs s \<Longrightarrow> conn_Read 0 s = (Ok [], s)"
  by (auto simp: arriving_def conn_Read_def source_Read_def)

lemma conn_Read_within:
  assumes "arriving ((bs @ rs) # cs) s" and "bs \<noteq> []"
  shows "conn_Read (length bs) s = (Ok bs, with_chunks (if rs = [] then cs else rs # cs) s)"
  using assms by (auto simp: conn_Read_def source_Read_def arriving_def with_chunks_def)

definition after :: "bytes \<Rightarrow> bytes list \<Rightarrow> bytes list" where
  "after rs cs = (if rs = [] then cs else rs # cs)"

lemma read_packet:
  assumes "arriving ((frame t @ rs) # cs) s" and "length t < 2 ^ 32" and "cl_onMessage c = Some fn"
  shows "read_body c s = (case fn t (with_chunks (after rs cs) s) of (err, s) \<Rightarrow> (Ok err, s))"
proof -
  let ?s1 = "with_chunks (if t @ rs = [] then cs else (t @ rs) # cs) s"
  have a: "arriving ((length_header (length t) @ (t @ rs)) # cs) s" using assms(1) by (simp add: frame_def)
  have "length_header (length t) \<noteq> []" by (simp add: length_header_def)
  from conn_Read_within[OF a this] have h: "conn_Read 5 s = (Ok (length_header (length t)), ?s1)" by simp
  have a1: "arriving (if t @ rs = [] then cs else (t @ rs) # cs) ?s1" using assms(1) by simp
  have "conn_Read (length t) ?s1 = (Ok t, with_chunks (after rs cs) s)"
  proof (cases "t = []")
    case True
    then show ?thesis using conn_Read_empty[OF a1] by (simp add: after_def)
  next
    case False
    then have "arriving ((t @ rs) # cs) ?s1" using a1 by simp
    from conn_Read_within[OF this False] False show ?thesis by (simp add: after_def)
  qed
  moreover have "unat (of_nat (length t) :: uint32) = length t" using assms(2) by (simp add: unat_of_nat)
  ultimately show ?thesis using h assms(3) by (simp add: read_body_def)
qed

text \<open>
  C21: the client understands the server. When the packets of a server reach the client in segments
  that each hold one or more whole packets, the read loop of the client hands each text once and in
  the order of the stream to its callback, in one round each, and goes on; and what the test program
  sends with \<^verbatim>\<open>write\<close> is the stream of packets that the server's read loop takes apart.
\<close>

theorem client_reads_packets:
  assumes "\<not> cl_done s" and "arriving (map (\<lambda>ts. concat (map frame ts)) groups @ cs) s" and "\<forall>ts\<in>set groups. ts \<noteq> []"
    and "\<forall>t\<in>set (concat groups). length t < 2 ^ 32"
    and "cl_onMessage c = Some fn" and "\<forall>t s. fn t s = (None, s\<lparr>cl_app := g t (cl_app s)\<rparr>)"
  shows "Client_read (length (concat groups)) c s = (False, (with_chunks cs s)\<lparr>cl_app := fold g (concat groups) (cl_app s)\<rparr>) \<and>
    (\<forall>k. \<not> n_closed k \<longrightarrow> n_written (fold test_write (concat groups) k) = n_written k @ concat (map frame (concat groups)))"
proof
  have seg: "Client_read (length (t # ts) + n) c s =
      Client_read n c ((with_chunks cs s)\<lparr>cl_app := fold g (t # ts) (cl_app s)\<rparr>)"
    if "\<not> cl_done s" "arriving (concat (map frame (t # ts)) # cs) s" "\<forall>t\<in>set (t # ts). length t < 2 ^ 32" for t ts s cs n
    using that
  proof (induction ts arbitrary: t s)
    case Nil
    then show ?case using read_packet[of t "[]" cs s c fn] assms(5,6) by (simp add: after_def)
  next
    case (Cons u ts)
    let ?s1 = "with_chunks (concat (map frame (u # ts)) # cs) s"
    have ne: "frame u \<noteq> []" by (simp add: frame_def length_header_def)
    have "read_body c s = (Ok None, ?s1\<lparr>cl_app := g t (cl_app s)\<rparr>)"
      using read_packet[of t "concat (map frame (u # ts))" cs s c fn] Cons.prems assms(5,6) ne by (simp add: after_def)
    with Cons.IH[of "?s1\<lparr>cl_app := g t (cl_app s)\<rparr>" u] Cons.prems show ?case by simp
  qed
  show "Client_read (length (concat groups)) c s = (False, (with_chunks cs s)\<lparr>cl_app := fold g (concat groups) (cl_app s)\<rparr>)"
    using assms(1-4)
  proof (induction groups arbitrary: s)
    case Nil
    then show ?case by simp
  next
    case (Cons ts groups)
    then obtain u us where ts: "ts = u # us" by (cases ts) auto
    let ?cs = "map (\<lambda>ts. concat (map frame ts)) groups @ cs"
    let ?s1 = "(with_chunks ?cs s)\<lparr>cl_app := fold g ts (cl_app s)\<rparr>"
    have "Client_read (length ts + length (concat groups)) c s = Client_read (length (concat groups)) c ?s1"
      using seg[of s u us ?cs "length (concat groups)"] Cons.prems ts by simp
    moreover have "\<forall>t\<in>set (concat groups). length t < 2 ^ 32" using Cons.prems(4) by simp
    ultimately show ?case using Cons.IH[of ?s1] Cons.prems by simp
  qed
  show "\<forall>k. \<not> n_closed k \<longrightarrow> n_written (fold test_write (concat groups) k) = n_written k @ concat (map frame (concat groups))"
    using test_writes by blast
qed

definition netconn0 :: "bytes list \<Rightarrow> netconn" where
  "netconn0 cs = \<lparr>n_source = \<lparr>chunks = cs, fin = EOF\<rparr>, n_written = [], n_closed = False\<rparr>"

text \<open>A client that collects the messages it receives.\<close>

definition collector :: "bytes list fake_client \<times> bytes list cl_state" where
  "collector = NewClient ''tcp'' ''localhost:8888'' [OnMessage_option (\<lambda>t s. (None, s\<lparr>cl_app := t # cl_app s\<rparr>))] []"

lemma collector_dial:
  "Client_Dial (\<lambda>_ _. Inr (netconn0 cs)) (fst collector) (snd collector) =
     (Ok (), \<lparr>cl_done = False, cl_conn = Some (netconn0 cs), cl_reading = 1, cl_app = []\<rparr>)"
  "cl_onMessage (fst collector) = Some (\<lambda>t s. (None, s\<lparr>cl_app := t # cl_app s\<rparr>))"
  by (simp_all add: Client_Dial_def collector_def NewClient_def OnMessage_option_def)

theorem client_reads_packets_witness:
  "cl_app (snd (Client_read 3 (fst collector) (snd (Client_Dial (\<lambda>_ _. Inr (netconn0 [frame [1, 2], frame [] @ frame [7]]))
      (fst collector) (snd collector))))) = [[7], [], [1, 2]]"
proof -
  have a: "arriving (map (\<lambda>ts. concat (map frame ts)) [[[1, 2]], [[], [7]]] @ [])
      \<lparr>cl_done = False, cl_conn = Some (netconn0 [frame [1, 2], frame [] @ frame [7]]), cl_reading = 1, cl_app = [] :: bytes list\<rparr>"
    by (simp add: arriving_def netconn0_def)
  show ?thesis
    using client_reads_packets[OF _ a _ _ collector_dial(2), of "\<lambda>t a. t # a"] by (simp add: collector_dial numeral_3_eq_3)
qed

text \<open>A segment that ends inside a packet is taken for a whole packet: the client hands out bytes that were never sent.\<close>

lemma short_read_garbles:
  "cl_app (snd (Client_read 1 (fst collector) (snd (Client_Dial (\<lambda>_ _. Inr (netconn0 [length_header 3 @ [1], [2, 3]]))
      (fst collector) (snd collector))))) = [[1, 0, 0]]"
proof -
  let ?s = "\<lparr>cl_done = False, cl_conn = Some (netconn0 [length_header 3 @ [1], [2, 3]]), cl_reading = 1, cl_app = [] :: bytes list\<rparr>"
  have a: "arriving [length_header 3 @ [1], [2, 3]] ?s" by (simp add: arriving_def netconn0_def)
  have "length_header 3 \<noteq> []" by (simp add: length_header_def)
  from conn_Read_within[OF a this] have "conn_Read 5 ?s = (Ok (length_header 3), with_chunks [[1], [2, 3]] ?s)" by simp
  moreover have "conn_Read 3 (with_chunks [[1], [2, 3]] ?s) = (Ok [1, 0, 0], with_chunks [[2, 3]] ?s)"
    by (simp add: conn_Read_def with_chunks_def netconn0_def source_Read_def numeral_2_eq_2)
  ultimately have "read_body (fst collector) ?s = (Ok None, (with_chunks [[2, 3]] ?s)\<lparr>cl_app := [[1, 0, 0]]\<rparr>)"
    by (simp add: read_body_def collector_dial(2))
  then show ?thesis by (simp add: collector_dial(1))
qed

end
