(* ===== verification/ServerMod.thy ===== *)
theory ServerMod
  imports Tcp
begin

text \<open>
  The server (\<^verbatim>\<open>server/server.go\<close>) and the goroutine pool (\<^verbatim>\<open>pkg/pool/go/goroutine.go\<close>): options, the
  address a server listens at, starting and stopping. The variable \<^verbatim>\<open>DefaultAntsPoolSize\<close> is kept
  with the options, which are global as well.
\<close>

section \<open>The goroutine pool (goroutine.go)\<close>

text \<open>
  The pool of the package \<^verbatim>\<open>ants\<close>: only whether it is there, its capacity, and whether it was released.
  \<open>taken\<close> is the answer of its \<^verbatim>\<open>Submit\<close>, which may fail when the pool is full or closed.
\<close>

record ants_pool =
  ants_size :: nat
  ants_closed :: bool

definition DefaultAntsPoolSize :: nat where "DefaultAntsPoolSize = 2 ^ 18"

record 'v srv_sys = "'v tcp_sys" +
  gpool :: "ants_pool option"
  poolSize :: nat
  started :: nat

definition pool_Init :: "('v, 'z) srv_sys_scheme \<Rightarrow> ('v, 'z) srv_sys_scheme" where
  "pool_Init s = s\<lparr>gpool := Some \<lparr>ants_size = poolSize s, ants_closed = False\<rparr>\<rparr>"

text \<open>
  \<open>Submit\<close>: a task that the pool does not take runs on a goroutine of its own (counted by \<open>started\<close>);
  either way it runs.
\<close>

definition pool_Submit :: "bool \<Rightarrow> 'v task \<Rightarrow> ('v, 'z) srv_sys_scheme \<Rightarrow> ('v, 'z) srv_sys_scheme" where
  "pool_Submit taken t s =
     (if gpool s \<noteq> None \<and> taken then s\<lparr>tasks := tasks s @ [t]\<rparr>
      else s\<lparr>tasks := tasks s @ [t], started := started s + 1\<rparr>)"

text \<open>\<open>Release\<close> reboots the pool.\<close>

definition pool_Release :: "('v, 'z) srv_sys_scheme \<Rightarrow> ('v, 'z) srv_sys_scheme" where
  "pool_Release s = s\<lparr>gpool := map_option (\<lambda>p. p\<lparr>ants_closed := False\<rparr>) (gpool s)\<rparr>"

section \<open>Options (server.go)\<close>

record 'v serverOptions =
  srv_addr :: string
  srv_port :: string
  transport :: TCPOptions
  transOptions :: "('v options \<Rightarrow> 'v options) list"
  disableGPool :: bool
  antsPoolSize :: nat

definition defaultServerOptions :: "'v serverOptions" where
  "defaultServerOptions =
     \<lparr>srv_addr = ''127.0.0.1'', srv_port = ''8888'', transport = New [] DefaultOptions, transOptions = [], disableGPool = False,
      antsPoolSize = DefaultAntsPoolSize\<rparr>"

definition add_transOption :: "('v options \<Rightarrow> 'v options) \<Rightarrow> 'v serverOptions \<Rightarrow> 'v serverOptions" where
  "add_transOption f ops = ops\<lparr>transOptions := transOptions ops @ [f]\<rparr>"

definition WithTransport :: "TCPOptions \<Rightarrow> 'v serverOptions \<Rightarrow> 'v serverOptions" where
  "WithTransport t ops = ops\<lparr>transport := t\<rparr>"

definition WithOnChannel :: "nat list \<Rightarrow> 'v serverOptions \<Rightarrow> 'v serverOptions" where
  "WithOnChannel hs ops = (if 0 < length hs then add_transOption (AddOnChannel hs) ops else ops)"

definition WithOnChannelClosed :: "closedHook list \<Rightarrow> 'v serverOptions \<Rightarrow> 'v serverOptions" where
  "WithOnChannelClosed hs ops = (if 0 < length hs then add_transOption (AddOnChannelClosed hs) ops else ops)"

definition server_WithRouter :: "nat \<Rightarrow> 'v serverOptions \<Rightarrow> 'v serverOptions" where
  "server_WithRouter r = add_transOption (WithRouter r)"

definition KeepaliveParams :: "'v ServerParameters \<Rightarrow> 'v serverOptions \<Rightarrow> 'v serverOptions" where
  "KeepaliveParams p = add_transOption (Keepalive_option p)"

definition WithInboundMiddleware :: "inMw list \<Rightarrow> 'v serverOptions \<Rightarrow> 'v serverOptions" where
  "WithInboundMiddleware ms ops = (if 0 < length ms then add_transOption (AddInboundMiddleware ms) ops else ops)"

definition WithOutboundMiddleware :: "outMw list \<Rightarrow> 'v serverOptions \<Rightarrow> 'v serverOptions" where
  "WithOutboundMiddleware ms ops = (if 0 < length ms then add_transOption (AddOutboundMiddleware ms) ops else ops)"

definition server_MaxChannelSize :: "uint32 \<Rightarrow> 'v serverOptions \<Rightarrow> 'v serverOptions" where
  "server_MaxChannelSize sz = add_transOption (MaxChannelSize sz)"

definition server_MaxSendMessageSize :: "uint32 \<Rightarrow> 'v serverOptions \<Rightarrow> 'v serverOptions" where
  "server_MaxSendMessageSize sz = add_transOption (MaxSendMessageSize sz)"

definition server_MaxReceiveMessageSize :: "uint32 \<Rightarrow> 'v serverOptions \<Rightarrow> 'v serverOptions" where
  "server_MaxReceiveMessageSize sz = add_transOption (MaxReceiveMessageSize sz)"

definition DisableGoPool :: "'v serverOptions \<Rightarrow> 'v serverOptions" where
  "DisableGoPool ops = ops\<lparr>disableGPool := True\<rparr>"

definition MaxGoPoolCapacity :: "nat \<Rightarrow> 'v serverOptions \<Rightarrow> 'v serverOptions" where
  "MaxGoPoolCapacity sz ops = ops\<lparr>antsPoolSize := sz\<rparr>"

section \<open>Addresses\<close>

definition index_byte :: "char \<Rightarrow> string \<Rightarrow> nat option" where
  "index_byte ch xs = (if ch \<in> set xs then Some (length (takeWhile (\<lambda>x. x \<noteq> ch) xs)) else None)"

definition last_index_byte :: "char \<Rightarrow> string \<Rightarrow> nat option" where
  "last_index_byte ch xs = (case index_byte ch (rev xs) of None \<Rightarrow> None | Some i \<Rightarrow> Some (length xs - 1 - i))"

text \<open>
  \<^verbatim>\<open>net.SplitHostPort\<close>; \<open>None\<close> is an error, with which it returns empty strings.
\<close>

definition split_checks :: "string \<Rightarrow> nat \<Rightarrow> string \<Rightarrow> nat \<Rightarrow> nat \<Rightarrow> (string \<times> string) option" where
  "split_checks hostport i host j k =
     (if CHR ''['' \<in> set (drop j hostport) then None
      else if CHR '']'' \<in> set (drop k hostport) then None
      else Some (host, drop (i + 1) hostport))"

definition SplitHostPort :: "string \<Rightarrow> (string \<times> string) option" where
  "SplitHostPort hostport =
     (case last_index_byte (CHR '':'') hostport of
        None \<Rightarrow> None
      | Some i \<Rightarrow>
          (if hostport ! 0 = CHR ''['' then
             (case index_byte (CHR '']'') hostport of
                None \<Rightarrow> None
              | Some e \<Rightarrow>
                  (if e + 1 = length hostport then None
                   else if e + 1 = i then split_checks hostport i (take (e - 1) (drop 1 hostport)) 1 (e + 1)
                   else None))
           else if CHR '':'' \<in> set (take i hostport) then None
           else split_checks hostport i (take i hostport) 0 0))"

definition parseAddr :: "string \<Rightarrow> 'v serverOptions \<Rightarrow> string" where
  "parseAddr a ops =
     (let (addr, port) = (case SplitHostPort a of None \<Rightarrow> ([], []) | Some hp \<Rightarrow> hp);
          addr = (if length addr = 0 then srv_addr ops else addr);
          port = (if length port = 0 then srv_port ops else port)
      in addr @ '':'' @ port)"

section \<open>Servers\<close>

record 'v Server_rec =
  srv_listen :: string
  srv_ops :: "'v serverOptions"

text \<open>The options are the global default options, changed in place: \<open>defaults\<close> and the result's second part.\<close>

definition NewServer ::
    "string \<Rightarrow> ('v serverOptions \<Rightarrow> 'v serverOptions) list \<Rightarrow> 'v serverOptions \<Rightarrow> 'v Server_rec \<times> 'v serverOptions" where
  "NewServer addr op defaults =
     (let ops = fold (\<lambda>f acc. f acc) op defaults in (\<lparr>srv_listen = addr, srv_ops = ops\<rparr>, ops))"

text \<open>
  \<open>Run\<close> up to the goroutine that listens; \<open>defaults\<close> are the default options of the transport handler.
\<close>

definition Run ::
    "(int \<Rightarrow> int) \<Rightarrow> 'v options \<Rightarrow> 'v Server_rec \<Rightarrow> ('v, 'z) srv_sys_scheme \<Rightarrow> 'v Server_rec outcome \<times> ('v, 'z) srv_sys_scheme" where
  "Run rnd defaults srv s =
     (let srv1 = srv\<lparr>srv_listen := parseAddr (srv_listen srv) (srv_ops srv)\<rparr>
      in and_then (NewTransHandler rnd (transOptions (srv_ops srv)) defaults s) (\<lambda>_ s.
           let s1 = s\<lparr>tcp_ops := transport (srv_ops srv), poolSize := antsPoolSize (srv_ops srv)\<rparr>;
               s2 = (if \<not> disableGPool (srv_ops srv) then pool_Init s1 else s1)
           in (Ok srv1, s2)))"

text \<open>
  \<open>Shutdown\<close>: \<open>cs\<close> is the order in which \<open>Close\<close> of the handler visits the channels and \<open>meanwhile\<close> what the
  goroutines do while it waits; \<open>None\<close> means that it still waits.
\<close>

definition Shutdown ::
    "(('v, 'z) srv_sys_scheme \<Rightarrow> ('v, 'z) srv_sys_scheme) \<Rightarrow> chid list \<Rightarrow> ('v, 'z) srv_sys_scheme \<Rightarrow>
     ('v, 'z) srv_sys_scheme option" where
  "Shutdown meanwhile cs s =
     (let s1 = meanwhile (th_Close Background None cs s)
      in if th_Close_returns Background s1 then Some (pool_Release (transport_Close s1)) else None)"

text \<open>The goroutine that listens; the result tells whether the program exits, \<open>None\<close> that it goes on.\<close>

definition run_listen ::
    "(string \<Rightarrow> string \<Rightarrow> string outcome) \<Rightarrow> (string \<Rightarrow> unit outcome) \<Rightarrow> ('v, ('v, 'z) srv_sys_scheme) app \<Rightarrow>
     'v Server_rec \<Rightarrow> accepted list \<Rightarrow> (('v, 'z) srv_sys_scheme \<Rightarrow> ('v, 'z) srv_sys_scheme) \<Rightarrow> chid list \<Rightarrow>
     ('v, 'z) srv_sys_scheme \<Rightarrow> bool option \<times> ('v, 'z) srv_sys_scheme" where
  "run_listen resolve listen ap srv as meanwhile cs s =
     (case Listen resolve listen ap (srv_listen srv) as s of
        (None, s1) \<Rightarrow> (None, s1)
      | (Some (Err e), s1) \<Rightarrow>
          (case Shutdown meanwhile cs s1 of
             None \<Rightarrow> (None, meanwhile (th_Close Background None cs s1))
           | Some s2 \<Rightarrow> (Some True, s2))
      | (Some (Ok _), s1) \<Rightarrow> (Some False, s1)
      | (Some (Panic p), s1) \<Rightarrow> (Some True, s1)
      | (Some Hang, s1) \<Rightarrow> (None, s1))"

end
