(* ===== verification/KeepaliveTest.thy ===== *)
theory KeepaliveTest
  imports Registry Exchange FakeClient ServerMod
begin

text \<open>
  The program under \<^verbatim>\<open>test/keepalive\<close> (\<^verbatim>\<open>server.go\<close>): an application of the framework, with its hooks, its
  router and the client that it starts. It is the application on which the contracts of the hooks
  (\<open>app_hooks\<close>, \<open>system_hooks\<close>) are shown to be met by real code.
\<close>

section \<open>State\<close>

text \<open>
  The variables \<^verbatim>\<open>IDGenerator\<close>, \<^verbatim>\<open>channels\<close> and \<^verbatim>\<open>wg\<close>, and whether the \<^verbatim>\<open>once\<close> of the router is done. An
  \<^verbatim>\<open>IdentifierChannel\<close> is never changed, so it is its value.
\<close>

type_synonym IdentifierChannel = "uint32 \<times> chid"

record 'v kt_sys = "'v srv_sys" +
  IDGenerator :: uint32
  kt_channels :: "uint32 \<Rightarrow> IdentifierChannel option"
  kt_wg :: int
  kt_once :: bool

definition ping_text :: bytes where "ping_text = str ''ping''"
definition pong_text :: bytes where "pong_text = str ''pong''"
definition goaway_text :: bytes where "goaway_text = str ''go away''"
definition greeting :: bytes where "greeting = str ''hi client!''"

text \<open>\<open>ctx.Value(ctxIdentifierKey{})\<close>.\<close>

fun ctx_identifier :: "ctx \<Rightarrow> IdentifierChannel option" where
  "ctx_identifier (WithIdentifier x i c) = Some (i, c)"
| "ctx_identifier (WithChannel x c) = ctx_identifier x"
| "ctx_identifier _ = None"

text \<open>\<open>wg.Add(1)\<close> and \<open>wg.Done()\<close>.\<close>

definition wg_Add :: "('v, 'z) kt_sys_scheme \<Rightarrow> ('v, 'z) kt_sys_scheme" where
  "wg_Add s = s\<lparr>kt_wg := kt_wg s + 1\<rparr>"

definition wg_Done :: "('v, 'z) kt_sys_scheme \<Rightarrow> unit outcome \<times> ('v, 'z) kt_sys_scheme" where
  "wg_Done s = (if kt_wg s - 1 < 0 then Panic NegativeCounter else Ok (), s\<lparr>kt_wg := kt_wg s - 1\<rparr>)"

section \<open>The application\<close>

text \<open>A nil context makes \<^verbatim>\<open>context.WithValue\<close> panic, after the identifier has been taken.\<close>

definition ocIdentifier :: "ctx option \<Rightarrow> chid \<Rightarrow> ('v, 'z) kt_sys_scheme \<Rightarrow> ctx option outcome \<times> ('v, 'z) kt_sys_scheme" where
  "ocIdentifier x c s =
     (let i = IDGenerator s + 1;
          s1 = s\<lparr>IDGenerator := i, kt_channels := (kt_channels s)(i \<mapsto> (i, c))\<rparr>
      in case x of
           None \<Rightarrow> (Panic (InvalidArgument ''cannot create context from nil parent''), s1)
         | Some y \<Rightarrow> (Ok (Some (WithIdentifier y i c)), s1))"

definition deleteOnChannelClosed ::
    "ctx \<Rightarrow> chid \<Rightarrow> go_error option \<Rightarrow> ('v, 'z) kt_sys_scheme \<Rightarrow> unit outcome \<times> ('v, 'z) kt_sys_scheme" where
  "deleteOnChannelClosed x c err s =
     (case ctx_identifier x of
        None \<Rightarrow> (Ok (), s)
      | Some ich \<Rightarrow> wg_Done s)"

text \<open>
  The handler that the router returns for every message. The type assertion on the context panics when
  there is no identifier; the error of \<open>Write\<close> is dropped. The application has no outbound middlewares
  of its own, so \<open>omw\<close> gives those of the framework.
\<close>

definition test_handler :: "(outMw \<Rightarrow> ('v, ('v, 'z) kt_sys_scheme) Middleware) \<Rightarrow> ('v, ('v, 'z) kt_sys_scheme) Handler" where
  "test_handler omw x c m s =
     (case ctx_identifier x of
        None \<Rightarrow> (Panic TypeAssertion, s)
      | Some ich \<Rightarrow>
          (if kt_once s then (Ok (), s)
           else case channel_Write omw out_handler c (StringMsg greeting) s of
                  (Panic p, s1) \<Rightarrow> (Panic p, s1\<lparr>kt_once := True\<rparr>)
                | (Hang, s1) \<Rightarrow> (Hang, s1)
                | (_, s1) \<Rightarrow> (Ok (), s1\<lparr>kt_once := True\<rparr>)))"

definition test_router ::
    "ctx \<Rightarrow> chid \<Rightarrow> 'v message \<Rightarrow> ('v, 'z) kt_sys_scheme \<Rightarrow> ('v, ('v, 'z) kt_sys_scheme) Handler outcome \<times> ('v, 'z) kt_sys_scheme" where
  "test_router x c m s = (Ok (test_handler (out_mw app0)), s)"

text \<open>The names 0 of the hooks and of the router, in the options below, stand for these functions.\<close>

definition test_app :: "('v, ('v, 'z) kt_sys_scheme) app" where
  "test_app = \<lparr>app_onChannel = (\<lambda>_. ocIdentifier), app_closed = (\<lambda>_. deleteOnChannelClosed),
     app_in = (\<lambda>_ h. h), app_out = (\<lambda>_ h. h), app_router = (\<lambda>_. test_router)\<rparr>"

definition newServer :: "'v ServerParameters option \<Rightarrow> 'v serverOptions \<Rightarrow> 'v Server_rec \<times> 'v serverOptions" where
  "newServer params defaults =
     (case params of
        Some p \<Rightarrow> NewServer ''localhost'' [WithOnChannel [0], WithOnChannelClosed [UserClosed 0], server_WithRouter 0, KeepaliveParams p] defaults
      | None \<Rightarrow> NewServer ''localhost'' [WithOnChannel [0], WithOnChannelClosed [UserClosed 0], server_WithRouter 0] defaults)"

section \<open>The client\<close>

text \<open>
  What the client does with a message of the server; it writes to its own connection. The time it
  sleeps before it answers a ping is not modelled. The state of the program is whether \<^verbatim>\<open>cc\<close> is set.
\<close>

definition client_onMessage :: "bytes \<Rightarrow> bool cl_state \<Rightarrow> go_error option \<times> bool cl_state" where
  "client_onMessage m s =
     (let s1 = (if m = ping_text then s\<lparr>cl_conn := map_option (test_write pong_text) (cl_conn s)\<rparr> else s);
          s2 = (if m = goaway_text then snd (Client_Close s1) else s1)
      in (None, s2))"

definition test_client :: "bool fake_client \<times> bool cl_state" where
  "test_client = NewClient ''tcp'' ''localhost:8888''
     [ConnectSuccess (\<lambda>s. s\<lparr>cl_app := True\<rparr>), OnMessage_option client_onMessage] False"

text \<open>The goroutine that sends two messages, four seconds apart; \<open>i\<close> is a single digit.\<close>

definition client_msg :: "nat \<Rightarrow> bytes" where
  "client_msg i = str (''client msg'' @ [char_of (48 + i)])"

definition client_sends :: "bool cl_state \<Rightarrow> unit outcome \<times> bool cl_state" where
  "client_sends s =
     (if \<not> cl_app s then (Panic NilDereference, s)
      else (Ok (), fold (\<lambda>i s. s\<lparr>cl_conn := map_option (test_write (client_msg i)) (cl_conn s)\<rparr>) [0..<2] s))"

text \<open>
  The main function until it waits: the server and the client it has started. From then on the timer
  calls \<open>wg_Done\<close> after 20 seconds, a goroutine runs \<open>client_sends\<close>, and the function goes on, to block for ever,
  when \<open>wg_Wait\<close> holds. \<open>dial\<close> is \<^verbatim>\<open>net.Dial\<close>.
\<close>

definition KeepaliveServer ::
    "(int \<Rightarrow> int) \<Rightarrow> 'v ServerParameters option \<Rightarrow> 'v serverOptions \<Rightarrow> 'v options \<Rightarrow>
     (string \<Rightarrow> string \<Rightarrow> go_error + netconn) \<Rightarrow>
     ('v, 'z) kt_sys_scheme \<Rightarrow> ('v Server_rec \<times> bool cl_state) outcome \<times> ('v, 'z) kt_sys_scheme" where
  "KeepaliveServer rnd params sdefaults tdefaults dial s =
     and_then (Run rnd tdefaults (fst (newServer params sdefaults)) s) (\<lambda>srv s.
       let s1 = wg_Add s
       in case Client_Dial dial (fst test_client) (snd test_client) of
            (Ok _, cl') \<Rightarrow> (Ok (srv, cl'), s1)
          | (Err e, cl') \<Rightarrow> (Err e, s1)
          | (Panic p, cl') \<Rightarrow> (Panic p, s1)
          | (Hang, cl') \<Rightarrow> (Hang, s1))"

definition wg_Wait :: "('v, 'z) kt_sys_scheme \<Rightarrow> bool" where
  "wg_Wait s \<longleftrightarrow> kt_wg s = 0"

section \<open>The hooks keep their contract\<close>

lemma ocIdentifier_frame:
  assumes "ocIdentifier x c s = (out, s')"
  shows "same_table s s' \<and> chans s' = chans s \<and> tasks s' = tasks s \<and> pls s' = pls s \<and> nextPl s' = nextPl s \<and> pool s' = pool s \<and>
    poolNew s' = poolNew s"
  using assms by (auto simp: ocIdentifier_def Let_def same_table_def split: option.splits)

lemma deleteOnChannelClosed_frame:
  assumes "deleteOnChannelClosed x c err s = (out, s')"
  shows "same_table s s' \<and> chans s' = chans s \<and> tasks s' = tasks s \<and> pls s' = pls s \<and> nextPl s' = nextPl s \<and> pool s' = pool s \<and>
    poolNew s' = poolNew s"
  using assms by (auto simp: deleteOnChannelClosed_def wg_Done_def same_table_def split: option.splits)

interpretation test_system: system_hooks test_app
proof
  fix h n y x c err s out out' s'
  show "app_onChannel test_app h y c s = (out', s') \<Longrightarrow> same_table s s'"
    using ocIdentifier_frame[of y c s out' s'] by (simp add: test_app_def)
  show "app_closed test_app n x c err s = (out, s') \<Longrightarrow> same_table s s'"
    "app_closed test_app n x c err s = (out, s') \<Longrightarrow> nextPl s' = nextPl s \<and> pool s' = pool s \<and> poolNew s' = poolNew s"
    using deleteOnChannelClosed_frame[of x c err s out s'] by (simp_all add: test_app_def)
  show "ch_state (chans s c) = inactive \<Longrightarrow> app_closed test_app n x c err s = (out, s') \<Longrightarrow>
      chans s' = chans s \<and> tasks s' = tasks s \<and> pls s' = pls s"
    using deleteOnChannelClosed_frame[of x c err s out s'] by (simp add: test_app_def)
  show "app_onChannel test_app h y c s = (out', s') \<Longrightarrow>
      chans s' = chans s \<and> tasks s' = tasks s \<and> nextPl s' = nextPl s \<and> pool s' = pool s \<and> poolNew s' = poolNew s \<and>
      (\<forall>p. pl_ch (pls s' p) = pl_ch (pls s p) \<and> onChannelClosedChain (pls s' p) = onChannelClosedChain (pls s p))"
    using ocIdentifier_frame[of y c s out' s'] by (simp add: test_app_def)
qed

section \<open>Identifiers\<close>

text \<open>
  A channel whose pipeline has the hook gets the next identifier, in its context and in the table. Nothing
  ever takes an entry out of that table.
\<close>

lemma activated_identified:
  assumes "channel_Activate (app_onChannel test_app) x c s = (Ok (), s')" and "pl_ch (pls s (ch_pl (chans s c))) = Some c"
    and "onChannelChain (pls s (ch_pl (chans s c))) = [0]"
  shows "ctx_identifier (ch_ctx (chans s' c)) = Some (IDGenerator s + 1, c)" and "IDGenerator s' = IDGenerator s + 1"
    and "kt_channels s' = (kt_channels s)(IDGenerator s + 1 \<mapsto> (IDGenerator s + 1, c))"
  using assms by (auto simp: channel_Activate_def FireOnChannel_def test_app_def ocIdentifier_def SetContext_def active_def upd_ch_def Let_def
      split: if_splits)

lemma closing_keeps_identifiers: "deleteOnChannelClosed x c err s = (out, s') \<Longrightarrow> kt_channels s' = kt_channels s"
  by (auto simp: deleteOnChannelClosed_def wg_Done_def split: option.splits)

section \<open>The greeting\<close>

text \<open>
  The \<^verbatim>\<open>once\<close> belongs to the router, not to a channel: of all messages of all channels, only the first
  one is answered.
\<close>

lemma inbound_greeting:
  assumes "ready 0 c s" and "ctx_identifier (ch_ctx (chans s c)) \<noteq> None"
  obtains s' where "run_inbound test_app c (StringMsg b) s = (Ok (), s')" and "same_service c s s'" and "ready 0 c s'"
    and "sent (c_world (conn_of c s')) = sent (c_world (conn_of c s)) @ (if kt_once s then [] else frame greeting)"
    and "pending c s' = remove1 b (pending c s)" and "kt_once s'"
proof -
  let ?h = "test_handler (out_mw app0)" and ?out = "if kt_once s then [] else frame greeting"
  have rt: "app_router test_app 0 x c m s = (Ok ?h, s)" for x c m and s :: "('a, 'b) kt_sys_scheme"
    by (simp add: test_app_def test_router_def)
  have g: "length greeting \<le> 251" by (simp add: greeting_def str_def)
  have h: "\<exists>s2. ?h (ch_ctx (chans s c)) c (StringMsg b) s1 = (Ok (), s2) \<and> same_service c s1 s2 \<and> faults (c_world (conn_of c s2)) = [] \<and>
        sent (c_world (conn_of c s2)) = sent (c_world (conn_of c s1)) @ ?out \<and>
        ch_tasks (chans s2 c) = ch_tasks (chans s1 c) \<and> pending c s2 = pending c s1 \<and> kt_once s2"
    if r: "ready 0 c s1" and o: "kt_once s1 = kt_once s" for s1
  proof (cases "kt_once s")
    case True
    then show ?thesis using assms(2) o r by (auto simp: test_handler_def ready_def conn_of_def)
  next
    case False
    obtain s2 where s2: "channel_Write (out_mw app0) out_handler c (StringMsg greeting) s1 = (Ok (), s2)" "same_service c s1 s2"
        "sent (c_world (conn_of c s2)) = sent (c_world (conn_of c s1)) @ frame greeting" "faults (c_world (conn_of c s2)) = []"
        "ch_tasks (chans s2 c) = ch_tasks (chans s1 c)" "pending c s2 = pending c s1"
      by (rule Write_text[OF r g])
    have "same_service c s1 (s2\<lparr>kt_once := True\<rparr>)"
      using s2(2) by (auto simp: same_service_def isActive_def conn_of_def)
    then show ?thesis
      using assms(2) o False s2 by (auto simp: test_handler_def conn_of_def pending_def)
  qed
  show thesis
    by (rule inbound_router[OF rt assms(1), where P = "\<lambda>s1. kt_once s1 = kt_once s" and Q = kt_once and out = ?out])
      (use that h in \<open>auto simp: addTask_def drop_task_def upd_ch_def Submit_def Let_def\<close>)
qed

text \<open>The texts of a list, one after the other.\<close>

fun run_texts ::
    "('v, ('v, 'z) tcp_sys_scheme) app \<Rightarrow> chid \<Rightarrow> bytes list \<Rightarrow> ('v, 'z) tcp_sys_scheme \<Rightarrow> unit outcome \<times> ('v, 'z) tcp_sys_scheme" where
  "run_texts ap c [] s = (Ok (), s)"
| "run_texts ap c (b # bs) s = and_then (run_inbound ap c (StringMsg b) s) (\<lambda>_ s. run_texts ap c bs s)"

lemma greeted_once:
  assumes "ready 0 c s" and "ctx_identifier (ch_ctx (chans s c)) \<noteq> None"
  shows "\<exists>s'. run_texts test_app c bs s = (Ok (), s') \<and> ready 0 c s' \<and> (kt_once s' \<longleftrightarrow> kt_once s \<or> bs \<noteq> []) \<and>
    sent (c_world (conn_of c s')) = sent (c_world (conn_of c s)) @ (if kt_once s \<or> bs = [] then [] else frame greeting)"
  using assms
proof (induction bs arbitrary: s)
  case (Cons b bs)
  obtain s1 where s1: "run_inbound test_app c (StringMsg b) s = (Ok (), s1)" "same_service c s s1" "ready 0 c s1"
      "sent (c_world (conn_of c s1)) = sent (c_world (conn_of c s)) @ (if kt_once s then [] else frame greeting)" "kt_once s1"
    by (rule inbound_greeting[OF Cons.prems])
  have "ctx_identifier (ch_ctx (chans s1 c)) \<noteq> None" using s1(2) Cons.prems(2) by (simp add: same_service_def)
  from Cons.IH[OF s1(3) this] s1 show ?case by auto
qed simp

section \<open>The group of the main function\<close>

text \<open>
  The counter is raised once, for the timer of 20 seconds; but the hook counts it down for every channel
  that is closed as well. A channel that is closed before the timer fires leaves nothing for it: its
  call of \<open>Done\<close> panics.
\<close>

lemma Run_wg: "kt_wg (snd (Run rnd td srv s)) = kt_wg s"
proof -
  let ?ops = "transOptions (srv_ops srv)"
  obtain out s1 where n: "NewTransHandler rnd ?ops td s = (out, s1)" by fastforce
  have "kt_wg (snd (NewTransHandler rnd ?ops td s)) = kt_wg s"
    by (cases "ConsummateKeepaliveParams rnd (o_kp (fold (\<lambda>op acc. op acc) ?ops td))")
      (simp_all add: NewTransHandler_def NewPipelineFactory_def Let_def)
  with n show ?thesis by (cases out) (simp_all add: Run_def Let_def pool_Init_def)
qed

lemma timer_after_close_panics:
  assumes "KeepaliveServer rnd params sd td dial s = (Ok r, s1)" and "kt_wg s = 0" and "ctx_identifier x \<noteq> None"
    and "deleteOnChannelClosed x c err s2 = (out, s3)" and "kt_wg s2 = kt_wg s1"
  shows "out = Ok () \<and> wg_Wait s3 \<and> fst (wg_Done s3) = Panic NegativeCounter"
proof -
  obtain d cl where d: "Client_Dial dial (fst test_client) (snd test_client) = (d, cl)" by fastforce
  have "kt_wg s1 = 1"
    using d assms(1,2) Run_wg[of rnd td "fst (newServer params sd)" s] by (cases d) (auto simp: KeepaliveServer_def and_then_Ok_iff wg_Add_def Let_def)
  then show ?thesis using assms(3-5) by (auto simp: deleteOnChannelClosed_def wg_Done_def wg_Wait_def split: option.splits)
qed

section \<open>A ping and its answer\<close>

text \<open>The client answers a ping and goes on.\<close>

lemma client_pongs:
  assumes "\<not> cl_done s" and "arriving [frame ping_text] s" and "cl_onMessage cl = Some client_onMessage"
  shows "Client_read 1 cl s = (False, s\<lparr>cl_conn := map_option (test_write pong_text) (cl_conn (with_chunks [] s))\<rparr>)"
proof -
  have "ping_text \<noteq> goaway_text" "length ping_text < 2 ^ 32" by (simp_all add: ping_text_def goaway_text_def str_def)
  then have "read_body cl s = (Ok None, s\<lparr>cl_conn := map_option (test_write pong_text) (cl_conn (with_chunks [] s))\<rparr>)"
    using read_packet[of ping_text "[]" "[]" s cl client_onMessage] assms(2,3)
    by (simp add: after_def client_onMessage_def Let_def) (simp add: with_chunks_def)
  then show ?thesis using assms(1) by (simp add: One_nat_def)
qed

text \<open>Parameters for which the ping is a text that the peer answers with another one.\<close>

definition text_health :: "'v HealthParams \<Rightarrow> bool" where
  "text_health hp \<longleftrightarrow> text_enc (Ping hp) = Ok ping_text \<and> Pong hp \<noteq> NilMsg \<and> Ping hp \<noteq> NilMsg \<and>
     (\<exists>f. PingRecognizer hp = Some f \<and> \<not> f (StringMsg pong_text)) \<and>
     (\<exists>f. PongRecognizer hp = Some f \<and> f (StringMsg pong_text))"

text \<open>A channel with its keeper, and a pipeline whose first inbound middleware is that of the keepers.\<close>

definition kept :: "nat \<Rightarrow> chid \<Rightarrow> ('v, 'z) tcp_sys_scheme \<Rightarrow> bool" where
  "kept k c s \<longleftrightarrow> th_channels s c = Some (RegKeeper k) \<and> k_ch (keepers s k) = c \<and>
     pl_ch (pls s (ch_pl (chans s c))) = Some c \<and> outboundHandler (pls s (ch_pl (chans s c))) = Some TransOutbound \<and>
     (\<exists>ms. inbound (pls s (ch_pl (chans s c))) = KeepaliveMw # ms)"

lemma sendPing_text:
  assumes "serves c s" and "kept k c s" and "healthParams (kp (keepers s k)) = Some hp" and "text_health hp"
  obtains s' where "sendPing out_handler k s = (Ok True, s')" and "s' = s\<lparr>conns := conns s'\<rparr>" and "serves c s'"
    and "sent (c_world (conn_of c s')) = sent (c_world (conn_of c s)) @ frame ping_text"
proof -
  let ?x = "ch_ctx (chans s c)"
  have enc: "text_enc (Ping hp) = Ok ping_text" "length ping_text \<le> 251" using assms(4) by (simp_all add: text_health_def ping_text_def str_def)
  obtain s' where s': "th_outboundHandler ?x c (Ping hp) s = (Ok (), s')" "same_service c s s'"
      "sent (c_world (conn_of c s')) = sent (c_world (conn_of c s)) @ frame ping_text" "faults (c_world (conn_of c s')) = []"
      "s' = s\<lparr>conns := conns s'\<rparr>"
    by (rule outbound_text[OF assms(1) enc, of ?x])
  have "sendPing out_handler k s = (Ok True, s')"
    using s'(1) assms(2-4) by (auto simp: sendPing_def WriteDirectly_def pipeline_Outbound_def kept_def text_health_def)
  moreover have "serves c s'" using assms(1) s'(2,4) by (simp add: serves_def same_service_def conn_of_def)
  ultimately show thesis using that s'(3,5) by blast
qed

lemma inbound_pong:
  assumes "kept k c s" and "healthParams (kp (keepers s k)) = Some hp" and "text_health hp"
  shows "run_inbound ap c (StringMsg pong_text) s =
    (Ok (), upd_k k (\<lambda>kr. kr\<lparr>lastPong := clock s\<rparr>) (drop_task (InboundTask c (StringMsg pong_text)) s))"
  using assms
  by (auto simp: run_inbound_def TriggerInbound_def FireInbound_def Let_def kept_def text_health_def drop_task_def
      KeepaliveMiddleware_def kgetter_def recognizes_def split: option.splits)

text \<open>What the peer has sent arrives at the server, at time \<open>t\<close>.\<close>

definition arrives :: "chid \<Rightarrow> source \<Rightarrow> int \<Rightarrow> ('v, 'z) tcp_sys_scheme \<Rightarrow> ('v, 'z) tcp_sys_scheme" where
  "arrives c src t s = s\<lparr>clock := t, conns := (conns s)(ch_conn (chans s c) := (conn_of c s)\<lparr>c_source := src\<rparr>)\<rparr>"

lemma pong_arrives:
  assumes "serves c s" and "kept k c s" and "healthParams (kp (keepers s k)) = Some hp" and "text_health hp"
    and "ctx_channel cc = Some c" and "pooled_ok p" and "flat src = frame pong_text @ rest"
  obtains s' s'' where "read_round p cc (arrives c src t s) = (None, s')"
    and "run_inbound ap c (StringMsg pong_text) s' = (Ok (), s'')"
    and "keepers s'' k = (keepers s k)\<lparr>lastPong := t\<rparr>" and "flat (c_source (conn_of c s'')) = rest"
proof -
  let ?s = "arrives c src t s" and ?k = "ch_conn (chans s c)"
  have sv: "serves c ?s" using assms(1) by (simp add: serves_def arrives_def isActive_def conn_of_def)
  have g: "length pong_text \<le> 251" by (simp add: pong_text_def str_def)
  have f: "flat (c_source (conn_of c ?s)) = frame pong_text @ rest" using assms(7) by (simp add: arrives_def conn_of_def)
  obtain src' where r: "read_round p cc ?s = (None, ?s\<lparr>tasks := tasks ?s @ [InboundTask c (StringMsg pong_text)],
      conns := (conns ?s)(ch_conn (chans ?s c) := (conn_of c ?s)\<lparr>c_source := src'\<rparr>)\<rparr>)" "flat src' = rest"
    by (rule round_serves[OF sv assms(5,6) g f])
  let ?s' = "?s\<lparr>tasks := tasks ?s @ [InboundTask c (StringMsg pong_text)],
      conns := (conns ?s)(ch_conn (chans ?s c) := (conn_of c ?s)\<lparr>c_source := src'\<rparr>)\<rparr>"
  have "kept k c ?s'" "healthParams (kp (keepers ?s' k)) = Some hp" using assms(2,3) by (simp_all add: kept_def arrives_def)
  note i = inbound_pong[OF this assms(4), of ap]
  show thesis
    by (rule that[OF r(1) i]) (simp_all add: upd_k_def drop_task_def arrives_def conn_of_def r(2))
qed

text \<open>
  C15: a peer that answers its pings is kept. A health check that finds a channel silent, with no ping
  unanswered, sends a ping and no more; the packet that leaves the server makes the client of the tests,
  in one round of its read loop, write a packet; and when that packet arrives at the server (in whatever
  segments, and whatever follows it), a round of the read loop and the goroutine that it starts note the
  time as that of the last pong, so that no ping is unanswered at the next check, and take nothing else
  from the stream.
\<close>

theorem keepalive_handshake:
  assumes "serves c s" and "kept k c s" and "healthParams (kp (keepers s k)) = Some hp" and "text_health hp"
    and "\<not> k_done (keepers s k)" and "Time hp \<le> clock s - lastRead (chans s c)" and "lastPing (keepers s k) \<le> lastPong (keepers s k)"
    and "\<not> cl_done cl" and "arriving [] cl" and "ctx_channel cc = Some c" and "pooled_ok p" and "clock s \<le> t"
  shows "\<exists>s1 out cl' answer. health_fn out_handler hp k s = (Ok (), s1) \<and> lastPing (keepers s1 k) = clock s \<and>
    timers s1 = timers s @ [(clock s + Timeout hp, HealthFn k)] \<and>
    sent (c_world (conn_of c s1)) = sent (c_world (conn_of c s)) @ out \<and>
    Client_read 1 (fst test_client) (with_chunks [out] cl) = (False, cl') \<and>
    n_written (the (cl_conn cl')) = n_written (the (cl_conn cl)) @ answer \<and>
    (\<forall>src rest. flat src = answer @ rest \<longrightarrow> (\<exists>s2 s3. read_round p cc (arrives c src t s1) = (None, s2) \<and>
       run_inbound ap c (StringMsg pong_text) s2 = (Ok (), s3) \<and> lastPong (keepers s3 k) = t \<and>
       lastPing (keepers s3 k) \<le> lastPong (keepers s3 k) \<and> \<not> k_done (keepers s3 k) \<and> flat (c_source (conn_of c s3)) = rest))"
proof -
  obtain s' where s': "sendPing out_handler k s = (Ok True, s')" "s' = s\<lparr>conns := conns s'\<rparr>" "serves c s'"
      "sent (c_world (conn_of c s')) = sent (c_world (conn_of c s)) @ frame ping_text"
    by (rule sendPing_text[OF assms(1-4)])
  define s1 where "s1 = Timer_AfterFunc (Timeout hp) (HealthFn k) (upd_k k (\<lambda>kr. kr\<lparr>lastPing := clock s'\<rparr>) s')"
  have e: "clock s' = clock s" "keepers s' = keepers s" "timers s' = timers s" "chans s' = chans s" "pls s' = pls s"
      "th_channels s' = th_channels s"
    by (subst s'(2), simp)+
  have rd: "Readable (chans s c)" "k_ch (keepers s k) = c"
    using assms(1,2) by (simp_all add: serves_def kept_def Readable_def calState_def state_defs)
  have h: "health_fn out_handler hp k s = (Ok (), s1)"
    using assms(5-7) rd s'(1) by (simp add: health_fn_def Let_def LastRead_def s1_def)
  have s1: "serves c s1" "kept k c s1" "healthParams (kp (keepers s1 k)) = Some hp" "conn_of c s1 = conn_of c s'"
      "keepers s1 k = (keepers s k)\<lparr>lastPing := clock s\<rparr>" "timers s1 = timers s @ [(clock s + Timeout hp, HealthFn k)]"
    using s'(3) assms(2,3)
    by (simp_all add: s1_def serves_def kept_def isActive_def conn_of_def upd_k_def Timer_AfterFunc_def e)
  let ?cl = "with_chunks [frame ping_text] cl"
  have cl: "Client_read 1 (fst test_client) ?cl = (False, ?cl\<lparr>cl_conn := map_option (test_write pong_text) (cl_conn (with_chunks [] ?cl))\<rparr>)"
    by (rule client_pongs) (use assms(8,9) in \<open>simp_all add: test_client_def NewClient_def ConnectSuccess_def OnMessage_option_def\<close>)
  have w: "n_written (the (map_option (test_write pong_text) (cl_conn (with_chunks [] ?cl)))) = n_written (the (cl_conn cl)) @ frame pong_text"
    using assms(9) by (auto simp: arriving_def with_chunks_def test_write_frame)
  have bk: "\<exists>s2 s3. read_round p cc (arrives c src t s1) = (None, s2) \<and>
       run_inbound ap c (StringMsg pong_text) s2 = (Ok (), s3) \<and> lastPong (keepers s3 k) = t \<and>
       lastPing (keepers s3 k) \<le> lastPong (keepers s3 k) \<and> \<not> k_done (keepers s3 k) \<and> flat (c_source (conn_of c s3)) = rest"
    if "flat src = frame pong_text @ rest" for src rest
    by (rule pong_arrives[OF s1(1-3) assms(4,10,11) that, of t ap]) (use assms(5,12) s1(5) in auto)
  let ?cl' = "?cl\<lparr>cl_conn := map_option (test_write pong_text) (cl_conn (with_chunks [] ?cl))\<rparr>"
  have n: "n_written (the (cl_conn ?cl')) = n_written (the (cl_conn cl)) @ frame pong_text" unfolding w[symmetric] by simp
  show ?thesis
    by (rule exI[of _ s1], rule exI[of _ "frame ping_text"], rule exI[of _ ?cl'], rule exI[of _ "frame pong_text"])
      (intro conjI h cl n s1(6); use s1(4,5) s'(4) bk in simp)
qed

definition test_health :: "'v HealthParams" where
  "test_health = \<lparr>Time = 3 * second, Timeout = 2 * second, Ping = BytesMsg ping_text, PingRecognizer = Some (\<lambda>m. m = StringMsg ping_text),
     Pong = BytesMsg pong_text, PongRecognizer = Some (\<lambda>m. m = StringMsg pong_text)\<rparr>"

definition hand0 :: "unit tcp_sys" where
  "hand0 = (tcp0 [] (Some False))\<lparr>clock := 3 * second, th_channels := [0 \<mapsto> RegKeeper 0],
     keepers := (\<lambda>_. keeper0\<lparr>kp := (kp keeper0)\<lparr>healthParams := Some test_health\<rparr>\<rparr>),
     pls := (\<lambda>_. pipeline0\<lparr>inbound := [KeepaliveMw, RecorderIn]\<rparr>)\<rparr>"

definition hand_client :: "bool cl_state" where
  "hand_client = \<lparr>cl_done = False, cl_conn = Some (netconn0 []), cl_reading = 1, cl_app = True\<rparr>"

lemma hand0_facts:
  "serves 0 hand0" "kept 0 0 hand0" "healthParams (kp (keepers hand0 0)) = Some test_health" "text_health test_health"
  "\<not> k_done (keepers hand0 0)" "Time test_health \<le> clock hand0 - lastRead (chans hand0 0)"
  "lastPing (keepers hand0 0) \<le> lastPong (keepers hand0 0)" "clock hand0 \<le> 4 * second" "\<not> cl_done hand_client" "arriving [] hand_client"
proof -
  show "serves 0 hand0"
    by (simp add: serves_def hand0_def defaultTransOptions_def conn_with_def conn0_def WrapConnection_def channel0_def) (simp add: isActive_def tcp0_def trans_sys.defs tcp_sys.defs trans0_def)
qed (simp_all add: hand0_def hand_client_def kept_def text_health_def test_health_def keeper0_def pipeline0_def channel0_def
    second_def arriving_def netconn0_def ping_text_def pong_text_def str_def)

theorem keepalive_handshake_witness:
  "\<exists>s1 out cl' answer s2 s3. health_fn out_handler test_health 0 hand0 = (Ok (), s1) \<and>
     sent (c_world (conn_of 0 s1)) = sent (c_world (conn_of 0 hand0)) @ out \<and>
     Client_read 1 (fst test_client) (with_chunks [out] hand_client) = (False, cl') \<and> n_written (the (cl_conn cl')) = answer \<and>
     read_round bufferReaderPool_New (WithChannel Background 0) (arrives 0 \<lparr>chunks = [answer], fin = EOF\<rparr> (4 * second) s1) = (None, s2) \<and>
     run_inbound app0 0 (StringMsg pong_text) s2 = (Ok (), s3) \<and> lastPong (keepers s3 0) = 4 * second"
proof -
  have c: "ctx_channel (WithChannel Background 0) = Some 0" by simp
  obtain s1 out cl' answer where h: "health_fn out_handler test_health 0 hand0 = (Ok (), s1)"
      "sent (c_world (conn_of 0 s1)) = sent (c_world (conn_of 0 hand0)) @ out"
      "Client_read 1 (fst test_client) (with_chunks [out] hand_client) = (False, cl')"
      "n_written (the (cl_conn cl')) = n_written (the (cl_conn hand_client)) @ answer"
      "\<forall>src rest. flat src = answer @ rest \<longrightarrow> (\<exists>s2 s3. read_round bufferReaderPool_New (WithChannel Background 0) (arrives 0 src (4 * second) s1) = (None, s2) \<and>
         run_inbound app0 0 (StringMsg pong_text) s2 = (Ok (), s3) \<and> lastPong (keepers s3 0) = 4 * second \<and>
         lastPing (keepers s3 0) \<le> lastPong (keepers s3 0) \<and> \<not> k_done (keepers s3 0) \<and> flat (c_source (conn_of 0 s3)) = rest)"
    using keepalive_handshake[OF hand0_facts(1-7,9,10) c pooled_New hand0_facts(8), of app0] by blast
  have n: "n_written (the (cl_conn cl')) = answer" using h(4) by (simp add: hand_client_def netconn0_def)
  from h(5)[rule_format, of "\<lparr>chunks = [answer], fin = EOF\<rparr>" "[]"] obtain s2 s3 where
    "read_round bufferReaderPool_New (WithChannel Background 0) (arrives 0 \<lparr>chunks = [answer], fin = EOF\<rparr> (4 * second) s1) = (None, s2)"
    "run_inbound app0 0 (StringMsg pong_text) s2 = (Ok (), s3)" "lastPong (keepers s3 0) = 4 * second" by auto
  with h(1-3) n show ?thesis by blast
qed

end
