(* ===== verification/ServerProps.thy ===== *)
theory ServerProps
  imports ServerMod TcpProps
begin

text \<open>
  Properties of the server: the address it listens at, and what \<^verbatim>\<open>Shutdown\<close> stops.
\<close>

section \<open>Addresses\<close>

definition plain_name :: "string \<Rightarrow> bool" where
  "plain_name xs \<longleftrightarrow> set xs \<inter> {CHR '':'', CHR ''['', CHR '']''} = {}"

lemma index_byte_append: "c \<notin> set xs \<Longrightarrow> index_byte c (xs @ c # ys) = Some (length xs)"
proof -
  assume "c \<notin> set xs"
  then have "takeWhile (\<lambda>x. x \<noteq> c) (xs @ c # ys) = xs" by (induction xs) auto
  then show ?thesis by (simp add: index_byte_def)
qed

lemma last_index_byte_append: "c \<notin> set ys \<Longrightarrow> last_index_byte c (xs @ c # ys) = Some (length xs)"
  using index_byte_append[of c "rev ys" "rev xs"] by (simp add: last_index_byte_def)

lemma last_index_byte_None: "c \<notin> set xs \<Longrightarrow> last_index_byte c xs = None"
  by (simp add: last_index_byte_def index_byte_def)

lemma SplitHostPort_plain:
  assumes "plain_name h" and "plain_name p"
  shows "SplitHostPort (h @ CHR '':'' # p) = Some (h, p)"
proof -
  have "last_index_byte (CHR '':'') (h @ CHR '':'' # p) = Some (length h)"
    using assms(2) by (intro last_index_byte_append) (auto simp: plain_name_def)
  moreover have "(h @ CHR '':'' # p) ! 0 \<noteq> CHR ''[''"
    using assms(1) by (cases h) (auto simp: plain_name_def)
  ultimately show ?thesis using assms by (auto simp: SplitHostPort_def split_checks_def plain_name_def)
qed

text \<open>More than one colon, and no brackets: not an address.\<close>

lemma SplitHostPort_colons:
  assumes "plain_name p" and "CHR '':'' \<in> set h" and "CHR ''['' \<notin> set h"
  shows "SplitHostPort (h @ CHR '':'' # p) = None"
proof -
  have "last_index_byte (CHR '':'') (h @ CHR '':'' # p) = Some (length h)"
    using assms(1) by (intro last_index_byte_append) (auto simp: plain_name_def)
  moreover have "(h @ CHR '':'' # p) ! 0 \<noteq> CHR ''[''" using assms(2,3) by (cases h) auto
  ultimately show ?thesis using assms(2) by (simp add: SplitHostPort_def)
qed

lemma SplitHostPort_brackets:
  assumes "plain_name p" and "CHR ''['' \<notin> set h" and "CHR '']'' \<notin> set h"
  shows "SplitHostPort (CHR ''['' # h @ CHR '']'' # CHR '':'' # p) = Some (h, p)"
proof -
  let ?a = "CHR ''['' # h @ CHR '']'' # CHR '':'' # p"
  have "last_index_byte (CHR '':'') ((CHR ''['' # h @ [CHR '']'']) @ CHR '':'' # p) = Some (length (CHR ''['' # h @ [CHR '']'']))"
    using assms(1) by (intro last_index_byte_append) (auto simp: plain_name_def)
  moreover have "index_byte (CHR '']'') ((CHR ''['' # h) @ CHR '']'' # CHR '':'' # p) = Some (length (CHR ''['' # h))"
    using assms(3) by (intro index_byte_append) auto
  ultimately show ?thesis using assms by (auto simp: SplitHostPort_def split_checks_def plain_name_def)
qed

text \<open>
  The address a server listens at. A host and a port are taken as they are, with the defaults for
  those that are empty. A host without a port is dropped together with the port: the server listens
  at the default address. An IPv6 host loses its brackets, and what is left is not an address.
\<close>

theorem listen_address:
  assumes "plain_name h" and "plain_name p" and "p \<noteq> []" and "CHR '':'' \<in> set v6"
    and "CHR ''['' \<notin> set v6" and "CHR '']'' \<notin> set v6"
  shows "parseAddr (h @ CHR '':'' # p) ops = (if h = [] then srv_addr ops else h) @ CHR '':'' # p \<and>
    parseAddr (h @ '':'') ops = (if h = [] then srv_addr ops else h) @ CHR '':'' # srv_port ops \<and>
    parseAddr h ops = srv_addr ops @ CHR '':'' # srv_port ops \<and>
    parseAddr (CHR ''['' # v6 @ CHR '']'' # CHR '':'' # p) ops = v6 @ CHR '':'' # p \<and>
    SplitHostPort (v6 @ CHR '':'' # p) = None"
proof -
  have "plain_name []" by (simp add: plain_name_def)
  with SplitHostPort_plain[OF assms(1)] have e: "SplitHostPort (h @ '':'') = Some (h, [])" by simp
  have n: "SplitHostPort h = None"
    using assms(1) last_index_byte_None[of "CHR '':''" h] by (simp add: SplitHostPort_def plain_name_def)
  show ?thesis
    using SplitHostPort_plain[OF assms(1,2)] e n SplitHostPort_brackets[OF assms(2,5,6)] SplitHostPort_colons[OF assms(2,4,5)] assms(3,4)
    by (auto simp: parseAddr_def)
qed

theorem listen_address_witness:
  "parseAddr ''10.0.0.1'' (defaultServerOptions :: unit serverOptions) = ''127.0.0.1:8888'' \<and>
   parseAddr ''[::1]:80'' (defaultServerOptions :: unit serverOptions) = ''::1:80'' \<and> SplitHostPort ''::1:80'' = None"
  using listen_address[of "''10.0.0.1''" "''80''" "''::1''" "defaultServerOptions :: unit serverOptions"]
  by (simp add: plain_name_def defaultServerOptions_def)

section \<open>Stopping\<close>

text \<open>The goroutines that \<^verbatim>\<open>Close\<close> of the handler starts, one after the other.\<close>

definition close_all :: "chid list \<Rightarrow> ('v, 'z) trans_sys_scheme \<Rightarrow> ('v, 'z) trans_sys_scheme" where
  "close_all cs = fold (\<lambda>c. run_closeChannel Background c None) cs"

fun is_close_task :: "'v task \<Rightarrow> bool" where
  "is_close_task (CloseChannelTask x c err) = True"
| "is_close_task t = False"

lemma closeChannel_close_tasks:
  "filter is_close_task (tasks (closeChannel x c err s)) = filter is_close_task (tasks s)"
  by (auto simp: closeChannel_def Let_def channel_Close_def upd_ch_def Submit_def Keeper_Close_def upd_k_def
      split: option.split registered.split)

lemma closeChannel_channels: "th_channels (closeChannel x c err s) = (th_channels s)(c := None)"
  by (auto simp: closeChannel_def Let_def channel_Close_def upd_ch_def Submit_def Keeper_Close_def upd_k_def
      split: option.split registered.split)

lemma closeChannel_th_state [simp]: "th_state (closeChannel x c err s) = th_state s"
  by (auto simp: closeChannel_def Let_def channel_Close_def upd_ch_def Submit_def Keeper_Close_def upd_k_def
      split: option.split registered.split)

lemma filter_remove1_head: "P x \<Longrightarrow> filter P xs = x # ys \<Longrightarrow> filter P (remove1 x xs) = ys"
  by (simp add: filter_remove1)

lemma close_all_spec:
  assumes "filter is_close_task (tasks s) = map (\<lambda>c. CloseChannelTask Background c None) cs"
  shows "filter is_close_task (tasks (close_all cs s)) = [] \<and> th_channels (close_all cs s) = th_channels s |` (- set cs) \<and>
    th_state (close_all cs s) = th_state s"
  using assms
proof (induction cs arbitrary: s)
  case (Cons c cs)
  let ?s1 = "run_closeChannel Background c None s"
  have "filter is_close_task (tasks ?s1) = map (\<lambda>c. CloseChannelTask Background c None) cs"
    using Cons.prems by (simp add: run_closeChannel_def closeChannel_close_tasks drop_task_def filter_remove1_head)
  from Cons.IH[OF this] show ?case
    by (auto simp: close_all_def run_closeChannel_def closeChannel_channels drop_task_def restrict_map_def fun_eq_iff)
qed (simp add: close_all_def restrict_map_def)

lemma th_Close_submits:
  assumes "th_state s = serving"
  shows "th_Close x err cs s = s\<lparr>th_state := closed, closingCtx := Some x,
    tasks := tasks s @ map (\<lambda>c. CloseChannelTask x c err) cs\<rparr>"
proof -
  have "fold (\<lambda>c. Submit (CloseChannelTask x c err)) cs t = t\<lparr>tasks := tasks t @ map (\<lambda>c. CloseChannelTask x c err) cs\<rparr>"
    for t :: "('a, 'b) trans_sys_scheme"
    by (induction cs arbitrary: t) (simp_all add: Submit_def)
  with assms show ?thesis by (simp add: th_Close_def)
qed

lemma close_all_tcp [simp]: "tcp_ctx (close_all cs s) = tcp_ctx s" "tcp_ops (close_all cs s) = tcp_ops s"
proof -
  have "tcp_ctx (run_closeChannel Background c None t) = tcp_ctx t \<and> tcp_ops (run_closeChannel Background c None t) = tcp_ops t"
    for c and t :: "('a, 'b) tcp_sys_scheme"
    by (auto simp: run_closeChannel_def drop_task_def closeChannel_def Let_def channel_Close_def upd_ch_def Submit_def
        Keeper_Close_def upd_k_def split: option.split registered.split)
  then show "tcp_ctx (close_all cs s) = tcp_ctx s" "tcp_ops (close_all cs s) = tcp_ops s"
    unfolding close_all_def by (induction cs arbitrary: s) simp_all
qed

text \<open>
  What the goroutines of \<open>Close\<close> do to a channel: it is inactive, the goroutine that finishes it has been
  started unless it was inactive before (\<open>b\<close>), and its keeper, if it has one, is stopped.
\<close>

definition shut :: "chid \<Rightarrow> bool \<Rightarrow> registered \<Rightarrow> ('v, 'z) trans_sys_scheme \<Rightarrow> bool" where
  "shut c b v s \<longleftrightarrow> ch_state (chans s c) = inactive \<and> (b \<longrightarrow> CloseWaitRead c Background None \<in> set (tasks s)) \<and>
     (\<forall>k. v = RegKeeper k \<longrightarrow> k_done (keepers s k))"

lemma Keeper_Close_simps [simp]:
  "chans (Keeper_Close k s) = chans s" "tasks (Keeper_Close k s) = tasks s"
  "k_done (keepers (Keeper_Close k s) j) = (j = k \<or> k_done (keepers s j))"
  by (auto simp: Keeper_Close_def upd_k_def)

lemma run_closeChannel_other:
  assumes "d \<noteq> c"
  shows "chans (run_closeChannel x d None s) c = chans s c" and "th_channels (run_closeChannel x d None s) c = th_channels s c"
  using assms
  by (auto simp: run_closeChannel_def closeChannel_def Let_def channel_Close_def upd_ch_def Submit_def drop_task_def channel_close_def
      Keeper_Close_def upd_k_def split: option.split registered.split)

lemma run_closeChannel_keeps_shut:
  assumes "shut c b v s"
  shows "shut c b v (run_closeChannel x d None s)"
proof -
  have "CloseWaitRead c Background None \<in> set (tasks s) \<Longrightarrow>
      CloseWaitRead c Background None \<in> set (remove1 (CloseChannelTask x d None) (tasks s))" by simp
  with assms show ?thesis
    by (auto simp: shut_def run_closeChannel_def closeChannel_def Let_def channel_Close_def upd_ch_def Submit_def drop_task_def
        channel_close_def inactive_def split: option.split registered.split)
qed

lemma run_closeChannel_shuts:
  assumes "th_channels s c = Some v"
  shows "shut c (ch_state (chans s c) \<noteq> inactive) v (run_closeChannel Background c None s)"
  using assms
  by (auto simp: shut_def run_closeChannel_def closeChannel_def Let_def channel_Close_def upd_ch_def Submit_def drop_task_def
      channel_close_def inactive_def split: registered.split)

lemma close_all_keeps_shut: "shut c b v s \<Longrightarrow> shut c b v (close_all cs s)"
  unfolding close_all_def by (induction cs arbitrary: s) (simp_all add: run_closeChannel_keeps_shut)

lemma close_all_shuts:
  "c \<in> set cs \<Longrightarrow> th_channels s c = Some v \<Longrightarrow> shut c (ch_state (chans s c) \<noteq> inactive) v (close_all cs s)"
proof (induction cs arbitrary: s)
  case (Cons d cs)
  let ?s1 = "run_closeChannel Background d None s"
  have e: "close_all (d # cs) s = close_all cs ?s1" by (simp add: close_all_def)
  show ?case
  proof (cases "d = c")
    case True
    then show ?thesis unfolding e using close_all_keeps_shut[OF run_closeChannel_shuts[OF Cons.prems(2)]] by simp
  next
    case False
    then have "c \<in> set cs" using Cons.prems(1) by simp
    from Cons.IH[OF this, of ?s1] show ?thesis unfolding e run_closeChannel_other[OF False] using Cons.prems(2) by blast
  qed
qed simp

text \<open>
  C14: \<^verbatim>\<open>Shutdown\<close> closes what is open and stops serving. It returns once the goroutines that close the
  channels have run; then the table of channels is empty, every channel that was registered is
  inactive, the goroutine that finishes it has been started unless it had been closed before, and its
  keeper is stopped; connections and messages are refused, and every read loop ends.
  The listening socket stays open: the loop that accepts connections goes on, and a connection that
  arrives afterwards is accepted, wrapped, and left open without anybody reading from it.
\<close>

theorem shutdown_stops_serving:
  assumes "th_state s = serving" and "tcp_ctx s = Some b" and "\<forall>t\<in>set (tasks s). \<not> is_close_task t"
    and "set cs = dom (th_channels s)" and "applyOptions (in_setopt i) (tcp_ops s) = None"
  shows "\<exists>s'. Shutdown (close_all cs) cs s = Some s' \<and> th_channels s' = Map.empty \<and>
    (\<forall>c v. th_channels s c = Some v \<longrightarrow>
       ch_state (chans s' c) = inactive \<and>
       (ch_state (chans s c) \<noteq> inactive \<longrightarrow> CloseWaitRead c Background None \<in> set (tasks s')) \<and>
       (\<forall>k. v = RegKeeper k \<longrightarrow> k_done (keepers s' k))) \<and>
    OnConnect ap pick x con s' = (Err (ErrMsg ''connect request was refused''), s') \<and>
    OnMessage p x s' = (Err (ErrMsg ''request was refused''), s') \<and>
    readLoop (p # ps) cc s' = (Some (Ok ()), s') \<and> accept_loop ap [Accepted i] s' = (None, wrap_incoming i s')"
proof -
  let ?s1 = "th_Close Background None cs s"
  let ?s' = "pool_Release (transport_Close (close_all cs ?s1))"
  note sub = th_Close_submits[OF assms(1), of Background None cs]
  have "filter is_close_task (tasks s) = []" using assms(3) by (simp add: filter_empty_conv)
  then have "filter is_close_task (tasks ?s1) = map (\<lambda>c. CloseChannelTask Background c None) cs"
    by (simp add: sub filter_map comp_def)
  note sp = close_all_spec[OF this]
  then have ret: "th_Close_returns Background (close_all cs ?s1)"
    by (auto simp: th_Close_returns_def filter_empty_conv)
  have tcp: "tcp_ctx ?s1 = Some b" "tcp_ops ?s1 = tcp_ops s" using assms(2) by (simp_all add: sub)
  have s': "tcp_ctx ?s' = Some True" "tcp_ops ?s' = tcp_ops s" "th_state ?s' = closed" "th_channels ?s' = Map.empty"
    using sp tcp assms(4) by (auto simp: pool_Release_def transport_Close_def sub restrict_map_def fun_eq_iff)
  have sh: "shut c (ch_state (chans s c) \<noteq> inactive) v ?s'" if "th_channels s c = Some v" for c v
  proof -
    have "c \<in> set cs" using assms(4) that by blast
    from close_all_shuts[OF this, of ?s1 v] that show ?thesis by (simp add: sub shut_def pool_Release_def transport_Close_def)
  qed
  from s' have na: "\<not> isActive ?s'" "\<not> isActive (wrap_incoming i ?s')"
    by (simp_all add: isActive_def serving_def closed_def wrap_incoming_def)
  have "accept_loop ap [Accepted i] ?s' = (None, wrap_incoming i ?s')"
    using assms(5) na(2) s'(2) by (simp add: accept_round_def OnConnect_def)
  moreover have "Shutdown (close_all cs) cs s = Some ?s'" using ret by (simp add: Shutdown_def)
  moreover have "OnConnect ap pick x con ?s' = (Err (ErrMsg ''connect request was refused''), ?s')"
    "OnMessage p x ?s' = (Err (ErrMsg ''request was refused''), ?s')" "readLoop (p # ps) cc ?s' = (Some (Ok ()), ?s')"
    using s' na(1) by (simp_all add: OnConnect_def OnMessage_def read_round_def)
  ultimately show ?thesis using s'(4) sh unfolding shut_def by blast
qed

definition srv0 :: "unit srv_sys" where
  "srv0 = tcp_sys.extend (tcp0 [] (Some False)) (srv_sys.fields None 4 0)"

lemma srv0_simps [simp]:
  "ch_state (chans srv0 0) = readWriteMode" "th_state srv0 = serving" "tcp_ctx srv0 = Some False" "tasks srv0 = []" "th_channels srv0 = [0 \<mapsto> RegNone]"
  by (simp_all add: srv0_def tcp0_def trans_sys.defs tcp_sys.defs srv_sys.defs trans0_def channel0_def)

theorem shutdown_stops_serving_witness:
  "\<exists>s'. Shutdown (close_all [0]) [0] srv0 = Some s' \<and> th_channels s' = Map.empty \<and> ch_state (chans s' 0) = inactive \<and>
     CloseWaitRead 0 Background None \<in> set (tasks s') \<and> readLoop [bufferReaderPool_New] (WithChannel Background 0) s' = (Some (Ok ()), s')"
  using shutdown_stops_serving[of srv0 False "[0]" "\<lparr>in_id = 1, in_conn = conn0, in_setopt = (\<lambda>_. None), in_pick = None\<rparr>"
      app0 None Background 1 bufferReaderPool_New "[]" "WithChannel Background 0"]
  by (auto simp: applyOptions_def state_defs)

end
