(* ===== verification/Logging.thy ===== *)
theory Logging
  imports Prelude
begin

text \<open>
  The logging package (\<^verbatim>\<open>log/level.go\<close>, \<^verbatim>\<open>log/value.go\<close>, \<^verbatim>\<open>log/std.go\<close>, \<^verbatim>\<open>log/log.go\<close>, \<^verbatim>\<open>log/global.go\<close>): levels,
  loggers with prefixes whose values may be computed when a line is logged, the logger that writes
  lines, and the global logger with its filter. A value is given by the text it is printed as; a
  \<^verbatim>\<open>Valuer\<close> is a function of the logger's context. A line is the name of its level and the pairs that
  are printed behind it; how \<^verbatim>\<open>fmt\<close> prints the arguments of the functions in front is a parameter.
\<close>

section \<open>Levels (level.go)\<close>

type_synonym Level = "8 word"

definition LevelDebug :: Level where "LevelDebug = 0"
definition LevelInfo :: Level where "LevelInfo = 1"
definition LevelWarn :: Level where "LevelWarn = 2"
definition LevelError :: Level where "LevelError = 3"
definition LevelFatal :: Level where "LevelFatal = 4"

lemmas level_defs = LevelDebug_def LevelInfo_def LevelWarn_def LevelError_def LevelFatal_def

definition Level_String :: "Level \<Rightarrow> string" where
  "Level_String l =
     (if l = LevelDebug then ''DEBUG'' else if l = LevelInfo then ''INFO'' else if l = LevelWarn then ''WARN''
      else if l = LevelError then ''ERROR'' else if l = LevelFatal then ''FATAL'' else [])"

section \<open>Values (value.go)\<close>

datatype lctx = BackgroundCtx | UserCtx nat

datatype val = Plain string | Valuer "lctx \<Rightarrow> string"

definition Value :: "lctx \<Rightarrow> val \<Rightarrow> val" where
  "Value x v = (case v of Valuer f \<Rightarrow> Plain (f x) | Plain t \<Rightarrow> v)"

text \<open>The loops over the odd positions.\<close>

fun calculateValues :: "lctx \<Rightarrow> val list \<Rightarrow> val list" where
  "calculateValues x (k # v # kvs) =
     k # (case v of Valuer f \<Rightarrow> Plain (f x) | Plain t \<Rightarrow> v) # calculateValues x kvs"
| "calculateValues x kvs = kvs"

fun containsValuer :: "val list \<Rightarrow> bool" where
  "containsValuer (k # v # kvs) = (case v of Valuer f \<Rightarrow> True | Plain t \<Rightarrow> containsValuer kvs)"
| "containsValuer kvs = False"

text \<open>
  \<open>Caller\<close>: the last two components of the file that \<^verbatim>\<open>runtime.Caller\<close> names, and the line, which
  \<open>itoa\<close> prints.
\<close>

definition last_slash :: "string \<Rightarrow> nat option" where
  "last_slash xs = (if CHR ''/'' \<in> set xs then Some (length xs - 1 - length (takeWhile (\<lambda>x. x \<noteq> CHR ''/'') (rev xs))) else None)"

definition Caller :: "(nat \<Rightarrow> string \<times> nat) \<Rightarrow> (nat \<Rightarrow> string) \<Rightarrow> nat \<Rightarrow> val" where
  "Caller runtime itoa depth =
     Valuer (\<lambda>_. let (file, line) = runtime depth in
       (case last_slash file of
          None \<Rightarrow> file @ '':'' @ itoa line
        | Some idx \<Rightarrow>
            (case last_slash (take idx file) of
               None \<Rightarrow> file @ '':'' @ itoa line
             | Some idx' \<Rightarrow> drop (idx' + 1) file @ '':'' @ itoa line)))"

text \<open>\<open>fmt_now\<close> is the present time in a layout.\<close>

definition Timestamp :: "(string \<Rightarrow> string) \<Rightarrow> string \<Rightarrow> val" where
  "Timestamp fmt_now layout = Valuer (\<lambda>_. fmt_now layout)"

section \<open>Loggers (std.go, log.go)\<close>

text \<open>
  A logger is a \<^verbatim>\<open>stdLogger\<close>, an implementation of the application's (known by a number), or a wrapper
  with prefixes around another logger.
\<close>

datatype Logger =
    StdLogger
  | AppLogger nat
  | WrapLogger (wl: Logger) (wctx: lctx) (prefixes: "val list") (hasValuer: bool)

text \<open>
  What has been logged: the lines of the standard logger, and the calls of the application's
  loggers; the levels that are filtered; the global logger; and whether the program has exited.
\<close>

record log_sys =
  lines :: "(string \<times> (val \<times> val) list) list"
  calls :: "(nat \<times> Level \<times> val list) list"
  filterLevels :: "Level list"
  global :: Logger
  exited :: bool

fun pairs :: "val list \<Rightarrow> (val \<times> val) list" where
  "pairs (k # v # kvs) = (k, v) # pairs kvs"
| "pairs kvs = []"

definition stdLogger_Log :: "Level \<Rightarrow> val list \<Rightarrow> log_sys \<Rightarrow> log_sys" where
  "stdLogger_Log level keyvals s =
     (if length keyvals = 0 then s
      else
        let keyvals = (if odd (length keyvals) then keyvals @ [Plain ''KEYVALS UNPAIRED''] else keyvals)
        in s\<lparr>lines := lines s @ [(Level_String level, pairs keyvals)]\<rparr>)"

fun Logger_Log :: "Logger \<Rightarrow> Level \<Rightarrow> val list \<Rightarrow> log_sys \<Rightarrow> log_sys" where
  "Logger_Log StdLogger level kvs s = stdLogger_Log level kvs s"
| "Logger_Log (AppLogger n) level kvs s = s\<lparr>calls := calls s @ [(n, level, kvs)]\<rparr>"
| "Logger_Log (WrapLogger l x ps hv) level kvs s =
     (if level \<in> set (filterLevels s) then s
      else
        let keyvals = ps;
            keyvals = (if hv then calculateValues x keyvals else keyvals)
        in Logger_Log l level (keyvals @ kvs) s)"

datatype log_error = ErrKvsNotInPaired | ErrContextIsNil | ErrNotSupport

definition With :: "Logger \<Rightarrow> val list \<Rightarrow> Logger \<times> log_error option" where
  "With l kvs =
     (if odd (length kvs) then (l, Some ErrKvsNotInPaired)
      else case l of
             WrapLogger dl dx dps dhv \<Rightarrow> (WrapLogger dl dx (dps @ kvs) (dhv \<or> containsValuer kvs), None)
           | _ \<Rightarrow> (WrapLogger l BackgroundCtx kvs (containsValuer kvs), None))"

definition WithContext :: "lctx option \<Rightarrow> Logger \<Rightarrow> Logger \<times> log_error option" where
  "WithContext xo l =
     (case xo of
        None \<Rightarrow> (l, Some ErrContextIsNil)
      | Some x \<Rightarrow>
          (case l of
             WrapLogger dl dx dps dhv \<Rightarrow> (WrapLogger dl x dps dhv, None)
           | _ \<Rightarrow> (WrapLogger l x [] False, None)))"

section \<open>Full loggers (log.go)\<close>

text \<open>
  A full logger is a wrapper with a method per level; \<open>sprint\<close> and \<open>sprintf\<close> are the functions of
  \<^verbatim>\<open>fmt\<close>. A fatal line ends the program.
\<close>

definition DefaultMsgKey :: val where "DefaultMsgKey = Plain ''msg''"

definition exit1 :: "log_sys \<Rightarrow> log_sys" where "exit1 s = s\<lparr>exited := True\<rparr>"

definition fullLogger_Log :: "Logger \<Rightarrow> Level \<Rightarrow> val list \<Rightarrow> log_sys \<Rightarrow> log_sys" where
  "fullLogger_Log l level kvs = Logger_Log l level kvs"

definition fullLogger_print :: "Level \<Rightarrow> (val list \<Rightarrow> string) \<Rightarrow> Logger \<Rightarrow> val list \<Rightarrow> log_sys \<Rightarrow> log_sys" where
  "fullLogger_print level sprint l v = Logger_Log l level [DefaultMsgKey, Plain (sprint v)]"

definition fullLogger_Debug :: "(val list \<Rightarrow> string) \<Rightarrow> Logger \<Rightarrow> val list \<Rightarrow> log_sys \<Rightarrow> log_sys" where
  "fullLogger_Debug = fullLogger_print LevelDebug"
definition fullLogger_Debugw :: "Logger \<Rightarrow> val list \<Rightarrow> log_sys \<Rightarrow> log_sys" where
  "fullLogger_Debugw l kvs = Logger_Log l LevelDebug kvs"
definition fullLogger_Info :: "(val list \<Rightarrow> string) \<Rightarrow> Logger \<Rightarrow> val list \<Rightarrow> log_sys \<Rightarrow> log_sys" where
  "fullLogger_Info = fullLogger_print LevelInfo"
definition fullLogger_Infow :: "Logger \<Rightarrow> val list \<Rightarrow> log_sys \<Rightarrow> log_sys" where
  "fullLogger_Infow l kvs = Logger_Log l LevelInfo kvs"
definition fullLogger_Warn :: "(val list \<Rightarrow> string) \<Rightarrow> Logger \<Rightarrow> val list \<Rightarrow> log_sys \<Rightarrow> log_sys" where
  "fullLogger_Warn = fullLogger_print LevelWarn"
definition fullLogger_Warnw :: "Logger \<Rightarrow> val list \<Rightarrow> log_sys \<Rightarrow> log_sys" where
  "fullLogger_Warnw l kvs = Logger_Log l LevelWarn kvs"
definition fullLogger_Error :: "(val list \<Rightarrow> string) \<Rightarrow> Logger \<Rightarrow> val list \<Rightarrow> log_sys \<Rightarrow> log_sys" where
  "fullLogger_Error = fullLogger_print LevelError"
definition fullLogger_Errorw :: "Logger \<Rightarrow> val list \<Rightarrow> log_sys \<Rightarrow> log_sys" where
  "fullLogger_Errorw l kvs = Logger_Log l LevelError kvs"
definition fullLogger_Fatal :: "(val list \<Rightarrow> string) \<Rightarrow> Logger \<Rightarrow> val list \<Rightarrow> log_sys \<Rightarrow> log_sys" where
  "fullLogger_Fatal sprint l v s = exit1 (fullLogger_print LevelFatal sprint l v s)"
definition fullLogger_Fatalw :: "Logger \<Rightarrow> val list \<Rightarrow> log_sys \<Rightarrow> log_sys" where
  "fullLogger_Fatalw l kvs s = exit1 (Logger_Log l LevelFatal kvs s)"

text \<open>The result's first part is what the full logger becomes; an implementation of the application is \<open>None\<close>.\<close>

definition WithFullLogger :: "Logger option \<Rightarrow> val list \<Rightarrow> Logger option \<times> log_error option" where
  "WithFullLogger lo kvs =
     (case lo of
        None \<Rightarrow> (None, Some ErrNotSupport)
      | Some l \<Rightarrow>
          (case With l kvs of
             (d, Some e) \<Rightarrow> (Some l, Some e)
           | (d, None) \<Rightarrow> (Some d, None)))"

section \<open>The global logger (global.go)\<close>

definition defaultLogger :: "val \<Rightarrow> val \<Rightarrow> Logger" where
  "defaultLogger ts caller = fst (With StdLogger [Plain ''ts'', ts, Plain ''caller'', caller])"

definition log_init :: "val \<Rightarrow> val \<Rightarrow> log_sys" where
  "log_init ts caller = \<lparr>lines = [], calls = [], filterLevels = [], global = defaultLogger ts caller, exited = False\<rparr>"

definition SetLogger :: "Logger \<Rightarrow> log_sys \<Rightarrow> log_sys" where
  "SetLogger l s = s\<lparr>global := l\<rparr>"

definition GetLogger :: "log_sys \<Rightarrow> Logger" where
  "GetLogger s = global s"

definition FilterLevel :: "Level list \<Rightarrow> log_sys \<Rightarrow> log_sys" where
  "FilterLevel level s =
     fold (\<lambda>l s. if l \<in> {LevelDebug, LevelInfo, LevelWarn, LevelError, LevelFatal}
                 then s\<lparr>filterLevels := l # filterLevels s\<rparr> else s) level s"

text \<open>The type assertion fails for a logger that is no wrapper, which a nil context leaves as it is.\<close>

definition NewContextLogger :: "lctx option \<Rightarrow> log_sys \<Rightarrow> Logger outcome" where
  "NewContextLogger xo s =
     (case fst (WithContext xo (global s)) of
        WrapLogger l x ps hv \<Rightarrow> Ok (WrapLogger l x ps hv)
      | _ \<Rightarrow> Panic TypeAssertion)"

definition global_Log :: "Level \<Rightarrow> val list \<Rightarrow> log_sys \<Rightarrow> log_sys" where
  "global_Log level kvs s = Logger_Log (global s) level kvs s"

definition global_print :: "Level \<Rightarrow> (val list \<Rightarrow> string) \<Rightarrow> val list \<Rightarrow> log_sys \<Rightarrow> log_sys" where
  "global_print level sprint v s = Logger_Log (global s) level [DefaultMsgKey, Plain (sprint v)] s"

definition Debug :: "(val list \<Rightarrow> string) \<Rightarrow> val list \<Rightarrow> log_sys \<Rightarrow> log_sys" where
  "Debug = global_print LevelDebug"
definition Debugw :: "val list \<Rightarrow> log_sys \<Rightarrow> log_sys" where
  "Debugw kvs s = Logger_Log (global s) LevelDebug kvs s"
definition Info :: "(val list \<Rightarrow> string) \<Rightarrow> val list \<Rightarrow> log_sys \<Rightarrow> log_sys" where
  "Info = global_print LevelInfo"
definition Infow :: "val list \<Rightarrow> log_sys \<Rightarrow> log_sys" where
  "Infow kvs s = Logger_Log (global s) LevelInfo kvs s"
definition Warn :: "(val list \<Rightarrow> string) \<Rightarrow> val list \<Rightarrow> log_sys \<Rightarrow> log_sys" where
  "Warn = global_print LevelWarn"
definition Warnw :: "val list \<Rightarrow> log_sys \<Rightarrow> log_sys" where
  "Warnw kvs s = Logger_Log (global s) LevelWarn kvs s"
definition Error :: "(val list \<Rightarrow> string) \<Rightarrow> val list \<Rightarrow> log_sys \<Rightarrow> log_sys" where
  "Error = global_print LevelError"
definition Errorw :: "val list \<Rightarrow> log_sys \<Rightarrow> log_sys" where
  "Errorw kvs s = Logger_Log (global s) LevelError kvs s"
definition Fatal :: "(val list \<Rightarrow> string) \<Rightarrow> val list \<Rightarrow> log_sys \<Rightarrow> log_sys" where
  "Fatal sprint v s = exit1 (global_print LevelFatal sprint v s)"
definition Fatalw :: "val list \<Rightarrow> log_sys \<Rightarrow> log_sys" where
  "Fatalw kvs s = exit1 (Logger_Log (global s) LevelFatal kvs s)"

section \<open>What is logged\<close>

lemma calculateValues_plain: "\<not> containsValuer kvs \<Longrightarrow> calculateValues x kvs = kvs"
  by (induction x kvs rule: calculateValues.induct) (auto split: val.splits)

lemma containsValuer_append: "even (length ps) \<Longrightarrow> containsValuer (ps @ kvs) \<longleftrightarrow> containsValuer ps \<or> containsValuer kvs"
  by (induction ps rule: containsValuer.induct) (auto split: val.splits)

lemma pairs_append: "even (length ps) \<Longrightarrow> pairs (ps @ kvs) = pairs ps @ pairs kvs"
  by (induction ps rule: pairs.induct) auto

lemma pairs_calculateValues: "pairs (calculateValues x kvs) = map (\<lambda>(k, v). (k, Value x v)) (pairs kvs)"
  by (induction x kvs rule: calculateValues.induct) (auto simp: Value_def split: val.split)

lemma length_calculateValues [simp]: "length (calculateValues x kvs) = length kvs"
  by (induction x kvs rule: calculateValues.induct) auto

text \<open>
  What every logger made by \<^verbatim>\<open>With\<close> and \<^verbatim>\<open>WithContext\<close> is like: a single wrapper, whose prefixes come in
  pairs and whose flag tells whether one of them has to be computed.
\<close>

definition logger_ok :: "Logger \<Rightarrow> bool" where
  "logger_ok l \<longleftrightarrow> (case l of WrapLogger l' x ps hv \<Rightarrow> (\<forall>m y qs h. l' \<noteq> WrapLogger m y qs h) \<and> even (length ps) \<and>
     hv = containsValuer ps | _ \<Rightarrow> True)"

lemma With_ok: "logger_ok l \<Longrightarrow> logger_ok (fst (With l kvs))"
  by (auto simp: logger_ok_def With_def containsValuer_append split: Logger.splits)

lemma WithContext_ok: "logger_ok l \<Longrightarrow> logger_ok (fst (WithContext xo l))"
  by (auto simp: logger_ok_def WithContext_def split: Logger.splits option.splits)

lemma WrapLogger_line:
  assumes "logger_ok (WrapLogger StdLogger x ps hv)" and "level \<notin> set (filterLevels s)" and "kvs \<noteq> []" and "even (length kvs)"
  shows "Logger_Log (WrapLogger StdLogger x ps hv) level kvs s =
    s\<lparr>lines := lines s @ [(Level_String level, map (\<lambda>(k, v). (k, Value x v)) (pairs ps) @ pairs kvs)]\<rparr>"
proof -
  have "(if hv then calculateValues x ps else ps) = calculateValues x ps"
    using assms(1) by (auto simp: logger_ok_def calculateValues_plain)
  with assms show ?thesis
    by (simp add: logger_ok_def stdLogger_Log_def pairs_append pairs_calculateValues)
qed

text \<open>
  C40: what is logged. A logger that any sequence of \<^verbatim>\<open>With\<close> and \<^verbatim>\<open>WithContext\<close> made from the standard logger
  writes, for a level that is not filtered, one line with the level's name, all the prefixes in the order in
  which they were added, the computed ones evaluated in the last context at the time of the call, and
  then the pairs of the call; for a level that is filtered it writes nothing.
\<close>

theorem logged_line:
  assumes "logger_ok (WrapLogger StdLogger x ps hv)" and "even (length new)" and "kvs \<noteq> []" and "even (length kvs)"
  shows "let l = fst (WithContext (Some y) (fst (With (WrapLogger StdLogger x ps hv) new))) in logger_ok l \<and>
    Logger_Log l level kvs s =
      (if level \<in> set (filterLevels s) then s
       else s\<lparr>lines := lines s @ [(Level_String level, map (\<lambda>(k, v). (k, Value y v)) (pairs ps @ pairs new) @ pairs kvs)]\<rparr>)"
proof -
  let ?w = "WrapLogger StdLogger y (ps @ new) (hv \<or> containsValuer new)"
  have l: "fst (WithContext (Some y) (fst (With (WrapLogger StdLogger x ps hv) new))) = ?w"
    using assms(2) by (simp add: With_def WithContext_def)
  have ok: "logger_ok ?w" using WithContext_ok[OF With_ok[OF assms(1)]] by (metis l)
  have "pairs (ps @ new) = pairs ps @ pairs new" using assms(1) by (simp add: logger_ok_def pairs_append)
  with ok show ?thesis
    using WrapLogger_line[OF ok _ assms(3,4), of level s] by (simp add: l)
qed

theorem logged_line_witness:
  "lines (Logger_Log (fst (WithContext (Some (UserCtx 1)) (fst (With (defaultLogger (Plain ''t'') (Plain ''c''))
      [Plain ''id'', Valuer (\<lambda>x. case x of UserCtx n \<Rightarrow> ''user'' | BackgroundCtx \<Rightarrow> ''nobody'')]))))
      LevelInfo [DefaultMsgKey, Plain ''hello''] (log_init (Plain ''t'') (Plain ''c''))) =
   [(''INFO'', [(Plain ''ts'', Plain ''t''), (Plain ''caller'', Plain ''c''), (Plain ''id'', Plain ''user''), (Plain ''msg'', Plain ''hello'')])]"
proof -
  have d: "defaultLogger (Plain ''t'') (Plain ''c'') = WrapLogger StdLogger BackgroundCtx [Plain ''ts'', Plain ''t'', Plain ''caller'', Plain ''c''] False"
    by (simp add: defaultLogger_def With_def)
  have ok: "logger_ok (WrapLogger StdLogger BackgroundCtx [Plain ''ts'', Plain ''t'', Plain ''caller'', Plain ''c''] False)"
    by (simp add: logger_ok_def)
  show ?thesis
    unfolding d
    using logged_line[OF ok, of "[Plain ''id'', Valuer (\<lambda>x. case x of UserCtx n \<Rightarrow> ''user'' | BackgroundCtx \<Rightarrow> ''nobody'')]"
        "[DefaultMsgKey, Plain ''hello'']" "UserCtx 1" LevelInfo "log_init (Plain ''t'') (Plain ''c'')"]
    by (simp add: log_init_def Value_def DefaultMsgKey_def Level_String_def level_defs Let_def)
qed

text \<open>The filter belongs to the wrapper: a logger that is set without one is not filtered.\<close>

theorem filter_needs_wrapper:
  "calls (global_Log level kvs (SetLogger (AppLogger n) (FilterLevel ls s))) = calls s @ [(n, level, kvs)]"
proof -
  have "calls (FilterLevel ls s) = calls s"
    unfolding FilterLevel_def by (induction ls arbitrary: s) auto
  then show ?thesis by (simp add: global_Log_def SetLogger_def)
qed

end
