(* ===== verification/Spec2Isabelle.thy ===== *)
theory Spec2Isabelle
  imports CodecProps ReaderTypes WriterProps KeeperWheel KeepaliveTest ServerProps Logging
begin

text \<open>
  Verification of \<^verbatim>\<open>less\<close>, a framework for TCP servers in Go.

  \<^bold>\<open>The program.\<close> A server (\<^verbatim>\<open>server/server.go\<close>) makes a transport handler and starts a TCP transport.
  The transport (\<^verbatim>\<open>transport/tcp\<close>) accepts connections, reports each to the handler (\<^verbatim>\<open>OnConnect\<close>) and
  starts a read loop for it, which calls \<^verbatim>\<open>OnMessage\<close> over and over. The transport handler
  (\<^verbatim>\<open>internal/trans\<close>) keeps a table of channels, one per connection. A message is read through a
  buffered reader over the connection (\<^verbatim>\<open>pkg/io/reader\<close>), cut out of the stream by a packet codec
  (\<^verbatim>\<open>codec/packet\<close>), decoded by a payload codec (\<^verbatim>\<open>codec/payload\<close>, \<^verbatim>\<open>internal/msg\<close>) and handed to the
  channel's pipeline of middlewares (\<^verbatim>\<open>internal/channel\<close>) on a goroutine; messages to the peer go
  through the outbound pipeline, the codecs and a buffered writer (\<^verbatim>\<open>pkg/io/writer\<close>). A keeper
  (\<^verbatim>\<open>internal/keepalive\<close>) watches each channel with timers of a time wheel (\<^verbatim>\<open>internal/timewheel\<close>).

  \<^bold>\<open>Conventions\<close> (\<open>Prelude\<close>). Machine integers are words where they wrap (lengths, versions, ticks,
  states) and integers where the code's values stay small. A call that may fail returns an
  \<^verbatim>\<open>outcome\<close>: \<open>Ok\<close>, \<open>Err\<close> (an error value), \<open>Panic\<close>, or \<open>Hang\<close> (it never returns); \<open>and_then\<close> sequences
  such calls. State is passed explicitly, as a record; objects that are shared are addresses in a
  store of the state.

  \<^bold>\<open>Theories.\<close>
  \<^item> \<open>Reader\<close>, \<open>ReaderSession\<close>, \<open>ReaderTypes\<close>: the buffered and the limit reader; what \<^verbatim>\<open>Next\<close>, \<^verbatim>\<open>Peek\<close>, \<^verbatim>\<open>Skip\<close> and \<^verbatim>\<open>Until\<close>
    return, case by case; that results do not depend on how a stream is cut into segments; that a
    limit reader behaves as a reader of the bytes of its frame (\<open>frame_session\<close>); that every operation, however it ends, leaves a reader well
    formed.
  \<^item> \<open>Heap\<close>, \<open>Writer\<close>, \<open>Append\<close>, \<open>WriterProps\<close>: byte arrays on a heap, so that slices alias, and the
    buffered writer; any sequence of writes followed by a flush sends the bytes written.
  \<^item> \<open>Payload\<close>, \<open>Contract\<close>, \<open>Packet\<close>, \<open>CodecProps\<close>: messages and codecs. The locale \<open>payload_contract\<close>
    is the interface between payload and packet codecs, interpreted for each payload codec; round
    trips for each packet codec, and the sizes at which they fail.
  \<^item> \<open>Headlist\<close>, \<open>Timewheel\<close>, \<open>WheelPlace\<close>, \<open>WheelInv\<close>, \<open>WheelTick\<close>, \<open>WheelRun\<close>, \<open>WheelProps\<close>, \<open>WheelRequests\<close>: the
    linked list (\<^verbatim>\<open>list.go\<close>) and the wheel (\<^verbatim>\<open>time_wheel.go\<close>, \<^verbatim>\<open>time_wheel_node.go\<close>). The abstract specification is a
    set of timers with their due times; a tick of the wheel refines a tick of the set. The locale
    \<open>timer_service\<close> states what a client may rely on. \<open>keeps\<close> says which requests, each with its time
    on the clock, a wheel holds, and how a reading of the clock moves the due ones to the pool.
  \<^item> \<open>Connection\<close>: a TCP connection (\<^verbatim>\<open>transport/tcp/std.go\<close>).
  \<^item> \<open>Channel\<close>, \<open>ChannelProps\<close>, \<open>ChannelLife\<close>: middlewares (\<^verbatim>\<open>func.go\<close>), task counters (\<^verbatim>\<open>waitgroup.go\<close>),
    pipelines and channels. \<open>caller_step\<close> takes the atomic steps of concurrent closing calls one by
    one; \<open>life_step\<close> is the relation of all runs of handlers, closing calls and the goroutines they
    start, with the invariant \<open>life_inv\<close>. Handlers begin and end through the two halves of \<open>Recorder\<close>,
    so that one that panics is not counted down. The locale \<open>closing_hooks\<close> is what the hooks on
    closing have to respect; it is interpreted for hooks that log their calls (\<open>watch\<close>), and with the
    log the properties say when hooks are called and when they never will be.
  \<^item> \<open>Keepalive\<close>, \<open>KeepaliveProps\<close>, \<open>KeepaliveRun\<close>: parameters, middleware, keepers; keepalive messages
    are kept from the application. \<open>ka_step\<close> is the relation of all runs of keepers, timers that fire
    somewhat late and anything else that goes on; in every run a channel that is kept open has shown
    a sign of life. The locale \<open>keeper_writes\<close> is what a keeper needs of the outbound handler,
    interpreted for that of the transport handler.
  \<^item> \<open>KeeperWheel\<close>: keepers, time wheel and goroutine pool together. \<open>kw_step\<close> is the relation of all runs
    in which the keepers' requests are nodes of the wheel; it refines \<open>ka_step\<close>, with timers that are late
    by at most 10 ms, the delay of the ticker and the delay of the pool, and gives the time by which
    the channel of a dead peer is closed.
  \<^item> \<open>Trans\<close>, \<open>TransProps\<close>: the transport handler. \<open>th_step\<close> is the relation of its events; the locale
    \<open>app_hooks\<close> (a sublocale of \<open>closing_hooks\<close>) is what the application's hooks have to respect, and
    under it the table of channels and its counter agree in every run.
  \<^item> \<open>Registry\<close>: the handler's events and the life of its channels together. \<open>sys_step\<close> is the relation of
    all runs; its invariant \<open>sys_inv\<close> ties the table to the channels, their goroutines, their pipelines
    and the pool, under the locale \<open>system_hooks\<close> (an extension of \<open>app_hooks\<close>). \<open>OnConnect\<close> is taken
    apart into the stages \<open>connect_start\<close> and \<open>connect_next\<close>, between which other steps may come; one
    after the other they are \<open>OnConnect\<close> (\<open>OnConnect_stages\<close>). The run keeps the set \<open>late\<close> of the channels
    that were entered in the table after their hooks had been called: for them, and for them only,
    the table may hold a finished channel, and \<open>late_channel_registered\<close> is such a run.
  \<^item> \<open>Tcp\<close>, \<open>TcpProps\<close>: options, accepting, dialling and the read loop. The read loop takes a stream of
    packets apart completely and starts the goroutines for them in order, which puts reader, codecs,
    channel and handler together.
  \<^item> \<open>Exchange\<close>: from accepting a connection to the bytes sent back, for an application that echoes:
    handler, reader, codecs, pipelines with their recorders and writer together, in every order of
    read rounds and goroutines.
  \<^item> \<open>FakeClient\<close>, \<open>KeepaliveTest\<close>: the client of the manual tests, the other end of the protocol, and the
    program under \<^verbatim>\<open>test/keepalive\<close> that runs server and client. Its hooks interpret \<open>system_hooks\<close>; a ping of
    the server is followed through the client and back to the keeper.
  \<^item> \<open>ServerMod\<close>, \<open>ServerProps\<close>: the server, the address it listens at, \<^verbatim>\<open>Shutdown\<close>, the goroutine pool.
  \<^item> \<open>Logging\<close>: the package \<^verbatim>\<open>log\<close>.

  \<^bold>\<open>Bounds and fuel.\<close> The doubling loop of the writer and the search loop of \<^verbatim>\<open>Until\<close> may not end;
  they are partial functions into \<open>option\<close>, and \<open>Hang\<close> is the result when they do not. The loop of the
  delimiter codec, the cascading of the wheel and the loops over lists are total. The accept loop and
  the read loop never end by themselves: they are functions of the list of what comes in (results of
  \<^verbatim>\<open>Accept\<close>, readers from the pool), and the theorems hold for every such list. The packets of the
  delivery theorems have at most 251 bytes of payload, because longer ones run into the faults of the
  writer and the reader that \<open>CodecProps\<close> describes exactly.

  \<^bold>\<open>Concurrency.\<close> Operations under a lock, and handlers whose interleaving does not matter for what
  is claimed, are single steps; goroutines are entries of the list \<^verbatim>\<open>tasks\<close> of the state, which the
  step relations run in any order. Compare-and-swap loops are modelled step by step, and so is the
  accepting of connections in \<open>Registry\<close>; in \<open>th_step\<close> a call of \<open>OnConnect\<close> is one event. The end of a
  wait and what the goroutine does next (the hooks of a channel, say, all of them) are one step, and
  so is \<open>closeChannel\<close>.
  How late the ticker of the wheel and the goroutines of the pool are is bounded by parameters of the
  step relation; without such bounds no time is promised.

  \<^bold>\<open>Not modelled.\<close> Calls of the log from the other components (they do not change their state); the
  formatting of \<^verbatim>\<open>fmt\<close>; the sockets of \<^verbatim>\<open>net\<close>, the pool \<^verbatim>\<open>ants\<close>, \<^verbatim>\<open>encoding/json\<close>, \<^verbatim>\<open>reflect\<close> and the random
  source, which are parameters; context trees beyond whether a context is done and which channel it
  carries; data races on fields that the code reads without a lock, and on the array behind the
  common closing hooks, to which \<^verbatim>\<open>append\<close> in \<open>FireOnChannelClosed\<close> may write when it has room (the
  model concatenates); the pointer arithmetic of the
  \<^verbatim>\<open>Entry\<close> functions of the list (a node and its list entry are one object of the store); how long
  the goroutines of the test program sleep.
\<close>

end
